(* ===== verification/Prelude.thy ===== *)
theory Prelude
  imports Complex_Main "HOL-Library.Word"
begin

text \<open>
  Shared material of the development: the names of the machine types of the
  simulator, the outcome of code that can stop the simulation (a failed
  \<open>assert\<close>, \<open>panic\<close>, \<open>fatal\<close> or an exception of the standard library) as a sum
  type with its sequencing operator, the fact collections the component
  theories fill, and generic lemmas on lists and words.
\<close>

unbundle bit_operations_syntax

named_theorems invariant_simps \<open>definitions of the component invariants\<close>
named_theorems op_defs \<open>definitions of the operations of the components\<close>

section \<open>Machine types\<close>

type_synonym Addr = "64 word"
type_synonym Tick = "64 word"
type_synonym u64 = "64 word"
type_synonym u32 = "32 word"
type_synonym u8 = "8 word"

text \<open>A C \<open>int\<close> is kept as its 32 bits; \<^term>\<open>sint\<close> reads it.\<close>

type_synonym cint = "32 word"

section \<open>Outcomes\<close>

text \<open>
  \<open>AssertFailed\<close>: an \<open>assert\<close> of the source does not hold; \<open>Panic\<close>, \<open>Fatal\<close>: the
  calls of the same name; \<open>OutOfRange\<close>: \<open>at()\<close> of a container throws or an index
  leaves a vector; \<open>NullDeref\<close>: a null pointer is used. \<open>NotFinite\<close> is no error of the
  source: the code goes on with an infinity or NaN, which the model of doubles leaves out.
\<close>

datatype sim_error =
    AssertFailed string
  | Panic string
  | Fatal string
  | OutOfRange string
  | NullDeref string
  | NotFinite string

type_synonym 'a result = "sim_error + 'a"

definition bindR :: "'a result \<Rightarrow> ('a \<Rightarrow> 'b result) \<Rightarrow> 'b result" where
  "bindR m f = (case m of Inl e \<Rightarrow> Inl e | Inr x \<Rightarrow> f x)"

lemma bindR_simps [simp]:
  "bindR (Inl e) f = Inl e"
  "bindR (Inr x) f = f x"
  by (simp_all add: bindR_def)

lemma bindR_eq_Inr [simp]: "bindR m f = Inr y \<longleftrightarrow> (\<exists>x. m = Inr x \<and> f x = Inr y)"
  by (cases m) auto

lemma bindR_eq_Inl: "bindR m f = Inl e \<longleftrightarrow> m = Inl e \<or> (\<exists>x. m = Inr x \<and> f x = Inl e)"
  by (cases m) auto

section \<open>Lists\<close>

text \<open>
  The search loop every replacement policy with a scalar key uses: start from a
  candidate and move to each later one whose key is strictly better.
\<close>

fun scan_best :: "('a \<Rightarrow> 'a \<Rightarrow> bool) \<Rightarrow> 'a \<Rightarrow> 'a list \<Rightarrow> 'a" where
  "scan_best better v [] = v"
| "scan_best better v (c # cs) = scan_best better (if better c v then c else v) cs"

lemma scan_best_in: "scan_best better v cs \<in> insert v (set cs)"
  by (induction cs arbitrary: v) (auto split: if_splits)

lemma scan_best_least:
  assumes trans: "\<And>a b c. \<not> better b a \<Longrightarrow> \<not> better c b \<Longrightarrow> \<not> better c a"
    and irrefl: "\<And>a. \<not> better a a"
    and asym: "\<And>a b. better a b \<Longrightarrow> \<not> better b a"
  shows "\<forall>c \<in> insert v (set cs). \<not> better c (scan_best better v cs)"
proof (induction cs arbitrary: v)
  case Nil
  then show ?case by (simp add: irrefl)
next
  case (Cons x xs)
  let ?w = "if better x v then x else v"
  have IH: "\<forall>c \<in> insert ?w (set xs). \<not> better c (scan_best better ?w xs)"
    by (rule Cons.IH)
  have "\<not> better v ?w" "\<not> better x ?w" using irrefl asym by auto
  with IH have "\<not> better v (scan_best better ?w xs)" "\<not> better x (scan_best better ?w xs)"
    by (meson insertI1 trans)+
  with IH show ?case by auto
qed

lemma scan_best_key_min:
  fixes key :: "'a \<Rightarrow> 'k::linorder"
  shows "\<forall>c \<in> insert v (set cs). key (scan_best (\<lambda>c v. key c < key v) v cs) \<le> key c"
  using scan_best_least [of "\<lambda>c v. key c < key v" v cs] by (auto simp: not_less)

lemma scan_best_key_max:
  fixes key :: "'a \<Rightarrow> 'k::linorder"
  shows "\<forall>c \<in> insert v (set cs). key c \<le> key (scan_best (\<lambda>c v. key c > key v) v cs)"
  using scan_best_least [of "\<lambda>c v. key c > key v" v cs] by (auto simp: not_less)

lemma nth_update_cases:
  "i < length xs \<Longrightarrow> xs[j := x] ! i = (if i = j then x else xs ! i)"
  by simp

lemma find_result: "find P xs = Some x \<Longrightarrow> P x \<and> x \<in> set xs"
  by (auto simp: find_Some_iff)

lemma option_eqI: "(\<And>p. a = Some p \<longleftrightarrow> b = Some p) \<Longrightarrow> a = b"
  by (metis option.exhaust)

section \<open>Words\<close>

lemma unat_and_mask_le: "unat (a AND b) \<le> unat (b :: 'a::len word)"
  by (simp add: word_and_le1 flip: word_le_nat_alt)

lemma unat_less64: "unat (v :: u64) < 2 ^ 64"
  by (rule less_le_trans [OF unsigned_less]) simp

lemma unat_less32: "unat (v :: u32) < 2 ^ 32"
  by (rule less_le_trans [OF unsigned_less]) simp

lemma unat_ucast32 [simp]: "unat (ucast (v :: u32) :: u64) = unat v"
proof -
  have "unat v < 2 ^ 64" using unat_less32 [of v] by (rule less_trans) simp
  then have "take_bit 64 (unat v) = unat v" by (rule take_bit_nat_eq_self)
  then show ?thesis unfolding unsigned_ucast_eq by simp
qed

lemma unat_of_nat32: "n < 2 ^ 32 \<Longrightarrow> unat (of_nat n :: u32) = n"
  by (simp add: unat_of_nat)

end
