(* ===== verification/Doubles.thy ===== *)
theory Doubles
  imports Prelude "HOL-Library.Log_Nat"
begin

text \<open>
  The \<open>double\<close> arithmetic the source uses, IEEE 754 binary64 with the default
  rounding: a finite \<open>double\<close> is the rational number it stands for, and each
  operation is the exact result rounded to the nearest representable number,
  ties to the even significand (\<open>rnd64\<close>). Subnormals are included. Infinities, NaN
  and the sign of zero are outside: no operation modelled here overflows, and
  the one division whose divisor may be zero (\<open>SatCounter\<close>) is modelled apart.
  The locale \<open>correct_rounding\<close> states the laws of the standard that the
  client proofs rest on; it is interpreted on \<open>rnd64\<close>.
\<close>

section \<open>Rounding to binary64\<close>

text \<open>The exponent of the leading binary digit of a positive rational.\<close>

definition ilog2 :: "rat \<Rightarrow> int" where
  "ilog2 x = (let (p, q) = quotient_of x; e = bitlen p - bitlen q
              in if x < 2 powi e then e - 1 else e)"

text \<open>Round half to even.\<close>

definition rhe :: "rat \<Rightarrow> int" where
  "rhe x = (let f = \<lfloor>x\<rfloor>; d = x - of_int f
            in if d < 1 / 2 then f else if d > 1 / 2 then f + 1
               else if even f then f else f + 1)"

definition ulp_exp :: "rat \<Rightarrow> int" where
  "ulp_exp x = max (ilog2 \<bar>x\<bar>) (- 1022) - 52"

definition rnd64 :: "rat \<Rightarrow> rat" where
  "rnd64 x = (if x = 0 then 0
              else of_int (rhe (x / 2 powi ulp_exp x)) * 2 powi ulp_exp x)"

definition is_double :: "rat \<Rightarrow> bool" where
  "is_double x \<longleftrightarrow> rnd64 x = x"

definition fadd :: "rat \<Rightarrow> rat \<Rightarrow> rat" where
  "fadd x y = rnd64 (x + y)"

definition fsub :: "rat \<Rightarrow> rat \<Rightarrow> rat" where
  "fsub x y = rnd64 (x - y)"

definition fmul :: "rat \<Rightarrow> rat \<Rightarrow> rat" where
  "fmul x y = rnd64 (x * y)"

definition fdiv :: "rat \<Rightarrow> rat \<Rightarrow> rat" where
  "fdiv x y = rnd64 (x / y)"

text \<open>The conversion \<open>(double) n\<close> of an unsigned integer.\<close>

definition double_of :: "'a::len word \<Rightarrow> rat" where
  "double_of n = rnd64 (of_nat (unat n))"

section \<open>The leading digit\<close>

lemma powi_mono: "a \<le> b \<Longrightarrow> (2::rat) powi a \<le> 2 powi b"
  by (rule power_int_increasing) auto

lemma powi_pos [simp]: "0 < (2::rat) powi a"
  by simp

lemma powi_less_cancel: "(2::rat) powi a < 2 powi b \<Longrightarrow> a < b"
  using powi_mono [of b a] by (meson not_le)

lemma bitlen_powi:
  assumes "p > 0"
  shows "(2::rat) powi (bitlen p - 1) \<le> of_int p" "of_int p < (2::rat) powi (bitlen p)"
proof -
  have b: "0 \<le> bitlen p - 1" "0 \<le> bitlen p"
    using assms bitlen_nonneg [of p] bitlen_eq_zero_iff [of p] by linarith+
  from bitlen_bounds [OF assms]
  have l: "2 ^ nat (bitlen p - 1) \<le> p" and u: "p < 2 ^ nat (bitlen p)" by auto
  from l have "(of_int (2 ^ nat (bitlen p - 1)) :: rat) \<le> of_int p" by (simp only: of_int_le_iff)
  with b show "(2::rat) powi (bitlen p - 1) \<le> of_int p" by (simp add: power_int_nonneg_exp)
  from u have "(of_int p :: rat) < of_int (2 ^ nat (bitlen p))" by (simp only: of_int_less_iff)
  with b show "of_int p < (2::rat) powi (bitlen p)" by (simp add: power_int_nonneg_exp)
qed

lemma ilog2_bounds:
  assumes "0 < x"
  shows "2 powi (ilog2 x) \<le> x" "x < 2 powi (ilog2 x + 1)"
proof -
  obtain p q where pq: "quotient_of x = (p, q)" by fastforce
  then have q: "q > 0" and x: "x = of_int p / of_int q"
    by (auto intro: quotient_of_denom_pos quotient_of_div)
  with assms have p: "p > 0" by (simp add: zero_less_divide_iff)
  let ?e = "bitlen p - bitlen q"
  note P = bitlen_powi [OF p] and Q = bitlen_powi [OF q]
  have "x < 2 powi (bitlen p) / 2 powi (bitlen q - 1)"
    unfolding x using P Q p by (intro frac_less) auto
  then have up: "x < 2 powi (?e + 1)"
    by (simp add: power_int_diff power_int_add)
  have "2 powi (bitlen p - 1) / 2 powi (bitlen q) < x"
    unfolding x using P Q q by (intro frac_less2) auto
  then have lo: "2 powi (?e - 1) < x"
    by (simp add: algebra_simps flip: power_int_diff)
  have eq: "ilog2 x = (if x < 2 powi ?e then ?e - 1 else ?e)"
    by (simp add: ilog2_def pq)
  show "2 powi (ilog2 x) \<le> x" using lo eq by auto
  show "x < 2 powi (ilog2 x + 1)" using up eq by auto
qed

lemma ilog2_unique:
  assumes "2 powi k \<le> x" "x < 2 powi (k + 1)"
  shows "ilog2 x = k"
proof -
  from assms(1) have pos: "0 < x" using powi_pos less_le_trans by blast
  note b = ilog2_bounds [OF pos]
  have "(2::rat) powi k < 2 powi (ilog2 x + 1)" "(2::rat) powi (ilog2 x) < 2 powi (k + 1)"
    using b assms by (meson le_less_trans)+
  then show ?thesis by (auto dest!: powi_less_cancel)
qed

lemma ilog2_mono: "0 < x \<Longrightarrow> x \<le> y \<Longrightarrow> ilog2 x \<le> ilog2 y"
proof -
  assume a: "0 < x" "x \<le> y"
  then have "(2::rat) powi (ilog2 x) < 2 powi (ilog2 y + 1)"
    using ilog2_bounds(1) [of x] ilog2_bounds(2) [of y] by linarith
  then show ?thesis by (auto dest!: powi_less_cancel)
qed

section \<open>Round half to even\<close>

lemma rhe_of_int [simp]: "rhe (of_int n) = n"
  by (simp add: rhe_def)

lemma rhe_zero [simp]: "rhe 0 = 0"
  using rhe_of_int [of 0] by simp

lemma rhe_floor: "\<lfloor>x\<rfloor> \<le> rhe x" "rhe x \<le> \<lfloor>x\<rfloor> + 1"
  by (simp_all add: rhe_def Let_def)

lemma rhe_mono: "x \<le> y \<Longrightarrow> rhe x \<le> rhe y"
proof -
  assume xy: "x \<le> y"
  then have f: "\<lfloor>x\<rfloor> \<le> \<lfloor>y\<rfloor>" by (rule floor_mono)
  show ?thesis
  proof (cases "\<lfloor>x\<rfloor> = \<lfloor>y\<rfloor>")
    case True
    with xy show ?thesis by (auto simp: rhe_def Let_def)
  next
    case False
    with f have "\<lfloor>x\<rfloor> + 1 \<le> \<lfloor>y\<rfloor>" by simp
    with rhe_floor(2) [of x] rhe_floor(1) [of y] show ?thesis by linarith
  qed
qed

lemma rhe_minus: "rhe (- x) = - rhe x"
proof (cases "x = of_int \<lfloor>x\<rfloor>")
  case True
  then obtain n where "x = of_int n" by blast
  then show ?thesis by (metis of_int_minus rhe_of_int)
next
  case False
  then have "\<lceil>x\<rceil> = \<lfloor>x\<rfloor> + 1" by (simp add: ceiling_altdef)
  then have f: "\<lfloor>- x\<rfloor> = - \<lfloor>x\<rfloor> - 1" by (simp add: floor_minus)
  have "d < 1/2 \<or> d = 1/2 \<or> d > 1/2" for d :: rat by linarith
  then show ?thesis unfolding rhe_def Let_def f by (auto simp: algebra_simps)
qed

section \<open>Laws of the rounding\<close>

lemma ulp_exp_minus [simp]: "ulp_exp (- x) = ulp_exp x"
  by (simp add: ulp_exp_def)

lemma rnd64_zero [simp]: "rnd64 0 = 0"
  by (simp add: rnd64_def)

lemma rnd64_minus: "rnd64 (- x) = - rnd64 x"
  by (simp add: rnd64_def rhe_minus)

lemma rnd64_nonneg: "0 \<le> x \<Longrightarrow> 0 \<le> rnd64 x"
proof -
  assume "0 \<le> x"
  then have "0 \<le> x / 2 powi ulp_exp x" by simp
  from rhe_mono [OF this] have "0 \<le> rhe (x / 2 powi ulp_exp x)" by simp
  then show ?thesis by (simp add: rnd64_def)
qed

lemma ulp_exp_ge: "- 1074 \<le> ulp_exp x"
  by (simp add: ulp_exp_def)

lemma less_powi_ulp: "0 < x \<Longrightarrow> x < 2 powi (ulp_exp x + 53)"
proof -
  assume x: "0 < x"
  have "(2::rat) powi (ilog2 x + 1) \<le> 2 powi (ulp_exp x + 53)"
    using x by (intro powi_mono) (simp add: ulp_exp_def)
  with ilog2_bounds(2) [OF x] show ?thesis by linarith
qed

lemma scaled_le: "0 < x \<Longrightarrow> x / 2 powi ulp_exp x \<le> of_int (2 ^ 53)"
proof -
  assume "0 < x"
  then have "x / 2 powi ulp_exp x \<le> 2 powi (ulp_exp x + 53) / 2 powi ulp_exp x"
    using less_powi_ulp [of x] by (intro divide_right_mono) auto
  also have "\<dots> = 2 powi 53" by (subst power_int_add) auto
  finally show ?thesis by simp
qed

lemma rnd64_le_powi: "0 < x \<Longrightarrow> rnd64 x \<le> 2 powi (ulp_exp x + 53)"
proof -
  assume x: "0 < x"
  have "rhe (x / 2 powi ulp_exp x) \<le> rhe (of_int (2 ^ 53))"
    by (rule rhe_mono [OF scaled_le [OF x]])
  then have "rhe (x / 2 powi ulp_exp x) \<le> 2 ^ 53" by (simp only: rhe_of_int)
  then have "(of_int (rhe (x / 2 powi ulp_exp x)) :: rat) \<le> of_int (2 ^ 53)"
    by (simp only: of_int_le_iff)
  then have "of_int (rhe (x / 2 powi ulp_exp x)) * 2 powi ulp_exp x \<le> (2::rat) powi 53 * 2 powi ulp_exp x"
    by (intro mult_right_mono) auto
  also have "\<dots> = 2 powi (ulp_exp x + 53)" by (subst power_int_add [symmetric]) (auto simp: add.commute)
  finally show ?thesis using x by (simp add: rnd64_def)
qed

lemma rnd64_ge_powi:
  assumes "2 powi (ulp_exp x + 52) \<le> x"
  shows "2 powi (ulp_exp x + 52) \<le> rnd64 x"
proof -
  have x: "0 < x" using assms powi_pos less_le_trans by blast
  have "2 powi (ulp_exp x + 52) / 2 powi ulp_exp x \<le> x / 2 powi ulp_exp x"
    using assms by (intro divide_right_mono) auto
  moreover have "(2::rat) powi (ulp_exp x + 52) / 2 powi ulp_exp x = of_int (2 ^ 52)"
    by (subst power_int_add) auto
  ultimately have "rhe (of_int (2 ^ 52)) \<le> rhe (x / 2 powi ulp_exp x)"
    by (intro rhe_mono) simp
  then have "2 ^ 52 \<le> rhe (x / 2 powi ulp_exp x)" by (simp only: rhe_of_int)
  then have "(of_int (2 ^ 52) :: rat) \<le> of_int (rhe (x / 2 powi ulp_exp x))"
    by (simp only: of_int_le_iff)
  then have "(2::rat) powi 52 * 2 powi ulp_exp x \<le> of_int (rhe (x / 2 powi ulp_exp x)) * 2 powi ulp_exp x"
    by (intro mult_right_mono) auto
  moreover have "(2::rat) powi 52 * 2 powi ulp_exp x = 2 powi (ulp_exp x + 52)"
    by (subst power_int_add [symmetric]) (auto simp: add.commute)
  ultimately have "(2::rat) powi (ulp_exp x + 52) \<le> of_int (rhe (x / 2 powi ulp_exp x)) * 2 powi ulp_exp x"
    by (simp only:)
  also have "\<dots> = rnd64 x" using x by (simp add: rnd64_def)
  finally show ?thesis .
qed

lemma rnd64_mono_pos:
  assumes "0 < x" "x \<le> y"
  shows "rnd64 x \<le> rnd64 y"
proof -
  have le: "ulp_exp x \<le> ulp_exp y"
    using assms ilog2_mono [OF assms] by (simp add: ulp_exp_def)
  show ?thesis
  proof (cases "ulp_exp x = ulp_exp y")
    case True
    have "rhe (x / 2 powi ulp_exp y) \<le> rhe (y / 2 powi ulp_exp y)"
      using assms by (intro rhe_mono divide_right_mono) auto
    with True assms show ?thesis by (simp add: rnd64_def)
  next
    case False
    with le have lt: "ulp_exp x + 53 \<le> ulp_exp y + 52" by simp
    from False le have "ulp_exp y = ilog2 y - 52"
      using assms ulp_exp_ge [of x] by (auto simp: ulp_exp_def max_def split: if_splits)
    with assms ilog2_bounds(1) [of y] have "2 powi (ulp_exp y + 52) \<le> y" by simp
    from rnd64_ge_powi [OF this] rnd64_le_powi [OF assms(1)] powi_mono [OF lt]
    show ?thesis by linarith
  qed
qed

lemma rnd64_mono: "x \<le> y \<Longrightarrow> rnd64 x \<le> rnd64 y"
proof -
  assume xy: "x \<le> y"
  consider "0 < x" | "x \<le> 0" "0 \<le> y" | "y < 0" using xy by linarith
  then show ?thesis
  proof cases
    case 1
    then show ?thesis using xy by (rule rnd64_mono_pos)
  next
    case 2
    then have "0 \<le> rnd64 (- x)" "0 \<le> rnd64 y" by (simp_all add: rnd64_nonneg)
    then show ?thesis by (simp add: rnd64_minus)
  next
    case 3
    with xy have "rnd64 (- y) \<le> rnd64 (- x)" by (intro rnd64_mono_pos) auto
    then show ?thesis by (simp add: rnd64_minus)
  qed
qed

text \<open>
  The representable numbers: an integer significand of at most 53 bits scaled
  by a power of two not below the subnormal unit. Rounding keeps them, and
  every rounded number is one.
\<close>

lemma rnd64_exact_pos:
  assumes x: "x = of_int m * 2 powi e" and m: "0 < m" "m \<le> 2 ^ 53" and e: "- 1074 \<le> e"
  shows "rnd64 x = x"
proof -
  have pos: "0 < x" using x m by simp
  have "x \<le> of_int (2 ^ 53) * 2 powi e"
    unfolding x using m by (intro mult_right_mono) (auto simp only: of_int_le_iff powi_pos less_imp_le)
  also have "\<dots> = 2 powi (e + 53)" by (simp add: power_int_add)
  finally have up: "x \<le> 2 powi (e + 53)" .
  have "\<exists>n. x / 2 powi ulp_exp x = of_int n"
  proof (cases "ulp_exp x \<le> e")
    case True
    have "x / 2 powi ulp_exp x = of_int m * 2 powi (e - ulp_exp x)"
      by (simp add: x power_int_diff)
    also have "\<dots> = of_int (m * 2 ^ nat (e - ulp_exp x))"
      using True by (simp add: power_int_nonneg_exp)
    finally show ?thesis by blast
  next
    case False
    with e have u: "ulp_exp x = ilog2 x - 52"
      using pos by (auto simp: ulp_exp_def max_def split: if_splits)
    then have lo: "2 powi (ulp_exp x + 52) \<le> x" using ilog2_bounds(1) [OF pos] by simp
    have "(2::rat) powi (e + 53) \<le> 2 powi (ulp_exp x + 52)"
      using False by (intro powi_mono) simp
    with lo up have "x = 2 powi (ulp_exp x + 52)" by linarith
    then have "x = of_int (2 ^ 52) * 2 powi ulp_exp x" by (simp add: power_int_add)
    then have "x / 2 powi ulp_exp x = of_int (2 ^ 52)"
      using powi_pos [of "ulp_exp x"] by (simp add: divide_eq_eq)
    then show ?thesis by blast
  qed
  then obtain n where n: "x / 2 powi ulp_exp x = of_int n" by blast
  then have "rnd64 x = of_int n * 2 powi ulp_exp x" using pos by (simp add: rnd64_def)
  also have "\<dots> = x" using n by (simp add: field_simps)
  finally show ?thesis .
qed

lemma rnd64_exact:
  assumes x: "x = of_int m * 2 powi e" and m: "\<bar>m\<bar> \<le> 2 ^ 53" and e: "- 1074 \<le> e"
  shows "rnd64 x = x"
proof -
  consider "m = 0" | "0 < m" | "m < 0" by linarith
  then show ?thesis
  proof cases
    case 1
    with x show ?thesis by simp
  next
    case 2
    with m show ?thesis by (intro rnd64_exact_pos [OF x _ _ e]) auto
  next
    case 3
    with m e have "rnd64 (- x) = - x"
      by (intro rnd64_exact_pos [of "- x" "- m" e]) (auto simp: x)
    then show ?thesis by (simp add: rnd64_minus)
  qed
qed

lemma rnd64_representable_pos:
  assumes "0 < x"
  shows "\<exists>m e. rnd64 x = of_int m * 2 powi e \<and> 0 \<le> m \<and> m \<le> 2 ^ 53 \<and> - 1074 \<le> e"
proof -
  have "rhe (x / 2 powi ulp_exp x) \<le> rhe (of_int (2 ^ 53))"
    by (rule rhe_mono [OF scaled_le [OF assms]])
  then have "rhe (x / 2 powi ulp_exp x) \<le> 2 ^ 53" by (simp only: rhe_of_int)
  moreover have "0 \<le> rhe (x / 2 powi ulp_exp x)"
    using rhe_mono [of 0 "x / 2 powi ulp_exp x"] assms by simp
  ultimately show ?thesis using assms ulp_exp_ge [of x] by (auto simp: rnd64_def)
qed

lemma rnd64_idem: "rnd64 (rnd64 x) = rnd64 x"
proof -
  have pos: "rnd64 (rnd64 y) = rnd64 y" if y: "0 < y" for y
  proof -
    obtain m e where me: "rnd64 y = of_int m * 2 powi e" "0 \<le> m" "m \<le> 2 ^ 53" "- 1074 \<le> e"
      using rnd64_representable_pos [OF y] by blast
    then show ?thesis by (intro rnd64_exact) auto
  qed
  consider "x = 0" | "0 < x" | "0 < - x" by linarith
  then show ?thesis
  proof cases
    case 3
    from pos [OF this] show ?thesis by (simp add: rnd64_minus)
  qed (auto simp: pos)
qed

lemma rnd64_int: "\<bar>m\<bar> \<le> 2 ^ 53 \<Longrightarrow> rnd64 (of_int m) = of_int m"
  by (rule rnd64_exact [where e = 0]) auto

lemma rnd64_half: "rnd64 (1 / 2) = 1 / 2"
  by (rule rnd64_exact [where m = 1 and e = "- 1"]) (auto simp: power_int_minus)

text \<open>The error of a rounding is at most half a unit in the last place.\<close>

lemma rhe_error: "\<bar>of_int (rhe x) - x\<bar> \<le> 1 / 2"
  using floor_correct [of x]
  by (auto simp: rhe_def Let_def abs_le_iff)

lemma rnd64_error: "\<bar>rnd64 x - x\<bar> \<le> 2 powi ulp_exp x / 2"
proof (cases "x = 0")
  case False
  let ?u = "(2 :: rat) powi ulp_exp x"
  have "rnd64 x - x = (of_int (rhe (x / ?u)) - x / ?u) * ?u"
    using False by (simp add: rnd64_def left_diff_distrib)
  then have "\<bar>rnd64 x - x\<bar> = \<bar>of_int (rhe (x / ?u)) - x / ?u\<bar> * ?u"
    by (simp add: abs_mult abs_of_pos)
  also have "\<dots> \<le> 1 / 2 * ?u" by (intro mult_right_mono rhe_error) (simp add: less_imp_le)
  finally show ?thesis by simp
qed simp

lemma rnd64_error_8:
  assumes "\<bar>x\<bar> < 8"
  shows "\<bar>rnd64 x - x\<bar> \<le> 1 / 2 ^ 51"
proof (cases "x = 0")
  case False
  then have "2 powi ilog2 \<bar>x\<bar> \<le> \<bar>x\<bar>" by (intro ilog2_bounds) simp
  then have "(2 :: rat) powi ilog2 \<bar>x\<bar> < 2 powi 3" using assms by simp
  then have "ilog2 \<bar>x\<bar> < 3" by (rule powi_less_cancel)
  then have "(2 :: rat) powi ulp_exp x \<le> 2 powi (- 50)" by (intro powi_mono) (simp add: ulp_exp_def)
  then show ?thesis using rnd64_error [of x] by (simp add: power_int_minus)
qed simp

lemma rnd64_near:
  assumes "\<bar>x\<bar> < 8"
  shows "x - 1 / 2 ^ 51 \<le> rnd64 x" "rnd64 x \<le> x + 1 / 2 ^ 51"
  using rnd64_error_8 [OF assms] by (simp_all only: abs_le_iff) linarith+

section \<open>The laws as an interface\<close>

locale correct_rounding =
  fixes rnd :: "rat \<Rightarrow> rat"
  assumes mono: "x \<le> y \<Longrightarrow> rnd x \<le> rnd y"
    and idem: "rnd (rnd x) = rnd x"
    and odd: "rnd (- x) = - rnd x"
    and small_int: "\<bar>m\<bar> \<le> 2 ^ 53 \<Longrightarrow> rnd (of_int m) = of_int m"
    and half: "rnd (1 / 2) = 1 / 2"
begin

lemma rnd_numerals: "rnd 0 = 0" "rnd 1 = 1" "rnd 2 = 2" "rnd (- 1) = - 1"
  using small_int [of 0] small_int [of 1] small_int [of 2] small_int [of "- 1"] by simp_all

text \<open>A representable bound of the exact result bounds the rounded one.\<close>

lemma upper: "rnd b = b \<Longrightarrow> x \<le> b \<Longrightarrow> rnd x \<le> b"
  by (metis mono)

lemma lower: "rnd b = b \<Longrightarrow> b \<le> x \<Longrightarrow> b \<le> rnd x"
  by (metis mono)

lemma unit_quotient:
  assumes "0 \<le> x" "x \<le> y"
  shows "0 \<le> rnd (x / y)" "rnd (x / y) \<le> 1"
proof -
  have "0 \<le> x / y" "x / y \<le> 1" using assms by (auto simp: divide_le_eq_1)
  then show "0 \<le> rnd (x / y)" "rnd (x / y) \<le> 1"
    using lower [of 0] upper [of 1] rnd_numerals by auto
qed

text \<open>Mapping a value clamped to \<open>[- a, a]\<close> onto the unit interval.\<close>

lemma normalise_unit:
  assumes "- a \<le> x" "x \<le> a"
  shows "0 \<le> rnd (rnd (x + a) / rnd (2 * a))" "rnd (rnd (x + a) / rnd (2 * a)) \<le> 1"
proof -
  have "0 \<le> rnd (x + a)" using lower [of 0 "x + a"] rnd_numerals assms by simp
  moreover have "rnd (x + a) \<le> rnd (2 * a)" using assms by (intro mono) simp
  ultimately show "0 \<le> rnd (rnd (x + a) / rnd (2 * a))"
    "rnd (rnd (x + a) / rnd (2 * a)) \<le> 1" by (rule unit_quotient)+
qed

lemma centre_unit:
  assumes "0 \<le> a" "a \<le> 1"
  shows "- 1 \<le> rnd (rnd (2 * a) - 1)" "rnd (rnd (2 * a) - 1) \<le> 1"
proof -
  have "0 \<le> rnd (2 * a)" "rnd (2 * a) \<le> 2"
    using lower [of 0 "2 * a"] upper [of 2 "2 * a"] rnd_numerals assms by auto
  then show "- 1 \<le> rnd (rnd (2 * a) - 1)" "rnd (rnd (2 * a) - 1) \<le> 1"
    using lower [of "- 1"] upper [of 1] rnd_numerals by auto
qed

lemma halves_sum:
  assumes "- 1 \<le> x" "x \<le> 1" "- 1 \<le> y" "y \<le> 1"
  shows "- 1 \<le> rnd (rnd (1 / 2 * x) + rnd (1 / 2 * y))"
    "rnd (rnd (1 / 2 * x) + rnd (1 / 2 * y)) \<le> 1"
proof -
  have h: "rnd (- (1 / 2)) = - (1 / 2)" by (simp add: odd half)
  have b: "- (1 / 2) \<le> rnd (1 / 2 * z) \<and> rnd (1 / 2 * z) \<le> 1 / 2"
    if "- 1 \<le> z" "z \<le> 1" for z
    using that lower [OF h, of "1 / 2 * z"] upper [OF half, of "1 / 2 * z"] by auto
  from b [of x] b [of y] assms
  show "- 1 \<le> rnd (rnd (1 / 2 * x) + rnd (1 / 2 * y))"
    "rnd (rnd (1 / 2 * x) + rnd (1 / 2 * y)) \<le> 1"
    using lower [of "- 1"] upper [of 1] rnd_numerals by auto
qed

text \<open>A step \<open>q + r * (t - q)\<close> towards a target never points away from it.\<close>

lemma step_up: "rnd q = q \<Longrightarrow> q \<le> t \<Longrightarrow> 0 \<le> r \<Longrightarrow> q \<le> rnd (q + rnd (r * rnd (t - q)))"
proof -
  assume q: "rnd q = q" and t: "q \<le> t" and r: "0 \<le> r"
  have "0 \<le> rnd (t - q)" using lower [of 0 "t - q"] rnd_numerals t by simp
  then have "0 \<le> rnd (r * rnd (t - q))" using lower [of 0] rnd_numerals r by simp
  then show ?thesis using lower [OF q] by simp
qed

lemma step_down: "rnd q = q \<Longrightarrow> t \<le> q \<Longrightarrow> 0 \<le> r \<Longrightarrow> rnd (q + rnd (r * rnd (t - q))) \<le> q"
proof -
  assume q: "rnd q = q" and t: "t \<le> q" and r: "0 \<le> r"
  have "rnd (t - q) \<le> 0" using upper [of 0 "t - q"] rnd_numerals t by simp
  then have "r * rnd (t - q) \<le> 0" using r by (simp add: mult_nonneg_nonpos)
  then have "rnd (r * rnd (t - q)) \<le> 0" using upper [of 0] rnd_numerals by simp
  then show ?thesis using upper [OF q] by simp
qed

lemma step_frozen: "rnd q = q \<Longrightarrow> rnd (q + rnd (0 * rnd (t - q))) = q"
  by (simp add: rnd_numerals)

end

interpretation binary64: correct_rounding rnd64
  by unfold_locales (rule rnd64_mono rnd64_idem rnd64_minus rnd64_int rnd64_half; assumption)+

end
