(* ===== verification/SatCounter.thy ===== *)
theory SatCounter
  imports Doubles
begin

text \<open>
  \<open>base/sat_counter.hh\<close>: the n-bit saturating counter, at the instance
  \<open>GenericSatCounter<uint8_t>\<close> (\<open>SatCounter8\<close>) that the prefetchers and the
  replacement policies use. The container is eight bits wide, so every
  assignment truncates to eight bits, while comparisons and differences are
  computed on the promoted \<open>int\<close> values.
\<close>

section \<open>Data and operations\<close>

record SatCounter8 =
  initialVal :: u8
  maxVal :: u8
  counter :: u8

text \<open>\<open>maxVal((1ULL << bits) - 1)\<close>, stored in eight bits.\<close>

definition max_of_bits :: "nat \<Rightarrow> u8" where
  "max_of_bits bits = ucast ((push_bit bits 1 :: u64) - 1)"

definition newSatCounter8 :: "nat \<Rightarrow> u8 \<Rightarrow> SatCounter8 result" where
  "newSatCounter8 bits initial_val =
     (let mx = max_of_bits bits in
      if bits > 8 then Inl (Fatal ''Number of bits exceeds counter size'')
      else if initial_val > mx
      then Inl (Fatal ''Saturating counter's initial value exceeds max value.'')
      else Inr \<lparr>initialVal = initial_val, maxVal = mx, counter = initial_val\<rparr>)"

definition sc_incr :: "SatCounter8 \<Rightarrow> SatCounter8" where
  "sc_incr c = (if counter c < maxVal c then c\<lparr>counter := counter c + 1\<rparr> else c)"

definition sc_decr :: "SatCounter8 \<Rightarrow> SatCounter8" where
  "sc_decr c = (if counter c > 0 then c\<lparr>counter := counter c - 1\<rparr> else c)"

definition sc_shr :: "SatCounter8 \<Rightarrow> int \<Rightarrow> SatCounter8 result" where
  "sc_shr c shift =
     (if shift < 0 then Inl (AssertFailed ''shift >= 0'')
      else Inr (c\<lparr>counter := drop_bit (nat shift) (counter c)\<rparr>))"

definition sc_shl :: "SatCounter8 \<Rightarrow> int \<Rightarrow> SatCounter8 result" where
  "sc_shl c shift =
     (if shift < 0 then Inl (AssertFailed ''shift >= 0'')
      else (let v = push_bit (nat shift) (counter c) in
            Inr (c\<lparr>counter := (if v > maxVal c then maxVal c else v)\<rparr>)))"

text \<open>
  The two assignment operators call each other on the negated value; the inner
  call always takes its non-negative branch.
\<close>

definition sc_add_nonneg :: "SatCounter8 \<Rightarrow> int \<Rightarrow> SatCounter8" where
  "sc_add_nonneg c v =
     (if uint (maxVal c) - uint (counter c) \<ge> v
      then c\<lparr>counter := counter c + word_of_int v\<rparr> else c\<lparr>counter := maxVal c\<rparr>)"

definition sc_sub_nonneg :: "SatCounter8 \<Rightarrow> int \<Rightarrow> SatCounter8" where
  "sc_sub_nonneg c v =
     (if uint (counter c) > v
      then c\<lparr>counter := counter c - word_of_int v\<rparr> else c\<lparr>counter := 0\<rparr>)"

definition sc_add :: "SatCounter8 \<Rightarrow> int \<Rightarrow> SatCounter8" where
  "sc_add c v = (if v \<ge> 0 then sc_add_nonneg c v else sc_sub_nonneg c (- v))"

definition sc_sub :: "SatCounter8 \<Rightarrow> int \<Rightarrow> SatCounter8" where
  "sc_sub c v = (if v \<ge> 0 then sc_sub_nonneg c v else sc_add_nonneg c (- v))"

definition sc_reset :: "SatCounter8 \<Rightarrow> SatCounter8" where
  "sc_reset c = c\<lparr>counter := initialVal c\<rparr>"

text \<open>
  \<open>(double) counter / maxVal\<close>. A counter of no bits divides zero by zero; that
  NaN is \<^term>\<open>None\<close>, on which every comparison is false.
\<close>

definition calcSaturation :: "SatCounter8 \<Rightarrow> rat option" where
  "calcSaturation c =
     (if maxVal c = 0 then None else Some (fdiv (double_of (counter c)) (double_of (maxVal c))))"

definition saturation_less :: "SatCounter8 \<Rightarrow> rat \<Rightarrow> bool" where
  "saturation_less c t = (case calcSaturation c of None \<Rightarrow> False | Some s \<Rightarrow> s < t)"

definition saturation_geq :: "SatCounter8 \<Rightarrow> rat \<Rightarrow> bool" where
  "saturation_geq c t = (case calcSaturation c of None \<Rightarrow> False | Some s \<Rightarrow> s \<ge> t)"

definition isSaturated :: "SatCounter8 \<Rightarrow> bool" where
  "isSaturated c \<longleftrightarrow> counter c = maxVal c"

definition saturate :: "SatCounter8 \<Rightarrow> u8 \<times> SatCounter8" where
  "saturate c = (maxVal c - counter c, c\<lparr>counter := maxVal c\<rparr>)"

section \<open>Invariant\<close>

definition sc_wf :: "SatCounter8 \<Rightarrow> bool" where
  "sc_wf c \<longleftrightarrow> counter c \<le> maxVal c \<and> initialVal c \<le> maxVal c"

definition sc_val :: "SatCounter8 \<Rightarrow> nat" where
  "sc_val c = unat (counter c)"

definition sc_max :: "SatCounter8 \<Rightarrow> nat" where
  "sc_max c = unat (maxVal c)"

lemmas sc_ops = sc_incr_def sc_decr_def sc_add_def sc_sub_def sc_add_nonneg_def
  sc_sub_nonneg_def sc_reset_def saturate_def

lemma unat_u8_less: "unat (x :: u8) < 256"
  by (rule less_le_trans [OF unsigned_less]) simp

lemma uint_of_int_u8: "0 \<le> z \<Longrightarrow> z < 256 \<Longrightarrow> uint (word_of_int z :: u8) = z"
  by (simp add: uint_word_of_int_eq take_bit_eq_mod)

lemma sc_max_less: "sc_max c < 256"
  by (simp add: sc_max_def unat_u8_less)

lemma sc_wf_le: "sc_wf c \<Longrightarrow> sc_val c \<le> sc_max c"
  by (simp add: sc_wf_def sc_val_def sc_max_def word_le_nat_alt)

lemma sc_max_ops [simp]:
  "maxVal (sc_incr c) = maxVal c" "maxVal (sc_decr c) = maxVal c"
  "maxVal (sc_add c v) = maxVal c" "maxVal (sc_sub c v) = maxVal c"
  "maxVal (sc_reset c) = maxVal c" "maxVal (snd (saturate c)) = maxVal c"
  by (simp_all add: sc_ops)

lemma sc_init_ops [simp]:
  "initialVal (sc_incr c) = initialVal c" "initialVal (sc_decr c) = initialVal c"
  "initialVal (sc_add c v) = initialVal c" "initialVal (sc_sub c v) = initialVal c"
  "initialVal (sc_reset c) = initialVal c" "initialVal (snd (saturate c)) = initialVal c"
  by (simp_all add: sc_ops)

lemma sc_val_incr: "sc_wf c \<Longrightarrow> sc_val (sc_incr c) = min (sc_max c) (sc_val c + 1)"
proof -
  assume w: "sc_wf c"
  show ?thesis
  proof (cases "counter c < maxVal c")
    case True
    then have "unat (counter c + 1) = unat (counter c) + 1"
      using unat_u8_less [of "maxVal c"] by (simp add: word_less_nat_alt unat_word_ariths)
    with True show ?thesis
      by (simp add: sc_incr_def sc_val_def sc_max_def word_less_nat_alt)
  next
    case False
    with w sc_wf_le [OF w] show ?thesis
      by (simp add: sc_incr_def sc_val_def sc_max_def word_less_nat_alt)
  qed
qed

lemma sc_val_decr: "sc_val (sc_decr c) = sc_val c - 1"
proof (cases "counter c = 0")
  case True
  then show ?thesis by (simp add: sc_decr_def sc_val_def)
next
  case False
  then have "0 < counter c" by (simp add: word_gt_0)
  with False show ?thesis by (simp add: sc_decr_def sc_val_def unat_minus_one)
qed

lemma uint_counters:
  obtains a b where "unat (counter c) = a" "uint (counter c) = int a"
    "unat (maxVal c) = b" "uint (maxVal c) = int b" "b < 256" "a < 256"
  using unat_u8_less by (metis uint_nat)

lemma sc_val_add_nonneg:
  assumes "sc_wf c" "0 \<le> v"
  shows "sc_val (sc_add_nonneg c v) = min (sc_max c) (sc_val c + nat v)"
proof -
  obtain a b where u: "unat (counter c) = a" "uint (counter c) = int a"
    "unat (maxVal c) = b" "uint (maxVal c) = int b" "b < 256" by (rule uint_counters)
  have s: "sc_val (sc_add_nonneg c v)
      = (if int b - int a \<ge> v then unat (counter c + word_of_int v) else b)"
    by (simp add: sc_add_nonneg_def sc_val_def u)
  have "counter c + word_of_int v = word_of_int (uint (counter c) + v)" by simp
  then have w: "uint (counter c + word_of_int v) = int a + v" if "int b - int a \<ge> v"
    using that assms(2) u(5) uint_of_int_u8 [of "int a + v"] by (simp only: u(2))
  have "unat (counter c + word_of_int v) = a + nat v" if "int b - int a \<ge> v"
    unfolding unat_eq_nat_uint w [OF that] using assms(2) by linarith
  with s have "sc_val (sc_add_nonneg c v) = (if int b - int a \<ge> v then a + nat v else b)"
    by presburger
  then show ?thesis using assms(2) by (simp only: sc_val_def sc_max_def u) auto
qed

lemma sc_val_sub_nonneg:
  assumes "0 \<le> v"
  shows "sc_val (sc_sub_nonneg c v) = sc_val c - nat v"
proof -
  obtain a b where u: "unat (counter c) = a" "uint (counter c) = int a" "a < 256"
    by (rule uint_counters)
  have s: "sc_val (sc_sub_nonneg c v)
      = (if int a > v then unat (counter c - word_of_int v) else 0)"
    by (simp add: sc_sub_nonneg_def sc_val_def u)
  have "counter c - word_of_int v = word_of_int (uint (counter c) - v)" by simp
  then have w: "uint (counter c - word_of_int v) = int a - v" if "int a > v"
    using that assms u(3) uint_of_int_u8 [of "int a - v"] by (simp only: u(2))
  have "unat (counter c - word_of_int v) = a - nat v" if "int a > v"
    unfolding unat_eq_nat_uint w [OF that] using assms that by linarith
  with s have "sc_val (sc_sub_nonneg c v) = (if int a > v then a - nat v else 0)"
    by presburger
  then show ?thesis using assms by (simp only: sc_val_def u) auto
qed

lemma sc_val_reset: "sc_val (sc_reset c) = unat (initialVal c)"
  by (simp add: sc_reset_def sc_val_def)

lemma sc_val_saturate [simp]: "sc_val (snd (saturate c)) = sc_max c"
  by (simp add: saturate_def sc_val_def sc_max_def)

lemma sc_wfI: "sc_val c \<le> sc_max c \<Longrightarrow> initialVal c \<le> maxVal c \<Longrightarrow> sc_wf c"
  by (simp add: sc_wf_def sc_val_def sc_max_def word_le_nat_alt)

lemma sc_max_eqs [simp]:
  "sc_max (sc_incr c) = sc_max c" "sc_max (sc_decr c) = sc_max c"
  "sc_max (sc_add c v) = sc_max c" "sc_max (sc_sub c v) = sc_max c"
  "sc_max (sc_reset c) = sc_max c" "sc_max (snd (saturate c)) = sc_max c"
  by (simp_all add: sc_max_def)

lemma sc_wf_incr [intro]: "sc_wf c \<Longrightarrow> sc_wf (sc_incr c)"
  by (rule sc_wfI) (simp_all add: sc_val_incr, simp add: sc_wf_def)

lemma sc_wf_decr [intro]: "sc_wf c \<Longrightarrow> sc_wf (sc_decr c)"
  by (rule sc_wfI) (use sc_wf_le [of c] in \<open>simp_all add: sc_val_decr sc_wf_def\<close>)

lemma sc_wf_reset [intro]: "sc_wf c \<Longrightarrow> sc_wf (sc_reset c)"
  by (simp add: sc_wf_def sc_reset_def)

lemma sc_wf_saturate [intro]: "sc_wf c \<Longrightarrow> sc_wf (snd (saturate c))"
  by (simp add: sc_wf_def saturate_def)

lemma sc_val_add:
  "sc_wf c \<Longrightarrow> sc_val (sc_add c v) = nat (max 0 (min (int (sc_max c)) (int (sc_val c) + v)))"
  using sc_wf_le [of c]
  by (auto simp: sc_add_def sc_val_add_nonneg sc_val_sub_nonneg min_def max_def)

lemma sc_val_sub:
  "sc_wf c \<Longrightarrow> sc_val (sc_sub c v) = nat (max 0 (min (int (sc_max c)) (int (sc_val c) - v)))"
  using sc_wf_le [of c]
  by (auto simp: sc_sub_def sc_val_add_nonneg sc_val_sub_nonneg min_def max_def)

lemma sc_wf_add [intro]: "sc_wf c \<Longrightarrow> sc_wf (sc_add c v)"
  by (rule sc_wfI) (simp_all add: sc_val_add, simp add: sc_wf_def)

lemma sc_wf_sub [intro]: "sc_wf c \<Longrightarrow> sc_wf (sc_sub c v)"
  by (rule sc_wfI) (simp_all add: sc_val_sub, simp add: sc_wf_def)

lemma sc_wf_shr: "sc_wf c \<Longrightarrow> sc_shr c n = Inr c' \<Longrightarrow> sc_wf c'"
proof -
  assume w: "sc_wf c" and s: "sc_shr c n = Inr c'"
  have d: "drop_bit k m \<le> m" for k m :: nat by (simp add: drop_bit_eq_div)
  have "drop_bit (nat n) (counter c) \<le> counter c"
    by (simp only: word_le_nat_alt unat_drop_bit_eq d)
  with w s show ?thesis by (auto simp: sc_wf_def sc_shr_def split: if_splits)
qed

lemma sc_wf_shl: "sc_wf c \<Longrightarrow> sc_shl c n = Inr c' \<Longrightarrow> sc_wf c'"
  by (auto simp: sc_wf_def sc_shl_def Let_def split: if_splits)

lemma newSatCounter8_wf: "newSatCounter8 n v = Inr c \<Longrightarrow> sc_wf c"
  by (auto simp: newSatCounter8_def sc_wf_def Let_def split: if_splits)

lemma unat_max_of_bits:
  assumes "n \<le> 8"
  shows "unat (max_of_bits n) = 2 ^ n - 1"
proof -
  have "max_of_bits n = mask n"
    using assms by (simp add: max_of_bits_def flip: mask_eq_exp_minus_1) (simp add: ucast_mask_eq)
  then have "unat (max_of_bits n) = mask n"
    using assms by (simp add: unat_eq_nat_uint uint_mask_eq nat_mask_eq)
  then show ?thesis by (simp only: mask_eq_exp_minus_1)
qed

lemma sc_max_new: "newSatCounter8 n v = Inr c \<Longrightarrow> sc_max c = 2 ^ n - 1"
  by (auto simp: newSatCounter8_def sc_max_def Let_def unat_max_of_bits split: if_splits)

lemma sc_shl_val:
  assumes "0 \<le> n" "sc_val c * 2 ^ nat n < 256" "sc_shl c n = Inr c'"
  shows "sc_val c' = min (sc_max c) (sc_val c * 2 ^ nat n)"
proof -
  have "unat (push_bit (nat n) (counter c)) = take_bit 8 (push_bit (nat n) (unat (counter c)))"
    by (simp add: unsigned_push_bit_eq)
  also have "\<dots> = sc_val c * 2 ^ nat n"
    using assms(2) by (simp add: sc_val_def take_bit_eq_mod push_bit_nat_def)
  finally have "unat (push_bit (nat n) (counter c)) = sc_val c * 2 ^ nat n" .
  moreover obtain v where v: "v = push_bit (nat n) (counter c)" by blast
  have "counter c' = (if v > maxVal c then maxVal c else v)"
    using assms(1,3) by (auto simp: sc_shl_def Let_def simp flip: v)
  then have "sc_val c' = min (sc_max c) (unat v)"
    by (simp add: sc_val_def sc_max_def word_less_nat_alt)
  ultimately show ?thesis by (simp only: v)
qed

lemma double_of_u8: "double_of (x :: u8) = of_nat (unat x)"
  using binary64.small_int [of "int (unat x)"] unat_u8_less [of x]
  by (simp add: double_of_def del: of_nat_unat)

lemma calcSaturation_eq:
  "calcSaturation c = Some s \<Longrightarrow> s = rnd64 (of_nat (sc_val c) / of_nat (sc_max c))"
  by (simp add: calcSaturation_def fdiv_def double_of_u8 sc_val_def sc_max_def split: if_splits)

lemma calcSaturation_bounds:
  assumes "sc_wf c" "calcSaturation c = Some s"
  shows "0 \<le> s \<and> s \<le> 1"
proof -
  have "(of_nat (sc_val c) :: rat) \<le> of_nat (sc_max c)" using sc_wf_le [OF assms(1)] by (simp only: of_nat_le_iff)
  from binary64.unit_quotient [OF _ this] show ?thesis
    unfolding calcSaturation_eq [OF assms(2)] by simp
qed

section \<open>The contract of a saturating counter\<close>

text \<open>
  What the clients rely on: a value between 0 and a limit that no operation
  changes, moved by single steps that stop at the ends.
\<close>

locale saturating =
  fixes wf :: "'c \<Rightarrow> bool" and val :: "'c \<Rightarrow> nat" and limit :: "'c \<Rightarrow> nat"
    and up :: "'c \<Rightarrow> 'c" and down :: "'c \<Rightarrow> 'c"
  assumes bounded: "wf c \<Longrightarrow> val c \<le> limit c"
    and wf_up: "wf c \<Longrightarrow> wf (up c)" and wf_down: "wf c \<Longrightarrow> wf (down c)"
    and limit_up: "limit (up c) = limit c" and limit_down: "limit (down c) = limit c"
    and val_up: "wf c \<Longrightarrow> val (up c) = min (limit c) (val c + 1)"
    and val_down: "wf c \<Longrightarrow> val (down c) = val c - 1"
begin

lemma wf_ups: "wf c \<Longrightarrow> wf ((up ^^ n) c)"
  by (induction n) (auto intro: wf_up)

lemma limit_ups: "limit ((up ^^ n) c) = limit c"
  by (induction n) (auto simp: limit_up)

lemma val_ups: "wf c \<Longrightarrow> val ((up ^^ n) c) = min (limit c) (val c + n)"
  by (induction n) (auto simp: bounded val_up wf_ups limit_ups)

lemma wf_downs: "wf c \<Longrightarrow> wf ((down ^^ n) c)"
  by (induction n) (auto intro: wf_down)

lemma val_downs: "wf c \<Longrightarrow> val ((down ^^ n) c) = val c - n"
  by (induction n) (auto simp: val_down wf_downs)

lemma limit_downs: "limit ((down ^^ n) c) = limit c"
  by (induction n) (auto simp: limit_down)

text \<open>Steps in one direction undo the steps of the other while no end is reached.\<close>

lemma up_downs:
  assumes "wf c" "val c + n \<le> limit c"
  shows "val ((down ^^ n) ((up ^^ n) c)) = val c"
  using assms by (simp add: val_downs val_ups wf_ups)

end

interpretation sat8: saturating sc_wf sc_val sc_max sc_incr sc_decr
  by unfold_locales (auto simp: sc_val_incr sc_val_decr sc_wf_le)

section \<open>Properties\<close>

text \<open>Adding any integer to a counter within its limits gives the exact sum clamped to
  the interval from 0 to the maximum, and keeps the counter within its limits.\<close>

theorem sat_counter_clamps:
  "sc_wf c \<Longrightarrow> sc_wf (sc_add c v) \<and>
     int (sc_val (sc_add c v)) = max 0 (min (int (sc_max c)) (int (sc_val c) + v))"
  by (auto simp: sc_val_add)

theorem sat_counter_clamps_witness:
  "sc_wf \<lparr>initialVal = 0, maxVal = 7, counter = 5\<rparr> \<and>
   int (sc_val (sc_add \<lparr>initialVal = 0, maxVal = 7, counter = 5\<rparr> 9)) = 7"
  using sat_counter_clamps [of "\<lparr>initialVal = 0, maxVal = 7, counter = 5\<rparr>" 9]
  by (simp add: sc_wf_def sc_val_def sc_max_def)

end
