(* ===== verification/BaseUtil.thy ===== *)
theory BaseUtil
  imports Prelude
begin

text \<open>
  The integer helpers of \<open>base/bitfield.hh\<close> and \<open>base/intmath.hh\<close> the memory
  system builds on, at the 64-bit instance of their templates. The two searches
  for the highest set bit are proved to agree with the exact logarithm, the
  rounding helpers with division, and the field accessors with one another.
  The compiler intrinsics (\<open>__builtin_ctz\<close>, \<open>__builtin_popcountl\<close>) are modelled by
  what the language defines them to return.
\<close>

section \<open>Bit fields\<close>

definition mask_bits :: "nat \<Rightarrow> u64" where
  "mask_bits nbits = (if nbits \<ge> 64 then - 1 else push_bit nbits 1 - 1)"

text \<open>\<open>bits_raw\<close> is the body of \<open>bits\<close> after its assertion.\<close>

definition bits_raw :: "u64 \<Rightarrow> nat \<Rightarrow> nat \<Rightarrow> u64" where
  "bits_raw val hi lo = drop_bit lo val AND mask_bits (hi - lo + 1)"

definition bits :: "u64 \<Rightarrow> nat \<Rightarrow> nat \<Rightarrow> u64 result" where
  "bits val hi lo =
     (if \<not> hi \<ge> lo then Inl (AssertFailed ''bits'') else Inr (bits_raw val hi lo))"

definition mbits :: "u64 \<Rightarrow> nat \<Rightarrow> nat \<Rightarrow> u64" where
  "mbits val hi lo = val AND (mask_bits (hi + 1) AND NOT (mask_bits lo))"

definition mask_range :: "nat \<Rightarrow> nat \<Rightarrow> u64" where
  "mask_range hi lo = mbits (- 1) hi lo"

definition sext :: "u64 \<Rightarrow> nat \<Rightarrow> u64" where
  "sext val N = (if bits_raw val (N - 1) (N - 1) \<noteq> 0 then val OR NOT (mask_bits N) else val)"

definition szext :: "nat \<Rightarrow> u64 \<Rightarrow> u64" where
  "szext N val =
     (if bits_raw val (N - 1) (N - 1) \<noteq> 0 then val OR NOT (mask_bits N) else val AND mask_bits N)"

definition insertBits :: "u64 \<Rightarrow> nat \<Rightarrow> nat \<Rightarrow> u64 \<Rightarrow> u64 result" where
  "insertBits val hi lo bit_val =
     (if \<not> hi \<ge> lo then Inl (AssertFailed ''insertBits'')
      else let bmask = mask_range hi lo;
               val = val AND NOT bmask
           in Inr (val OR (push_bit lo bit_val AND bmask)))"

section \<open>Searches\<close>

definition msb_step :: "nat \<Rightarrow> nat \<times> u64 \<Rightarrow> nat \<times> u64" where
  "msb_step k s =
     (if bits_raw (snd s) (2 * k - 1) k \<noteq> 0 then (fst s + k, drop_bit k (snd s)) else s)"

definition findMsbSet :: "u64 \<Rightarrow> nat" where
  "findMsbSet val =
     (if val = 0 then 0
      else fst (msb_step 1 (msb_step 2 (msb_step 4 (msb_step 8 (msb_step 16 (msb_step 32 (0, val))))))))"

definition lsb_step :: "nat \<Rightarrow> nat \<times> u64 \<Rightarrow> nat \<times> u64" where
  "lsb_step k s = (if bits_raw (snd s) (k - 1) 0 = 0 then (fst s + k, drop_bit k (snd s)) else s)"

definition findLsbSetFallback :: "u64 \<Rightarrow> nat" where
  "findLsbSetFallback val =
     (if val = 0 then 64
      else fst (lsb_step 1 (lsb_step 2 (lsb_step 4 (lsb_step 8 (lsb_step 16 (lsb_step 32 (0, val))))))))"

text \<open>\<open>__builtin_ctzll\<close> of a non-zero value: the number of trailing zero bits.\<close>

definition builtin_ctz :: "u64 \<Rightarrow> nat" where
  "builtin_ctz v = length (takeWhile (\<lambda>i. \<not> bit v i) [0..<64])"

definition findLsbSet :: "u64 \<Rightarrow> nat" where
  "findLsbSet val = (if val = 0 then 64 else builtin_ctz val)"

definition ctz32 :: "u32 \<Rightarrow> nat" where
  "ctz32 v = (if v \<noteq> 0 then builtin_ctz (ucast v) else 32)"

definition ctz64 :: "u64 \<Rightarrow> nat" where
  "ctz64 v = (if v \<noteq> 0 then builtin_ctz v else 64)"

definition popCount :: "u64 \<Rightarrow> nat" where
  "popCount val = length (filter (bit val) [0..<64])"

definition alignToPowerOfTwo :: "u64 \<Rightarrow> u64" where
  "alignToPowerOfTwo val =
     (let v = val - 1;
          v = v OR drop_bit 1 v;
          v = v OR drop_bit 2 v;
          v = v OR drop_bit 4 v;
          v = v OR drop_bit 8 v;
          v = v OR drop_bit 16 v;
          v = v OR drop_bit 32 v
      in v + 1)"

section \<open>Logarithms, division and alignment\<close>

definition floor_step :: "bool \<Rightarrow> u64 \<Rightarrow> nat \<Rightarrow> nat \<times> u64 \<Rightarrow> nat \<times> u64" where
  "floor_step on m k s =
     (if on \<and> snd s AND m \<noteq> 0 then (fst s + k, drop_bit k (snd s)) else s)"

text \<open>The parameter \<open>ts\<close> is \<open>sizeof(T)\<close>; \<open>x\<close> is the argument converted to \<open>uint64_t\<close>.\<close>

definition floorLog2 :: "nat \<Rightarrow> u64 \<Rightarrow> nat result" where
  "floorLog2 ts x =
     (if \<not> x > 0 then Inl (AssertFailed ''floorLog2'')
      else let s = (0, x);
               s = floor_step (ts \<ge> 8) 0xffffffff00000000 32 s;
               s = floor_step (ts \<ge> 4) 0x00000000ffff0000 16 s;
               s = floor_step (ts \<ge> 2) 0x000000000000ff00 8 s;
               s = floor_step True 0x00000000000000f0 4 s;
               s = floor_step True 0x000000000000000c 2 s;
               s = floor_step True 0x0000000000000002 1 s
           in Inr (fst s))"

definition ceilLog2 :: "nat \<Rightarrow> u64 \<Rightarrow> nat result" where
  "ceilLog2 ts n =
     (if \<not> n > 0 then Inl (AssertFailed ''ceilLog2'')
      else if n = 1 then Inr 0
      else bindR (floorLog2 ts (n - 1)) (\<lambda>y. Inr (y + 1)))"

definition isPowerOf2 :: "u64 \<Rightarrow> bool" where
  "isPowerOf2 n \<longleftrightarrow> n \<noteq> 0 \<and> n AND (n - 1) = 0"

definition divCeil :: "u64 \<Rightarrow> u64 \<Rightarrow> u64" where
  "divCeil a b = (a + b - 1) div b"

definition roundUp :: "u64 \<Rightarrow> u64 \<Rightarrow> u64 result" where
  "roundUp val align =
     (if \<not> isPowerOf2 align then Inl (AssertFailed ''roundUp'')
      else let m = align - 1 in Inr ((val + m) AND NOT m))"

definition roundDown :: "u64 \<Rightarrow> u64 \<Rightarrow> u64 result" where
  "roundDown val align =
     (if \<not> isPowerOf2 align then Inl (AssertFailed ''roundDown'')
      else let m = align - 1 in Inr (val AND NOT m))"

definition log2i :: "u32 \<Rightarrow> nat result" where
  "log2i v =
     (if \<not> (isPowerOf2 (ucast v) \<and> sint v > 0) then Inl (AssertFailed ''log2i'')
      else Inr (ctz32 v))"

section \<open>Fields are the library's bit slices\<close>

lemma mask_bits_eq: "mask_bits n = mask n"
  by (auto simp: mask_bits_def mask_eq_exp_minus_1 intro!: bit_eqI)

lemma bits_raw_eq: "bits_raw v f l = take_bit (f - l + 1) (drop_bit l v)"
  by (simp add: bits_raw_def mask_bits_eq take_bit_eq_mask)

lemma bit_mask_range: "bit (mask_range f l) i \<longleftrightarrow> l \<le> i \<and> i \<le> f \<and> i < 64"
  by (auto simp: mask_range_def mbits_def mask_bits_eq bit_simps)

lemma bits_insertBits:
  assumes "insertBits v f l x = Inr w" "f < 64"
  shows "bits w f l = Inr (take_bit (f - l + 1) x)"
proof -
  have fl: "l \<le> f" using assms(1) by (simp add: insertBits_def split: if_splits)
  with assms(1) have w: "w = (v AND NOT (mask_range f l)) OR (push_bit l x AND mask_range f l)"
    by (simp add: insertBits_def Let_def)
  have "take_bit (f - l + 1) (drop_bit l w) = take_bit (f - l + 1) x"
    using fl assms(2) unfolding w
    by (intro bit_eqI) (auto simp: bit_simps bit_mask_range)
  with fl show ?thesis by (simp add: bits_def bits_raw_eq)
qed

lemma insertBits_elsewhere:
  assumes "insertBits v f l x = Inr w" "i < l \<or> f < i"
  shows "bit w i = bit v i"
proof -
  from assms(1) have w: "w = (v AND NOT (mask_range f l)) OR (push_bit l x AND mask_range f l)"
    by (simp add: insertBits_def Let_def split: if_splits)
  show ?thesis using assms(2) bit_imp_le_length [of v i] bit_imp_le_length [of _ i] unfolding w
    by (cases "i < 64") (auto simp: bit_simps bit_mask_range)
qed

section \<open>The searches find the exact position\<close>

text \<open>
  The loop fact of both searches for the highest bit: the second component is the
  argument shifted by the count so far, is not zero, and fits in \<open>n\<close> bits.
\<close>

definition msb_inv :: "u64 \<Rightarrow> nat \<Rightarrow> nat \<times> u64 \<Rightarrow> bool" where
  "msb_inv x n s \<longleftrightarrow> snd s = drop_bit (fst s) x \<and> snd s \<noteq> 0 \<and> unat (snd s) < 2 ^ n"

lemma unat_drop_bit_div: "unat (drop_bit k (v :: u64)) = unat v div 2 ^ k"
  unfolding unat_drop_bit_eq by (rule drop_bit_eq_div)

lemma unat_zero_iff: "unat (v :: u64) = 0 \<longleftrightarrow> v = 0"
  by (rule unsigned_eq_0_iff)

lemma take_bit_word_self: "unat (v :: u64) < 2 ^ k \<Longrightarrow> take_bit k v = v"
  by (simp add: word_unat_eq_iff unsigned_take_bit_eq take_bit_nat_eq_self)

lemma shifted_less: "unat (v :: u64) < 2 ^ (2 * k) \<Longrightarrow> unat (drop_bit k v) < 2 ^ k"
  unfolding unat_drop_bit_div by (rule less_mult_imp_div_less) (simp add: mult_2 power_add)

lemma shifted_zero_iff: "drop_bit k (v :: u64) = 0 \<longleftrightarrow> unat v < 2 ^ k"
  by (simp only: unat_drop_bit_div div_eq_0_iff power_eq_0_iff flip: unat_zero_iff) simp

lemma field_zero_iff:
  assumes "unat (v :: u64) < 2 ^ (2 * k)" "0 < k"
  shows "bits_raw v (2 * k - 1) k = 0 \<longleftrightarrow> unat v < 2 ^ k"
  using assms take_bit_word_self [OF shifted_less [OF assms(1)]]
  by (simp add: bits_raw_eq mult_2 flip: shifted_zero_iff)

lemma msb_inv_shift:
  assumes "msb_inv x (2 * k) s" "\<not> unat (snd s) < 2 ^ k"
  shows "msb_inv x k (fst s + k, drop_bit k (snd s))"
proof -
  have "unat (drop_bit k (snd s)) < 2 ^ k"
    using assms(1) by (intro shifted_less) (auto simp: msb_inv_def)
  moreover have "drop_bit k (snd s) \<noteq> 0"
    using assms(2) by (simp only: shifted_zero_iff not_False_eq_True)
  moreover have "drop_bit k (snd s) = drop_bit (fst s + k) x"
    using assms(1) unfolding msb_inv_def by (metis add.commute drop_bit_drop_bit)
  ultimately show ?thesis unfolding msb_inv_def fst_conv snd_conv by blast
qed

lemma msb_inv_step: "msb_inv x (2 * k) s \<Longrightarrow> 0 < k \<Longrightarrow> msb_inv x k (msb_step k s)"
  using field_zero_iff [of "snd s" k] msb_inv_shift [of x k s]
  by (auto simp: msb_step_def msb_inv_def)

lemma msb_inv_exact:
  assumes "msb_inv x 1 s"
  shows "2 ^ fst s \<le> unat x \<and> unat x < 2 ^ (fst s + 1)"
proof -
  have "unat (drop_bit (fst s) x) \<noteq> 0" "unat (drop_bit (fst s) x) < 2"
    using assms by (auto simp: msb_inv_def unat_zero_iff)
  then have "unat x div 2 ^ fst s = 1" unfolding unat_drop_bit_div by linarith
  then have "unat x = 2 ^ fst s + unat x mod 2 ^ fst s"
    using div_mult_mod_eq [of "unat x" "2 ^ fst s"] by simp
  moreover have "unat x mod 2 ^ fst s < 2 ^ fst s" by simp
  ultimately show ?thesis unfolding power_add power_one_right by linarith
qed

lemma msb_start: "x \<noteq> 0 \<Longrightarrow> msb_inv x 64 (0, x)"
  using unsigned_less [of x] by (simp add: msb_inv_def)

lemma findMsbSet_exact:
  assumes "val \<noteq> 0"
  shows "2 ^ findMsbSet val \<le> unat val \<and> unat val < 2 ^ (findMsbSet val + 1)"
proof -
  note st = msb_inv_step [of val]
  have "msb_inv val 32 (msb_step 32 (0, val))" by (rule st) (simp_all add: msb_start assms)
  from st [of 16, simplified, OF this] have "msb_inv val 16 (msb_step 16 (msb_step 32 (0, val)))" .
  from st [of 8, simplified, OF this] have "msb_inv val 8 (msb_step 8 (msb_step 16 (msb_step 32 (0, val))))" .
  from st [of 1, simplified, OF st [of 2, simplified, OF st [of 4, simplified, OF this]]] assms
  show ?thesis using msb_inv_exact unfolding findMsbSet_def by simp
qed


lemma msb_unique:
  assumes "2 ^ a \<le> (n :: nat) \<and> n < 2 ^ (a + 1)" "2 ^ b \<le> n \<and> n < 2 ^ (b + 1)"
  shows "a = (b :: nat)"
proof -
  have "(2::nat) ^ a < 2 ^ (b + 1)" "(2::nat) ^ b < 2 ^ (a + 1)"
    using assms by linarith+
  then have "a < b + 1" "b < a + 1"
    using power_less_imp_less_exp [of "2::nat" a "b + 1"] power_less_imp_less_exp [of "2::nat" b "a + 1"]
    by simp_all
  then show ?thesis by simp
qed

text \<open>The masks of \<open>floorLog2\<close> select the same fields.\<close>

lemma floor_step_eq:
  assumes "0 < k" "k \<le> 32" "m = push_bit k (mask k)"
  shows "floor_step True m k s = msb_step k s"
proof -
  let ?w = "take_bit k (drop_bit k (snd s))"
  have "snd s AND m = push_bit k ?w"
    unfolding assms(3) by (intro bit_eqI) (auto simp: bit_simps)
  moreover have "drop_bit k (push_bit k ?w) = ?w"
    using assms(2) by (intro bit_eqI) (auto simp: bit_simps)
  then have "push_bit k ?w = 0 \<longleftrightarrow> ?w = 0" by (metis drop_bit_of_0 push_bit_of_0)
  ultimately show ?thesis using assms(1)
    by (simp add: floor_step_def msb_step_def bits_raw_eq mult_2)
qed

lemma floor_masks:
  "floor_step True 0xffffffff00000000 32 = msb_step 32"
  "floor_step True 0x00000000ffff0000 16 = msb_step 16"
  "floor_step True 0x000000000000ff00 8 = msb_step 8"
  "floor_step True 0x00000000000000f0 4 = msb_step 4"
  "floor_step True 0x000000000000000c 2 = msb_step 2"
  "floor_step True 0x0000000000000002 1 = msb_step 1"
  by (rule ext, rule floor_step_eq; simp add: mask_eq_exp_minus_1)+

lemma floorLog2_eq_findMsbSet: "x \<noteq> 0 \<Longrightarrow> floorLog2 8 x = Inr (findMsbSet x)"
  by (simp add: floorLog2_def findMsbSet_def floor_masks floor_masks(6) [unfolded One_nat_def] word_gt_0)


text \<open>The fallback search for the lowest bit.\<close>

definition lsb_inv :: "u64 \<Rightarrow> nat \<Rightarrow> nat \<times> u64 \<Rightarrow> bool" where
  "lsb_inv x n s \<longleftrightarrow> snd s = drop_bit (fst s) x \<and> take_bit n (snd s) \<noteq> 0 \<and> take_bit (fst s) x = 0"

lemma lsb_inv_step:
  assumes "lsb_inv x (2 * k) s" "0 < k"
  shows "lsb_inv x k (lsb_step k s)"
proof (cases "take_bit k (snd s) = 0")
  case True
  have lo: "take_bit (fst s + k) x = 0"
  proof (rule bit_eqI)
    fix i
    have "\<not> bit (take_bit (fst s) x) i" "\<not> bit (take_bit k (drop_bit (fst s) x)) (i - fst s)"
      using assms(1) True by (simp_all add: lsb_inv_def)
    then show "bit (take_bit (fst s + k) x) i = bit 0 i"
      by (auto simp: bit_simps)
  qed
  have "take_bit k (drop_bit k (snd s)) \<noteq> 0"
  proof
    assume z: "take_bit k (drop_bit k (snd s)) = 0"
    have "take_bit (2 * k) (snd s) = 0"
    proof (rule bit_eqI)
      fix i
      have "\<not> bit (take_bit k (snd s)) i" "\<not> bit (take_bit k (drop_bit k (snd s))) (i - k)"
        using z True by simp_all
      then show "bit (take_bit (2 * k) (snd s)) i = bit 0 i"
        by (auto simp: bit_simps)
    qed
    with assms(1) show False by (simp add: lsb_inv_def)
  qed
  with lo True assms show ?thesis
    by (simp add: lsb_step_def bits_raw_eq lsb_inv_def drop_bit_drop_bit add.commute)
next
  case False
  with assms show ?thesis by (simp add: lsb_step_def bits_raw_eq lsb_inv_def)
qed


lemma findLsbSetFallback_exact:
  assumes "val \<noteq> 0"
  shows "bit val (findLsbSetFallback val)" "i < findLsbSetFallback val \<Longrightarrow> \<not> bit val i"
proof -
  note st = lsb_inv_step [of val]
  have "take_bit 64 val = val" using take_bit_word_self [of val 64] unsigned_less [of val] by simp
  then have "lsb_inv val 64 (0, val)" using assms by (simp add: lsb_inv_def)
  from st [of 32, simplified, OF this] have "lsb_inv val 32 (lsb_step 32 (0, val))" .
  from st [of 8, simplified, OF st [of 16, simplified, OF this]]
  have "lsb_inv val 8 (lsb_step 8 (lsb_step 16 (lsb_step 32 (0, val))))" .
  from st [of 1, simplified, OF st [of 2, simplified, OF st [of 4, simplified, OF this]]] assms
  obtain s where s: "lsb_inv val 1 s" "findLsbSetFallback val = fst s"
    unfolding findLsbSetFallback_def by (metis One_nat_def)
  from s show "bit val (findLsbSetFallback val)"
    by (auto simp: lsb_inv_def bit_iff_odd_drop_bit take_bit_eq_mod odd_iff_mod_2_eq_one)
  assume "i < findLsbSetFallback val"
  moreover have "take_bit (fst s) val = 0" using s(1) by (simp add: lsb_inv_def)
  then have "\<not> bit (take_bit (fst s) val) i" by simp
  ultimately show "\<not> bit val i" by (simp add: s(2) bit_simps)
qed

lemma takeWhile_upt_exact:
  assumes "k < n" "P k" "\<And>i. i < k \<Longrightarrow> \<not> P i"
  shows "length (takeWhile (\<lambda>i. \<not> P i) [0..<n]) = k"
proof -
  have "[0..<n] = [0..<k] @ k # [Suc k..<n]"
    using assms(1) upt_add_eq_append [of 0 k "n - k"] by (simp add: upt_conv_Cons)
  then show ?thesis using assms(2,3) by (simp add: takeWhile_append)
qed

text \<open>The two branches of \<open>findLsbSet\<close> agree.\<close>

lemma findLsbSet_fallback: "findLsbSet val = findLsbSetFallback val"
proof (cases "val = 0")
  case False
  note ex = findLsbSetFallback_exact [OF False]
  have "findLsbSetFallback val < 64" using bit_imp_le_length [OF ex(1)] by simp
  with ex False show ?thesis
    by (simp add: findLsbSet_def builtin_ctz_def takeWhile_upt_exact)
qed (simp add: findLsbSet_def findLsbSetFallback_def)

section \<open>Powers of two and alignment\<close>

lemma mask_and_exp: "(2 ^ k :: u64) AND mask k = 0"
  by (rule bit_eqI) (auto simp: bit_simps)

lemma unat_exp: "k < 64 \<Longrightarrow> unat (2 ^ k :: u64) = 2 ^ k"
proof -
  assume "k < 64"
  then have "(2::nat) ^ k < 2 ^ 64" by (rule power_strict_increasing) simp
  then have "take_bit 64 ((2::nat) ^ k) = 2 ^ k" by (rule take_bit_nat_eq_self)
  moreover have "unat (of_nat (2 ^ k) :: u64) = take_bit 64 (2 ^ k)"
    unfolding unsigned_of_nat by simp
  ultimately show ?thesis by simp
qed

lemma bit_msb:
  assumes "2 ^ k \<le> unat (w :: u64)" "unat w < 2 ^ (k + 1)"
  shows "bit w k"
proof -
  have "unat w div 2 ^ k = 1" using assms by (intro div_nat_eqI) (simp_all add: power_add)
  then have "bit (unat w) k" by (simp only: bit_iff_odd) simp
  then show ?thesis unfolding bit_unsigned_iff by blast
qed

lemma isPowerOf2_iff: "isPowerOf2 n \<longleftrightarrow> (\<exists>k < 64. n = 2 ^ k)"
proof
  assume p: "isPowerOf2 n"
  then have n: "n \<noteq> 0" and z: "n AND (n - 1) = 0" by (simp_all add: isPowerOf2_def)
  let ?k = "findMsbSet n"
  have b: "2 ^ ?k \<le> unat n" "unat n < 2 ^ (?k + 1)" using findMsbSet_exact [OF n] by auto
  have "(2::nat) ^ ?k < 2 ^ 64" using le_less_trans [OF b(1) unsigned_less] by simp
  then have k64: "?k < 64" by (rule power_less_imp_less_exp [rotated]) simp
  have "unat n = 2 ^ ?k"
  proof (rule ccontr)
    assume "unat n \<noteq> 2 ^ ?k"
    moreover have "unat (n - 1) = unat n - 1" using n by (simp add: unat_minus_one)
    ultimately have "2 ^ ?k \<le> unat (n - 1)" "unat (n - 1) < 2 ^ (?k + 1)" using b by linarith+
    then have "bit (n AND (n - 1)) ?k" using bit_msb b by (simp add: bit_simps)
    with z show False by simp
  qed
  with k64 have "n = 2 ^ ?k" by (simp only: word_unat_eq_iff unat_exp)
  with k64 show "\<exists>k < 64. n = 2 ^ k" by blast
next
  assume "\<exists>k < 64. n = 2 ^ k"
  then obtain k where k: "k < 64" "n = 2 ^ k" by blast
  then show "isPowerOf2 n" using mask_and_exp [of k]
    by (simp add: isPowerOf2_def flip: mask_eq_exp_minus_1)
qed


lemma unat_clear_low:
  assumes "k < 64"
  shows "unat (v AND NOT (2 ^ k - 1) :: u64) = unat v div 2 ^ k * 2 ^ k"
proof -
  have c: "v AND NOT (mask k) = push_bit k (drop_bit k v)"
    by (rule bit_eqI) (auto simp: bit_simps)
  have "unat v div 2 ^ k * 2 ^ k < 2 ^ 64"
    by (rule le_less_trans [OF div_times_less_eq_dividend unat_less64])
  moreover have "unat (push_bit k (drop_bit k v)) = take_bit 64 (unat v div 2 ^ k * 2 ^ k)"
    unfolding unsigned_push_bit_eq unat_drop_bit_div by (simp add: push_bit_eq_mult)
  ultimately show ?thesis by (simp only: c take_bit_nat_eq_self flip: mask_eq_exp_minus_1)
qed

lemma roundDown_exact:
  assumes "roundDown v a = Inr r"
  shows "unat r = unat v div unat a * unat a"
proof -
  from assms obtain k where "k < 64" "a = 2 ^ k" "r = v AND NOT (2 ^ k - 1)"
    by (auto simp: roundDown_def isPowerOf2_iff Let_def split: if_splits)
  then show ?thesis by (simp only: unat_clear_low unat_exp)
qed

lemma roundUp_exact:
  assumes "roundUp v a = Inr r" "unat v + (unat a - 1) < 2 ^ 64"
  shows "unat r = (unat v + (unat a - 1)) div unat a * unat a"
proof -
  from assms(1) obtain k where k: "k < 64" "a = 2 ^ k" "r = (v + (2 ^ k - 1)) AND NOT (2 ^ k - 1)"
    by (auto simp: roundUp_def isPowerOf2_iff Let_def split: if_splits)
  have "a \<noteq> 0" using k unat_exp [of k] by auto
  then have "unat (v + (a - 1)) = unat v + (unat a - 1)"
    using assms(2) by (subst unat_add_lem [THEN iffD1]) (simp_all add: unat_minus_one)
  then show ?thesis using k by (simp only: unat_clear_low unat_exp)
qed

text \<open>Smearing: after a shift by \<open>k\<close>, each bit sees \<open>2 * k\<close> positions upwards.\<close>

lemma smear_step:
  assumes "\<And>i. bit v i \<longleftrightarrow> (\<exists>j. i \<le> j \<and> j < i + k \<and> bit (x :: u64) j)"
  shows "bit (v OR drop_bit k v) i \<longleftrightarrow> (\<exists>j. i \<le> j \<and> j < i + 2 * k \<and> bit x j)"
proof
  assume "bit (v OR drop_bit k v) i"
  then show "\<exists>j. i \<le> j \<and> j < i + 2 * k \<and> bit x j"
    by (auto simp: bit_simps assms) (use add_leD2 in fastforce)+
next
  assume "\<exists>j. i \<le> j \<and> j < i + 2 * k \<and> bit x j"
  then obtain j where j: "i \<le> j" "j < i + 2 * k" "bit x j" by blast
  show "bit (v OR drop_bit k v) i"
  proof (cases "j < i + k")
    case True
    with j have "bit v i" by (auto simp: assms)
    then show ?thesis by (simp add: bit_simps)
  next
    case False
    with j have "bit v (k + i)" by (auto simp: assms intro!: exI [of _ j])
    then show ?thesis by (simp add: bit_simps)
  qed
qed

lemma smear_all:
  fixes x :: u64
  defines "v \<equiv> alignToPowerOfTwo (x + 1) - 1"
  shows "bit v i \<longleftrightarrow> (\<exists>j. i \<le> j \<and> bit x j)"
proof -
  define seen where "seen w k \<longleftrightarrow> (\<forall>i. bit w i \<longleftrightarrow> (\<exists>j. i \<le> j \<and> j < i + k \<and> bit x j))" for w :: u64 and k
  have s: "seen (w OR drop_bit k w) n" if "seen w k" "n = 2 * k" for w k n
    using smear_step [of w k x] that unfolding seen_def by blast
  have "seen x 1" unfolding seen_def by (metis less_add_one linorder_neqE_nat not_less order_refl Suc_eq_plus1 not_less_eq)
  from s [OF s [OF s [OF s [OF s [OF s [OF this, of 2], of 4], of 8], of 16], of 32], of 64]
  have "seen v 64" by (simp add: v_def alignToPowerOfTwo_def Let_def)
  then have "bit v i \<longleftrightarrow> (\<exists>j. i \<le> j \<and> j < i + 64 \<and> bit x j)" by (simp only: seen_def)
  also have "\<dots> \<longleftrightarrow> (\<exists>j. i \<le> j \<and> bit x j)"
    using bit_imp_le_length [of x] by fastforce
  finally show ?thesis .
qed

lemma bit_above_msb: "unat (x :: u64) < 2 ^ n \<Longrightarrow> n \<le> j \<Longrightarrow> \<not> bit x j"
  using take_bit_word_self [of x n] by (metis bit_take_bit_iff not_less)

lemma alignToPowerOfTwo_exact:
  assumes "1 < unat val"
  shows "alignToPowerOfTwo val = 2 ^ (findMsbSet (val - 1) + 1)"
proof -
  let ?x = "val - 1" and ?k = "findMsbSet (val - 1)"
  have "unat ?x = unat val - 1" using assms by (intro unat_minus_one) auto
  then have "?x \<noteq> 0" using assms by (auto simp flip: unat_zero_iff)
  note b = findMsbSet_exact [OF this]
  have top: "bit ?x ?k" using b by (intro bit_msb) auto
  have above: "j \<le> ?k" if "bit ?x j" for j
    using b that bit_above_msb [of ?x "?k + 1" j] by linarith
  have "(\<exists>j. i \<le> j \<and> bit ?x j) \<longleftrightarrow> i < ?k + 1" for i
    using top above by (auto simp: less_Suc_eq_le intro: le_trans)
  then have "alignToPowerOfTwo (?x + 1) - 1 = mask (?k + 1)"
    by (intro bit_eqI) (simp only: smear_all bit_mask_iff, simp)
  then show ?thesis by (simp add: mask_eq_exp_minus_1 diff_eq_eq)
qed


lemma findMsbSet_exp: "k < 64 \<Longrightarrow> findMsbSet (2 ^ k) = k"
proof -
  assume k: "k < 64"
  then have "2 ^ k \<noteq> (0 :: u64)" using unat_exp [of k] by auto
  from findMsbSet_exact [OF this] show ?thesis
    using k by (intro msb_unique [of _ "2 ^ k"]) (simp_all add: unat_exp)
qed

text \<open>The 32-bit instance skips the first test, which cannot succeed.\<close>

lemma floorLog2_32: "x \<noteq> 0 \<Longrightarrow> unat x < 2 ^ 32 \<Longrightarrow> floorLog2 4 x = Inr (findMsbSet x)"
proof -
  assume x: "x \<noteq> 0" "unat x < 2 ^ 32"
  then have "bits_raw x (2 * 32 - 1) 32 = 0"
    using field_zero_iff [of x 32] unat_less64 [of x] by simp
  then have "msb_step 32 (0, x) = (0, x)" by (simp add: msb_step_def)
  with x show ?thesis
    by (simp add: floorLog2_def findMsbSet_def floor_masks floor_masks(6) [unfolded One_nat_def]
        word_gt_0) (simp add: floor_step_def)
qed

lemma unat_low_mask: "unat (v AND (2 ^ k - 1) :: u64) = unat v mod 2 ^ k"
proof -
  have "v AND (2 ^ k - 1) = take_bit k v"
    by (simp only: take_bit_eq_mask mask_eq_exp_minus_1)
  moreover have "unat (take_bit k v) = take_bit k (unat v)" by (rule unsigned_take_bit_eq)
  ultimately show ?thesis by (simp only: take_bit_eq_mod [of k "unat v"])
qed

end
