(* ===== verification/MemPacket.thy ===== *)
theory MemPacket
  imports Prelude
begin

text \<open>
  Memory commands, requests and packets (\<open>mem/packet.hh\<close>, \<open>mem/packet.cc\<close>,
  \<open>mem/request.hh\<close>): the command table row by row, the attribute
  tests as bit tests on it, the request fields the cache and its
  prefetchers read (a field with a validity flag is an option), and the packet
  operations that build a command from a request or turn a request into its
  response. The lemmas state the protocol facts the handlers rely on.
\<close>

section \<open>Commands\<close>

datatype (plugins only: code) Command =
    InvalidCmd | ReadReq | ReadResp | ReadRespWithInvalidate | WriteReq | WriteResp |
    WriteCompleteResp | WritebackDirty | WritebackClean | WriteClean | CleanEvict |
    SoftPFReq | SoftPFExReq | HardPFReq | SoftPFResp | HardPFResp | WriteLineReq |
    UpgradeReq | SCUpgradeReq | UpgradeResp | SCUpgradeFailReq | UpgradeFailResp |
    ReadExReq | ReadExResp | ReadCleanReq | ReadSharedReq | LoadLockedReq | StoreCondReq |
    StoreCondFailReq | StoreCondResp | LockedRMWReadReq | LockedRMWReadResp |
    LockedRMWWriteReq | LockedRMWWriteResp | SwapReq | SwapResp | MemFenceReq | MemSyncReq |
    MemSyncResp | MemFenceResp | CleanSharedReq | CleanSharedResp | CleanInvalidReq |
    CleanInvalidResp | InvalidDestError | BadAddressError | ReadError | WriteError |
    FunctionalReadError | FunctionalWriteError | PrintReq | FlushReq | InvalidateReq |
    InvalidateResp | HTMReq | HTMReqResp | HTMAbort | TlbiExtSync

datatype (plugins only: code) Attribute =
    IsRead | IsWrite | IsUpgrade | IsInvalidate | IsClean | NeedsWritable | IsRequest |
    IsResponse | NeedsResponse | IsEviction | IsSWPrefetch | IsHWPrefetch | IsLlsc |
    IsLockedRMW | HasData | IsError | IsPrint | IsFlush | FromCache

primrec attr_index :: "Attribute \<Rightarrow> nat" where
  "attr_index IsRead = 0"
| "attr_index IsWrite = 1"
| "attr_index IsUpgrade = 2"
| "attr_index IsInvalidate = 3"
| "attr_index IsClean = 4"
| "attr_index NeedsWritable = 5"
| "attr_index IsRequest = 6"
| "attr_index IsResponse = 7"
| "attr_index NeedsResponse = 8"
| "attr_index IsEviction = 9"
| "attr_index IsSWPrefetch = 10"
| "attr_index IsHWPrefetch = 11"
| "attr_index IsLlsc = 12"
| "attr_index IsLockedRMW = 13"
| "attr_index HasData = 14"
| "attr_index IsError = 15"
| "attr_index IsPrint = 16"
| "attr_index IsFlush = 17"
| "attr_index FromCache = 18"

text \<open>\<open>CommandInfo attributes response str\<close>, one row of the table.\<close>

datatype CommandInfo = CommandInfo (attributes: "Attribute list") (response: Command) (str: string)

definition buildAttributes :: "Attribute list \<Rightarrow> u64" where
  "buildAttributes attrs = foldl (\<lambda>ret a. ret OR push_bit (attr_index a) 1) 0 attrs"

primrec commandInfo :: "Command \<Rightarrow> CommandInfo" where
  "commandInfo InvalidCmd = CommandInfo [] InvalidCmd ''InvalidCmd''"
| "commandInfo ReadReq = CommandInfo [IsRead, IsRequest, NeedsResponse] ReadResp ''ReadReq''"
| "commandInfo ReadResp = CommandInfo [IsRead, IsResponse, HasData] InvalidCmd ''ReadResp''"
| "commandInfo ReadRespWithInvalidate = CommandInfo [IsRead, IsResponse, HasData, IsInvalidate] InvalidCmd ''ReadRespWithInvalidate''"
| "commandInfo WriteReq = CommandInfo [IsWrite, NeedsWritable, IsRequest, NeedsResponse, HasData] WriteResp ''WriteReq''"
| "commandInfo WriteResp = CommandInfo [IsWrite, IsResponse] InvalidCmd ''WriteResp''"
| "commandInfo WriteCompleteResp = CommandInfo [IsWrite, IsResponse] InvalidCmd ''WriteCompleteResp''"
| "commandInfo WritebackDirty = CommandInfo [IsWrite, IsRequest, IsEviction, HasData, FromCache] InvalidCmd ''WritebackDirty''"
| "commandInfo WritebackClean = CommandInfo [IsWrite, IsRequest, IsEviction, HasData, FromCache] InvalidCmd ''WritebackClean''"
| "commandInfo WriteClean = CommandInfo [IsWrite, IsRequest, HasData, FromCache] InvalidCmd ''WriteClean''"
| "commandInfo CleanEvict = CommandInfo [IsRequest, IsEviction, FromCache] InvalidCmd ''CleanEvict''"
| "commandInfo SoftPFReq = CommandInfo [IsRead, IsRequest, IsSWPrefetch, NeedsResponse] SoftPFResp ''SoftPFReq''"
| "commandInfo SoftPFExReq = CommandInfo [IsRead, NeedsWritable, IsInvalidate, IsRequest, IsSWPrefetch, NeedsResponse] SoftPFResp ''SoftPFExReq''"
| "commandInfo HardPFReq = CommandInfo [IsRead, IsRequest, IsHWPrefetch, NeedsResponse, FromCache] HardPFResp ''HardPFReq''"
| "commandInfo SoftPFResp = CommandInfo [IsRead, IsResponse, IsSWPrefetch, HasData] InvalidCmd ''SoftPFResp''"
| "commandInfo HardPFResp = CommandInfo [IsRead, IsResponse, IsHWPrefetch, HasData] InvalidCmd ''HardPFResp''"
| "commandInfo WriteLineReq = CommandInfo [IsWrite, NeedsWritable, IsRequest, NeedsResponse, HasData] WriteResp ''WriteLineReq''"
| "commandInfo UpgradeReq = CommandInfo [IsInvalidate, NeedsWritable, IsUpgrade, IsRequest, NeedsResponse, FromCache] UpgradeResp ''UpgradeReq''"
| "commandInfo SCUpgradeReq = CommandInfo [IsInvalidate, NeedsWritable, IsUpgrade, IsLlsc, IsRequest, NeedsResponse, FromCache] UpgradeResp ''SCUpgradeReq''"
| "commandInfo UpgradeResp = CommandInfo [IsUpgrade, IsResponse] InvalidCmd ''UpgradeResp''"
| "commandInfo SCUpgradeFailReq = CommandInfo [IsRead, NeedsWritable, IsInvalidate, IsLlsc, IsRequest, NeedsResponse, FromCache] UpgradeFailResp ''SCUpgradeFailReq''"
| "commandInfo UpgradeFailResp = CommandInfo [IsRead, IsResponse, HasData] InvalidCmd ''UpgradeFailResp''"
| "commandInfo ReadExReq = CommandInfo [IsRead, NeedsWritable, IsInvalidate, IsRequest, NeedsResponse, FromCache] ReadExResp ''ReadExReq''"
| "commandInfo ReadExResp = CommandInfo [IsRead, IsResponse, HasData] InvalidCmd ''ReadExResp''"
| "commandInfo ReadCleanReq = CommandInfo [IsRead, IsRequest, NeedsResponse, FromCache] ReadResp ''ReadCleanReq''"
| "commandInfo ReadSharedReq = CommandInfo [IsRead, IsRequest, NeedsResponse, FromCache] ReadResp ''ReadSharedReq''"
| "commandInfo LoadLockedReq = CommandInfo [IsRead, IsLlsc, IsRequest, NeedsResponse] ReadResp ''LoadLockedReq''"
| "commandInfo StoreCondReq = CommandInfo [IsWrite, NeedsWritable, IsLlsc, IsRequest, NeedsResponse, HasData] StoreCondResp ''StoreCondReq''"
| "commandInfo StoreCondFailReq = CommandInfo [IsWrite, NeedsWritable, IsLlsc, IsRequest, NeedsResponse, HasData] StoreCondResp ''StoreCondFailReq''"
| "commandInfo StoreCondResp = CommandInfo [IsWrite, IsLlsc, IsResponse] InvalidCmd ''StoreCondResp''"
| "commandInfo LockedRMWReadReq = CommandInfo [IsRead, IsLockedRMW, NeedsWritable, IsRequest, NeedsResponse] LockedRMWReadResp ''LockedRMWReadReq''"
| "commandInfo LockedRMWReadResp = CommandInfo [IsRead, IsLockedRMW, NeedsWritable, IsResponse, HasData] InvalidCmd ''LockedRMWReadResp''"
| "commandInfo LockedRMWWriteReq = CommandInfo [IsWrite, IsLockedRMW, NeedsWritable, IsRequest, NeedsResponse, HasData] LockedRMWWriteResp ''LockedRMWWriteReq''"
| "commandInfo LockedRMWWriteResp = CommandInfo [IsWrite, IsLockedRMW, NeedsWritable, IsResponse] InvalidCmd ''LockedRMWWriteResp''"
| "commandInfo SwapReq = CommandInfo [IsRead, IsWrite, NeedsWritable, IsRequest, HasData, NeedsResponse] SwapResp ''SwapReq''"
| "commandInfo SwapResp = CommandInfo [IsRead, IsWrite, IsResponse, HasData] InvalidCmd ''SwapResp''"
| "commandInfo MemFenceReq = CommandInfo [IsRequest, NeedsResponse] MemFenceResp ''MemFenceReq''"
| "commandInfo MemSyncReq = CommandInfo [IsRequest, NeedsResponse] MemSyncResp ''MemSyncReq''"
| "commandInfo MemSyncResp = CommandInfo [IsResponse] InvalidCmd ''MemSyncResp''"
| "commandInfo MemFenceResp = CommandInfo [IsResponse] InvalidCmd ''MemFenceResp''"
| "commandInfo CleanSharedReq = CommandInfo [IsRequest, IsClean, NeedsResponse, FromCache] CleanSharedResp ''CleanSharedReq''"
| "commandInfo CleanSharedResp = CommandInfo [IsResponse, IsClean] InvalidCmd ''CleanSharedResp''"
| "commandInfo CleanInvalidReq = CommandInfo [IsRequest, IsInvalidate, IsClean, NeedsResponse, FromCache] CleanInvalidResp ''CleanInvalidReq''"
| "commandInfo CleanInvalidResp = CommandInfo [IsResponse, IsInvalidate, IsClean] InvalidCmd ''CleanInvalidResp''"
| "commandInfo InvalidDestError = CommandInfo [IsResponse, IsError] InvalidCmd ''InvalidDestError''"
| "commandInfo BadAddressError = CommandInfo [IsResponse, IsError] InvalidCmd ''BadAddressError''"
| "commandInfo ReadError = CommandInfo [IsRead, IsResponse, IsError] InvalidCmd ''ReadError''"
| "commandInfo WriteError = CommandInfo [IsWrite, IsResponse, IsError] InvalidCmd ''WriteError''"
| "commandInfo FunctionalReadError = CommandInfo [IsRead, IsResponse, IsError] InvalidCmd ''FunctionalReadError''"
| "commandInfo FunctionalWriteError = CommandInfo [IsWrite, IsResponse, IsError] InvalidCmd ''FunctionalWriteError''"
| "commandInfo PrintReq = CommandInfo [IsRequest, IsPrint] InvalidCmd ''PrintReq''"
| "commandInfo FlushReq = CommandInfo [IsRequest, IsFlush, NeedsWritable] InvalidCmd ''FlushReq''"
| "commandInfo InvalidateReq = CommandInfo [IsInvalidate, IsRequest, NeedsWritable, NeedsResponse, FromCache] InvalidateResp ''InvalidateReq''"
| "commandInfo InvalidateResp = CommandInfo [IsInvalidate, IsResponse] InvalidCmd ''InvalidateResp''"
| "commandInfo HTMReq = CommandInfo [IsRead, IsRequest, NeedsResponse] HTMReqResp ''HTMReq''"
| "commandInfo HTMReqResp = CommandInfo [IsRead, IsResponse] InvalidCmd ''HTMReqResp''"
| "commandInfo HTMAbort = CommandInfo [IsRead, IsRequest] InvalidCmd ''HTMAbort''"
| "commandInfo TlbiExtSync = CommandInfo [IsRequest] InvalidCmd ''TlbiExtSync''"

definition testCmdAttrib :: "Command \<Rightarrow> Attribute \<Rightarrow> bool" where
  "testCmdAttrib c a = bit (buildAttributes (attributes (commandInfo c))) (attr_index a)"

definition responseCommand :: "Command \<Rightarrow> Command" where
  "responseCommand c = response (commandInfo c)"

definition isWriteback :: "Command \<Rightarrow> bool" where
  "isWriteback c \<longleftrightarrow> testCmdAttrib c IsEviction \<and> testCmdAttrib c HasData"

definition isPrefetchCmd :: "Command \<Rightarrow> bool" where
  "isPrefetchCmd c \<longleftrightarrow> testCmdAttrib c IsSWPrefetch \<or> testCmdAttrib c IsHWPrefetch"

definition isDemand :: "Command \<Rightarrow> bool" where
  "isDemand c \<longleftrightarrow> c = ReadReq \<or> c = WriteReq \<or> c = WriteLineReq \<or> c = ReadExReq \<or>
     c = ReadCleanReq \<or> c = ReadSharedReq"

section \<open>Requests\<close>

record Request =
  req_paddr :: "Addr option"
  req_vaddr :: "Addr option"
  req_pc :: "Addr option"
  req_size :: u32
  req_flags :: u64
  req_requestor :: "16 word"
  req_context :: "cint option"

definition flag_set :: "u64 \<Rightarrow> Request \<Rightarrow> bool" where
  "flag_set m r \<longleftrightarrow> req_flags r AND m \<noteq> 0"

definition INST_FETCH :: u64 where "INST_FETCH = 0x100"
definition UNCACHEABLE :: u64 where "UNCACHEABLE = 0x400"
definition LOCKED_RMW :: u64 where "LOCKED_RMW = 0x100000"
definition LLSC :: u64 where "LLSC = 0x200000"
definition MEM_SWAP :: u64 where "MEM_SWAP = 0x400000"
definition MEM_SWAP_COND :: u64 where "MEM_SWAP_COND = 0x800000"
definition PREFETCH :: u64 where "PREFETCH = 0x1000000"
definition PF_EXCLUSIVE :: u64 where "PF_EXCLUSIVE = 0x2000000"
definition SECURE :: u64 where "SECURE = 0x10000000"
definition ATOMIC_RETURN_OP :: u64 where "ATOMIC_RETURN_OP = 0x40000000"
definition ATOMIC_NO_RETURN_OP :: u64 where "ATOMIC_NO_RETURN_OP = 0x80000000"
definition INVALIDATE :: u64 where "INVALIDATE = 0x100000000"
definition CLEAN :: u64 where "CLEAN = 0x200000000"
definition HTM_START :: u64 where "HTM_START = 0x10000000000"
definition HTM_COMMIT :: u64 where "HTM_COMMIT = 0x20000000000"
definition HTM_CANCEL :: u64 where "HTM_CANCEL = 0x40000000000"
definition HTM_ABORT :: u64 where "HTM_ABORT = 0x80000000000"

lemmas request_flags = INST_FETCH_def UNCACHEABLE_def LOCKED_RMW_def LLSC_def MEM_SWAP_def
  MEM_SWAP_COND_def PREFETCH_def PF_EXCLUSIVE_def SECURE_def ATOMIC_RETURN_OP_def
  ATOMIC_NO_RETURN_OP_def INVALIDATE_def CLEAN_def HTM_START_def HTM_COMMIT_def
  HTM_CANCEL_def HTM_ABORT_def

definition isInstFetch :: "Request \<Rightarrow> bool" where
  "isInstFetch r = flag_set INST_FETCH r"

definition isUncacheable :: "Request \<Rightarrow> bool" where
  "isUncacheable r = flag_set UNCACHEABLE r"

definition isPrefetchReq :: "Request \<Rightarrow> bool" where
  "isPrefetchReq r = flag_set (PREFETCH OR PF_EXCLUSIVE) r"

definition isSecureReq :: "Request \<Rightarrow> bool" where
  "isSecureReq r = flag_set SECURE r"

definition isHTMCmd :: "Request \<Rightarrow> bool" where
  "isHTMCmd r \<longleftrightarrow> flag_set HTM_START r \<or> flag_set HTM_COMMIT r \<or> flag_set HTM_CANCEL r \<or>
     flag_set HTM_ABORT r"

definition isAtomic :: "Request \<Rightarrow> bool" where
  "isAtomic r \<longleftrightarrow> flag_set ATOMIC_RETURN_OP r \<or> flag_set ATOMIC_NO_RETURN_OP r"

definition isSwap :: "Request \<Rightarrow> bool" where
  "isSwap r = flag_set (MEM_SWAP OR MEM_SWAP_COND) r"

definition isCacheMaintenance :: "Request \<Rightarrow> bool" where
  "isCacheMaintenance r = flag_set (CLEAN OR INVALIDATE) r"

definition setFlags :: "u64 \<Rightarrow> Request \<Rightarrow> Request" where
  "setFlags m r = r\<lparr>req_flags := req_flags r OR m\<rparr>"

text \<open>The two constructors: by physical address, and by virtual address, program counter
  and context.\<close>

definition physRequest :: "Addr \<Rightarrow> u32 \<Rightarrow> u64 \<Rightarrow> 16 word \<Rightarrow> Request" where
  "physRequest paddr sz flags rid =
     \<lparr>req_paddr = Some paddr, req_vaddr = None, req_pc = None, req_size = sz,
      req_flags = flags, req_requestor = rid, req_context = None\<rparr>"

definition virtRequest :: "Addr \<Rightarrow> u32 \<Rightarrow> u64 \<Rightarrow> 16 word \<Rightarrow> Addr \<Rightarrow> cint \<Rightarrow> Request" where
  "virtRequest vaddr sz flags rid pc cid =
     \<lparr>req_paddr = None, req_vaddr = Some vaddr, req_pc = Some pc, req_size = sz,
      req_flags = flags, req_requestor = rid, req_context = Some cid\<rparr>"

section \<open>Packets\<close>

record Packet =
  cmd :: Command
  pkt_addr :: "Addr option"
  pkt_secure :: bool
  pkt_size :: u32
  pkt_expressSnoop :: bool
  pkt_data :: "u8 list"
  req :: Request

definition newPacket :: "Request \<Rightarrow> Command \<Rightarrow> Packet result" where
  "newPacket r c =
     (let addr = (case req_paddr r of Some p \<Rightarrow> p | None \<Rightarrow> 0);
          secure = (req_paddr r \<noteq> None \<and> isSecureReq r)
      in if isHTMCmd r \<and> addr \<noteq> 0 then Inl (AssertFailed ''Packet: HTM address'')
         else Inr \<lparr>cmd = c,
                   pkt_addr = (if req_paddr r \<noteq> None \<or> isHTMCmd r then Some addr else None),
                   pkt_secure = secure, pkt_size = req_size r, pkt_expressSnoop = False,
                   pkt_data = [], req = r\<rparr>)"

definition getAddr :: "Packet \<Rightarrow> Addr result" where
  "getAddr p = (case pkt_addr p of Some a \<Rightarrow> Inr a | None \<Rightarrow> Inl (AssertFailed ''getAddr''))"

definition getPaddr :: "Request \<Rightarrow> Addr result" where
  "getPaddr r = (case req_paddr r of Some a \<Rightarrow> Inr a | None \<Rightarrow> Inl (AssertFailed ''getPaddr''))"

definition getVaddr :: "Request \<Rightarrow> Addr result" where
  "getVaddr r = (case req_vaddr r of Some a \<Rightarrow> Inr a | None \<Rightarrow> Inl (AssertFailed ''getVaddr''))"

definition makeReadCmd :: "Request \<Rightarrow> Command" where
  "makeReadCmd r =
     (if isHTMCmd r then (if flag_set HTM_ABORT r then HTMAbort else HTMReq)
      else if flag_set LLSC r then LoadLockedReq
      else if flag_set PF_EXCLUSIVE r then SoftPFExReq
      else if isPrefetchReq r then SoftPFReq
      else if flag_set LOCKED_RMW r then LockedRMWReadReq
      else ReadReq)"

definition makeWriteCmd :: "Request \<Rightarrow> Command" where
  "makeWriteCmd r =
     (if flag_set LLSC r then StoreCondReq
      else if isSwap r \<or> isAtomic r then SwapReq
      else if flag_set INVALIDATE r then (if flag_set CLEAN r then CleanInvalidReq else InvalidateReq)
      else if flag_set CLEAN r then CleanSharedReq
      else if flag_set LOCKED_RMW r then LockedRMWWriteReq
      else WriteReq)"

definition makeResponse :: "Packet \<Rightarrow> Packet result" where
  "makeResponse p =
     (if \<not> testCmdAttrib (cmd p) NeedsResponse then Inl (AssertFailed ''needsResponse'')
      else if \<not> testCmdAttrib (cmd p) IsRequest then Inl (AssertFailed ''isRequest'')
      else Inr (p\<lparr>cmd := responseCommand (cmd p), pkt_expressSnoop := False\<rparr>))"

definition setBadCommand :: "Packet \<Rightarrow> Packet result" where
  "setBadCommand p =
     (if \<not> testCmdAttrib (cmd p) IsResponse then Inl (AssertFailed ''isResponse'')
      else Inr (p\<lparr>cmd := if testCmdAttrib (cmd p) IsWrite then WriteError else ReadError\<rparr>))"

definition isCleanEviction :: "Packet \<Rightarrow> bool" where
  "isCleanEviction p \<longleftrightarrow> cmd p = CleanEvict \<or> cmd p = WritebackClean"

definition mustCheckAbove :: "Packet \<Rightarrow> bool" where
  "mustCheckAbove p \<longleftrightarrow> cmd p = HardPFReq \<or> testCmdAttrib (cmd p) IsEviction"

section \<open>The table\<close>

lemma attr_index_less: "attr_index a < 64"
  by (cases a) simp_all

lemma attr_index_inj: "attr_index a = attr_index b \<longleftrightarrow> a = b"
  by (cases a; cases b; simp)

lemma bit_build_fold:
  "bit (foldl (\<lambda>ret a. ret OR push_bit (attr_index a) 1) (w :: u64) as) n
   \<longleftrightarrow> bit w n \<or> n \<in> attr_index ` set as"
  using attr_index_less by (induction as arbitrary: w) (auto simp: bit_simps)

lemma testCmdAttrib_iff: "testCmdAttrib c a \<longleftrightarrow> a \<in> set (attributes (commandInfo c))"
  unfolding testCmdAttrib_def buildAttributes_def bit_build_fold by (auto simp: attr_index_inj)

lemma responseCommand_laws:
  "testCmdAttrib c NeedsResponse \<Longrightarrow> testCmdAttrib c IsRequest"
  "testCmdAttrib c NeedsResponse \<Longrightarrow> testCmdAttrib (responseCommand c) IsResponse"
  "\<not> testCmdAttrib c NeedsResponse \<Longrightarrow> responseCommand c = InvalidCmd"
  "\<not> (testCmdAttrib c IsRequest \<and> testCmdAttrib c IsResponse)"
  "testCmdAttrib c IsResponse \<Longrightarrow> \<not> testCmdAttrib c NeedsResponse"
  "testCmdAttrib c NeedsResponse \<Longrightarrow>
     testCmdAttrib (responseCommand c) IsRead = testCmdAttrib c IsRead \<and>
     testCmdAttrib (responseCommand c) IsWrite = testCmdAttrib c IsWrite \<and>
     testCmdAttrib (responseCommand c) IsSWPrefetch = testCmdAttrib c IsSWPrefetch \<and>
     testCmdAttrib (responseCommand c) IsHWPrefetch = testCmdAttrib c IsHWPrefetch"
  by (cases c; simp add: testCmdAttrib_iff responseCommand_def)+

lemma makeResponse_ok:
  "testCmdAttrib (cmd p) NeedsResponse \<longleftrightarrow> (\<exists>q. makeResponse p = Inr q)"
  using responseCommand_laws(1) by (auto simp: makeResponse_def)

lemma makeResponse_kind:
  assumes "makeResponse p = Inr q"
  shows "testCmdAttrib (cmd q) IsResponse"
    "testCmdAttrib (cmd q) IsRead = testCmdAttrib (cmd p) IsRead"
    "testCmdAttrib (cmd q) IsWrite = testCmdAttrib (cmd p) IsWrite"
    "isPrefetchCmd (cmd q) = isPrefetchCmd (cmd p)"
    "\<exists>e. makeResponse q = Inl e"
    "pkt_addr q = pkt_addr p" "req q = req p"
  using assms responseCommand_laws [of "cmd p"] responseCommand_laws [of "cmd q"]
  by (auto simp: makeResponse_def isPrefetchCmd_def split: if_splits)

end
