(* ===== verification/CacheCounters.thy ===== *)
theory CacheCounters
  imports MemPacket
begin

text \<open>
  The counters a cache keeps of its accesses (\<open>incMissCount\<close>, \<open>incHitCount\<close> and the runtime
  counters added for online controllers in \<open>mem/cache/base.hh\<close>). The statistics per command and
  requestor are functions; reaching the miss limit asks the simulation to stop, here a flag. The
  access depth that a miss records in the request is not modelled.
\<close>

record CacheCounters =
  maxRequestors :: nat
  missCount :: int
  runtimeAccesses :: u64
  runtimeMisses :: u64
  cmdHits :: "Command \<Rightarrow> 16 word \<Rightarrow> nat"
  cmdMisses :: "Command \<Rightarrow> 16 word \<Rightarrow> nat"
  exitRequested :: bool

definition bump_stat :: "Packet \<Rightarrow> (Command \<Rightarrow> 16 word \<Rightarrow> nat) \<Rightarrow> Command \<Rightarrow> 16 word \<Rightarrow> nat" where
  "bump_stat pkt f =
     f(cmd pkt := (f (cmd pkt))(req_requestor (req pkt) := f (cmd pkt) (req_requestor (req pkt)) + 1))"

definition incMissCount :: "Packet \<Rightarrow> CacheCounters \<Rightarrow> CacheCounters result" where
  "incMissCount pkt c =
     (if \<not> unat (req_requestor (req pkt)) < maxRequestors c then Inl (AssertFailed ''incMissCount'')
      else
        let c = c\<lparr>cmdMisses := bump_stat pkt (cmdMisses c),
                  runtimeMisses := runtimeMisses c + 1, runtimeAccesses := runtimeAccesses c + 1\<rparr>
        in Inr (if missCount c \<noteq> 0
                then c\<lparr>missCount := missCount c - 1, exitRequested := exitRequested c \<or> missCount c - 1 = 0\<rparr>
                else c))"

definition incHitCount :: "Packet \<Rightarrow> CacheCounters \<Rightarrow> CacheCounters result" where
  "incHitCount pkt c =
     (if \<not> unat (req_requestor (req pkt)) < maxRequestors c then Inl (AssertFailed ''incHitCount'')
      else Inr (c\<lparr>cmdHits := bump_stat pkt (cmdHits c), runtimeAccesses := runtimeAccesses c + 1\<rparr>))"

text \<open>The accesses of an interval, each a packet and whether it missed.\<close>

fun count_accesses :: "(Packet \<times> bool) list \<Rightarrow> CacheCounters \<Rightarrow> CacheCounters result" where
  "count_accesses [] c = Inr c"
| "count_accesses ((pkt, miss) # es) c =
     bindR (if miss then incMissCount pkt c else incHitCount pkt c) (count_accesses es)"

lemma count_accesses_runtime:
  "count_accesses es c = Inr c' \<Longrightarrow>
   runtimeAccesses c' - runtimeAccesses c = of_nat (length es) \<and>
   runtimeMisses c' - runtimeMisses c = of_nat (length (filter snd es))"
proof (induction es arbitrary: c)
  case (Cons e es)
  obtain pkt miss where e: "e = (pkt, miss)" by fastforce
  from Cons.prems obtain c1 where c1: "(if miss then incMissCount pkt c else incHitCount pkt c) = Inr c1"
    and r: "count_accesses es c1 = Inr c'" by (auto simp: e)
  have "runtimeAccesses c1 = runtimeAccesses c + 1 \<and> runtimeMisses c1 = runtimeMisses c + (if miss then 1 else 0)"
    using c1 by (auto simp: incMissCount_def incHitCount_def Let_def split: if_splits)
  with Cons.IH [OF r] show ?case by (auto simp: e algebra_simps)
qed simp

lemma runtime_counters_unat:
  assumes "count_accesses es c = Inr c'" "length es < 2 ^ 64"
  shows "unat (runtimeAccesses c' - runtimeAccesses c) = length es \<and>
    unat (runtimeMisses c' - runtimeMisses c) = length (filter snd es)"
proof -
  have "length (filter snd es) < 2 ^ 64" using assms(2) length_filter_le [of snd es] by linarith
  then show ?thesis using assms count_accesses_runtime [OF assms(1)] by (simp add: unat_of_nat)
qed

text \<open>Over any interval of fewer than 2 ^ 64 accesses the two runtime counters advance by the
  number of accesses and of misses, also when they wrap around.\<close>

theorem runtime_counters_exact:
  assumes "count_accesses es c = Inr c'" "length es < 2 ^ 64"
  shows "unat (runtimeAccesses c' - runtimeAccesses c) = length es \<and>
    unat (runtimeMisses c' - runtimeMisses c) = length (filter snd es)"
  using runtime_counters_unat [OF assms] .

definition ex_counters :: CacheCounters where
  "ex_counters = \<lparr>maxRequestors = 4, missCount = 0, runtimeAccesses = - 1, runtimeMisses = 7,
     cmdHits = (\<lambda>_ _. 0), cmdMisses = (\<lambda>_ _. 0), exitRequested = False\<rparr>"

definition ex_access :: Packet where
  "ex_access = \<lparr>cmd = ReadReq, pkt_addr = Some 0x1040, pkt_secure = False, pkt_size = 64,
     pkt_expressSnoop = False, pkt_data = [], req = physRequest 0x1040 64 0 3\<rparr>"

theorem runtime_counters_exact_witness:
  "\<exists>c'. count_accesses [(ex_access, True), (ex_access, False)] ex_counters = Inr c' \<and>
     unat (runtimeAccesses c' - runtimeAccesses ex_counters) = 2 \<and> runtimeAccesses c' = 1"
proof -
  obtain c' where c: "count_accesses [(ex_access, True), (ex_access, False)] ex_counters = Inr c'"
    and a: "runtimeAccesses c' = 1"
    by (simp add: incMissCount_def incHitCount_def ex_counters_def ex_access_def physRequest_def)
  show ?thesis using runtime_counters_exact [OF c] by (intro exI [of _ c'] conjI c a) simp
qed

end
