(* ===== verification/PrefetchBase.thy ===== *)
theory PrefetchBase
  imports BaseUtil MemPacket
begin

text \<open>
  The base class of the hardware prefetchers (\<open>mem/cache/prefetch/base.hh\<close>,
  \<open>base.cc\<close>): the training record built from a packet, the filter on the accesses
  a prefetcher observes, the block and page arithmetic, and the probe handler
  that counts useful prefetches and hands the access to the virtual \<open>notify\<close>
  (an argument here, instantiated by the derived classes). The cache is seen
  through the \<open>CacheAccessor\<close> interface of \<open>cache_probe_arg.hh\<close>, a record of its
  answers. Derived classes extend the record \<open>BasePf\<close>.
\<close>

section \<open>Data\<close>

record CacheAccessor =
  inCache :: "Addr \<Rightarrow> bool \<Rightarrow> bool"
  hasBeenPrefetched :: "Addr \<Rightarrow> bool \<Rightarrow> bool"
  hasBeenPrefetchedBy :: "Addr \<Rightarrow> bool \<Rightarrow> 16 word \<Rightarrow> bool"
  inMissQueue :: "Addr \<Rightarrow> bool \<Rightarrow> bool"
  coalesce :: bool

record PrefetchInfo =
  pf_address :: Addr
  pf_pc :: Addr
  pf_requestorId :: "16 word"
  pf_validPC :: bool
  pf_secure :: bool
  pf_size :: u32
  pf_write :: bool
  pf_paddress :: Addr
  pf_cacheMiss :: bool
  pf_data :: "u8 list option"

record PfStats =
  demandMshrMisses :: nat
  pfIssued :: nat
  pfUnused :: nat
  pfUseful :: nat
  pfUsefulButMiss :: nat
  pfHitInCache :: nat
  pfHitInMSHR :: nat
  pfHitInWB :: nat

record BasePf =
  parentSet :: bool
  blkSize :: u32
  lBlkSize :: nat
  onMiss :: bool
  onRead :: bool
  onWrite :: bool
  onData :: bool
  onInst :: bool
  requestorId :: "16 word"
  pageBytes :: Addr
  prefetchOnAccess :: bool
  prefetchOnPfHit :: bool
  useVirtualAddresses :: bool
  prefetchStats :: PfStats
  issuedPrefetches :: u64
  usefulPrefetches :: u64
  mmu :: bool

definition zeroPfStats :: PfStats where
  "zeroPfStats = \<lparr>demandMshrMisses = 0, pfIssued = 0, pfUnused = 0, pfUseful = 0,
     pfUsefulButMiss = 0, pfHitInCache = 0, pfHitInMSHR = 0, pfHitInWB = 0\<rparr>"

section \<open>The training record\<close>

definition newPrefetchInfo :: "Packet \<Rightarrow> Addr \<Rightarrow> bool \<Rightarrow> PrefetchInfo result" where
  "newPrefetchInfo pkt addr miss =
     bindR (getAddr pkt) (\<lambda>pa.
     bindR (getPaddr (req pkt)) (\<lambda>paddr.
       let r = req pkt;
           write = testCmdAttrib (cmd pkt) IsWrite;
           n = unat (req_size r);
           off = unat (paddr - pa)
       in Inr \<lparr>pf_address = addr,
               pf_pc = (case req_pc r of Some pc \<Rightarrow> pc | None \<Rightarrow> 0),
               pf_requestorId = req_requestor r,
               pf_validPC = (req_pc r \<noteq> None),
               pf_secure = pkt_secure pkt,
               pf_size = req_size r,
               pf_write = write,
               pf_paddress = paddr,
               pf_cacheMiss = miss,
               pf_data = (if (\<not> write \<and> miss) \<or> \<not> testCmdAttrib (cmd pkt) HasData then None
                          else Some (take n (drop off (pkt_data pkt))))\<rparr>))"

definition derivePrefetchInfo :: "PrefetchInfo \<Rightarrow> Addr \<Rightarrow> PrefetchInfo" where
  "derivePrefetchInfo pfi addr = pfi\<lparr>pf_address := addr, pf_data := None\<rparr>"

definition getPC :: "PrefetchInfo \<Rightarrow> Addr result" where
  "getPC pfi = (if pf_validPC pfi then Inr (pf_pc pfi) else Inl (AssertFailed ''hasPC''))"

definition sameAddr :: "PrefetchInfo \<Rightarrow> PrefetchInfo \<Rightarrow> bool" where
  "sameAddr a b \<longleftrightarrow> pf_address a = pf_address b \<and> pf_secure a = pf_secure b"

section \<open>Set-up\<close>

text \<open>The constructor; the arguments are the parameters of \<open>BasePrefetcherParams\<close> in the
  order the initialiser list reads them.\<close>

definition newBasePf ::
  "u32 \<Rightarrow> bool \<Rightarrow> bool \<Rightarrow> bool \<Rightarrow> bool \<Rightarrow> bool \<Rightarrow> 16 word \<Rightarrow> Addr \<Rightarrow> bool \<Rightarrow> bool \<Rightarrow> bool \<Rightarrow> BasePf result" where
  "newBasePf blk on_miss on_read on_write on_data on_inst rid page on_access on_pf_hit virt =
     bindR (floorLog2 4 (ucast blk)) (\<lambda>l.
       Inr \<lparr>parentSet = False, blkSize = blk, lBlkSize = l, onMiss = on_miss, onRead = on_read,
            onWrite = on_write, onData = on_data, onInst = on_inst, requestorId = rid,
            pageBytes = page, prefetchOnAccess = on_access, prefetchOnPfHit = on_pf_hit,
            useVirtualAddresses = virt, prefetchStats = zeroPfStats, issuedPrefetches = 0,
            usefulPrefetches = 0, mmu = False\<rparr>)"

definition setParentInfo :: "u32 \<Rightarrow> 'a BasePf_scheme \<Rightarrow> 'a BasePf_scheme result" where
  "setParentInfo blk_size s =
     (if parentSet s then Inl (AssertFailed ''setParentInfo'')
      else bindR (floorLog2 4 (ucast blk_size)) (\<lambda>l.
             Inr (s\<lparr>parentSet := True, blkSize := blk_size, lBlkSize := l\<rparr>)))"

definition addMMU :: "'a BasePf_scheme \<Rightarrow> 'a BasePf_scheme result" where
  "addMMU s = (if mmu s then Inl (Fatal ''Only one MMU can be registered'') else Inr (s\<lparr>mmu := True\<rparr>))"

section \<open>Observation filter and address arithmetic\<close>

definition observeAccess :: "'a BasePf_scheme \<Rightarrow> Packet \<Rightarrow> bool \<Rightarrow> bool \<Rightarrow> bool" where
  "observeAccess s pkt miss prefetched =
     (let fetch = isInstFetch (req pkt);
          read = testCmdAttrib (cmd pkt) IsRead;
          inv = testCmdAttrib (cmd pkt) IsInvalidate
      in if \<not> miss \<and> prefetchOnPfHit s then prefetched
         else if \<not> miss \<and> \<not> prefetchOnAccess s then False
         else if isUncacheable (req pkt) then False
         else if fetch \<and> \<not> onInst s then False
         else if \<not> fetch \<and> \<not> onData s then False
         else if \<not> fetch \<and> read \<and> \<not> onRead s then False
         else if \<not> fetch \<and> \<not> read \<and> \<not> onWrite s then False
         else if \<not> fetch \<and> \<not> read \<and> inv then False
         else if cmd pkt = CleanEvict then False
         else if onMiss s then miss
         else True)"

definition pageAddress :: "'a BasePf_scheme \<Rightarrow> Addr \<Rightarrow> Addr result" where
  "pageAddress s a = roundDown a (pageBytes s)"

definition samePage :: "'a BasePf_scheme \<Rightarrow> Addr \<Rightarrow> Addr \<Rightarrow> bool result" where
  "samePage s a b =
     bindR (roundDown a (pageBytes s)) (\<lambda>x. bindR (roundDown b (pageBytes s)) (\<lambda>y. Inr (x = y)))"

definition blockAddress :: "'a BasePf_scheme \<Rightarrow> Addr \<Rightarrow> Addr" where
  "blockAddress s a = a AND NOT (ucast (blkSize s) - 1)"

definition blockIndex :: "'a BasePf_scheme \<Rightarrow> Addr \<Rightarrow> Addr" where
  "blockIndex s a = drop_bit (lBlkSize s) a"

definition pageOffset :: "'a BasePf_scheme \<Rightarrow> Addr \<Rightarrow> Addr" where
  "pageOffset s a = a AND (pageBytes s - 1)"

text \<open>The shift is on the 32-bit operand.\<close>

definition pageIthBlockAddress :: "'a BasePf_scheme \<Rightarrow> Addr \<Rightarrow> u32 \<Rightarrow> Addr" where
  "pageIthBlockAddress s page i = page + ucast (push_bit (lBlkSize s) i)"

section \<open>Events\<close>

definition countUseful :: "bool \<Rightarrow> 'a BasePf_scheme \<Rightarrow> 'a BasePf_scheme" where
  "countUseful miss s =
     s\<lparr>usefulPrefetches := usefulPrefetches s + 1,
       prefetchStats := (prefetchStats s)
         \<lparr>pfUseful := pfUseful (prefetchStats s) + 1,
          pfUsefulButMiss := pfUsefulButMiss (prefetchStats s) + (if miss then 1 else 0)\<rparr>\<rparr>"

definition probeNotify ::
  "(Packet \<Rightarrow> CacheAccessor \<Rightarrow> PrefetchInfo \<Rightarrow> 'a BasePf_scheme \<Rightarrow> 'a BasePf_scheme result) \<Rightarrow>
   Packet \<Rightarrow> CacheAccessor \<Rightarrow> bool \<Rightarrow> 'a BasePf_scheme \<Rightarrow> 'a BasePf_scheme result" where
  "probeNotify notify pkt cache miss s =
     (if testCmdAttrib (cmd pkt) IsSWPrefetch then Inr s
      else if isCacheMaintenance (req pkt) then Inr s
      else if isCleanEviction pkt then Inr s
      else if testCmdAttrib (cmd pkt) IsWrite \<and> coalesce cache then Inr s
      else if req_paddr (req pkt) = None then Inl (Panic ''Request must have a physical address'')
      else
        bindR (getAddr pkt) (\<lambda>addr.
          let pref = hasBeenPrefetchedBy cache addr (pkt_secure pkt) (requestorId s);
              s = (if pref then countUseful miss s else s)
          in if observeAccess s pkt miss pref then
               if useVirtualAddresses s \<and> req_vaddr (req pkt) \<noteq> None then
                 bindR (getVaddr (req pkt)) (\<lambda>va.
                 bindR (newPrefetchInfo pkt va miss) (\<lambda>pfi. notify pkt cache pfi s))
               else if \<not> useVirtualAddresses s then
                 bindR (getPaddr (req pkt)) (\<lambda>pa.
                 bindR (newPrefetchInfo pkt pa miss) (\<lambda>pfi. notify pkt cache pfi s))
               else Inr s
             else Inr s))"

text \<open>The probe listener a prefetcher registers: fills go to \<open>notifyFill\<close>, the other two
  probes to \<open>probeNotify\<close>.\<close>

definition listenerNotify ::
  "(Packet \<Rightarrow> CacheAccessor \<Rightarrow> PrefetchInfo \<Rightarrow> 'a BasePf_scheme \<Rightarrow> 'a BasePf_scheme result) \<Rightarrow>
   (Packet \<Rightarrow> CacheAccessor \<Rightarrow> 'a BasePf_scheme \<Rightarrow> 'a BasePf_scheme result) \<Rightarrow>
   bool \<Rightarrow> bool \<Rightarrow> Packet \<Rightarrow> CacheAccessor \<Rightarrow> 'a BasePf_scheme \<Rightarrow> 'a BasePf_scheme result" where
  "listenerNotify notify notifyFill isFill miss pkt cache s =
     (if isFill then notifyFill pkt cache s else probeNotify notify pkt cache miss s)"

definition prefetchUnused :: "'a BasePf_scheme \<Rightarrow> 'a BasePf_scheme" where
  "prefetchUnused s = s\<lparr>prefetchStats := (prefetchStats s)\<lparr>pfUnused := pfUnused (prefetchStats s) + 1\<rparr>\<rparr>"

definition incrDemandMhsrMisses :: "'a BasePf_scheme \<Rightarrow> 'a BasePf_scheme" where
  "incrDemandMhsrMisses s =
     s\<lparr>prefetchStats := (prefetchStats s)\<lparr>demandMshrMisses := demandMshrMisses (prefetchStats s) + 1\<rparr>\<rparr>"

text \<open>The formula statistics; the divisor of an empty history makes the quotient undefined.\<close>

definition pfLate :: "PfStats \<Rightarrow> nat" where
  "pfLate st = pfHitInCache st + pfHitInMSHR st + pfHitInWB st"

definition pf_accuracy :: "PfStats \<Rightarrow> rat option" where
  "pf_accuracy st = (if pfIssued st = 0 then None else Some (of_nat (pfUseful st) / of_nat (pfIssued st)))"

definition pf_coverage :: "PfStats \<Rightarrow> rat option" where
  "pf_coverage st =
     (if pfUseful st + demandMshrMisses st = 0 then None
      else Some (of_nat (pfUseful st) / of_nat (pfUseful st + demandMshrMisses st)))"

section \<open>Invariant and arithmetic facts\<close>

definition base_wf :: "'a BasePf_scheme \<Rightarrow> bool" where
  "base_wf s \<longleftrightarrow> isPowerOf2 (ucast (blkSize s)) \<and> floorLog2 4 (ucast (blkSize s)) = Inr (lBlkSize s)
     \<and> isPowerOf2 (pageBytes s)"

lemma base_wfE:
  assumes "base_wf s"
  obtains k p where "ucast (blkSize s) = (2 :: u64) ^ k" "k < 32" "lBlkSize s = k"
    "pageBytes s = 2 ^ p" "p < 64" "unat (blkSize s) = 2 ^ k"
proof -
  obtain k where k: "k < 64" "ucast (blkSize s) = (2 :: u64) ^ k"
    using assms by (auto simp: base_wf_def isPowerOf2_iff)
  obtain p where p: "p < 64" "pageBytes s = 2 ^ p"
    using assms by (auto simp: base_wf_def isPowerOf2_iff)
  have u: "unat (ucast (blkSize s) :: u64) = unat (blkSize s)"
    by (rule unat_ucast32)
  then have b: "unat (blkSize s) = 2 ^ k" using k by (simp only: unat_exp)
  from unat_less32 [of "blkSize s"] have "(2::nat) ^ k < 2 ^ 32" by (simp only: b)
  then have k32: "k < 32" by (rule power_less_imp_less_exp [rotated]) simp
  have "unat (2 ^ k :: u64) < 2 ^ 32" using k \<open>2 ^ k < 2 ^ 32\<close> by (simp only: unat_exp)
  moreover have "(2 ^ k :: u64) \<noteq> 0" using k unat_exp [of k] by auto
  ultimately have "floorLog2 4 (2 ^ k) = Inr k"
    using floorLog2_32 [of "2 ^ k"] findMsbSet_exp [OF k(1)] by metis
  then have "lBlkSize s = k" using assms k by (simp add: base_wf_def)
  with that k k32 p b show thesis by blast
qed

lemma unat_blockAddress:
  "base_wf s \<Longrightarrow> unat (blockAddress s a) = unat a div unat (blkSize s) * unat (blkSize s)"
  by (erule base_wfE) (simp only: blockAddress_def unat_clear_low)

lemma unat_blockIndex: "base_wf s \<Longrightarrow> unat (blockIndex s a) = unat a div unat (blkSize s)"
  by (erule base_wfE) (simp only: blockIndex_def unat_drop_bit_div)

lemma unat_pageOffset: "base_wf s \<Longrightarrow> unat (pageOffset s a) = unat a mod unat (pageBytes s)"
  by (erule base_wfE) (simp only: pageOffset_def unat_low_mask unat_exp)

lemma roundDown_page: "base_wf s \<Longrightarrow> \<exists>r. roundDown a (pageBytes s) = Inr r"
  by (simp add: base_wf_def roundDown_def Let_def)

lemma samePage_iff:
  assumes "base_wf s"
  shows "samePage s a b = Inr (unat a div unat (pageBytes s) = unat b div unat (pageBytes s))"
proof -
  obtain x y where r: "roundDown a (pageBytes s) = Inr x" "roundDown b (pageBytes s) = Inr y"
    using roundDown_page [OF assms] by blast
  have "0 < unat (pageBytes s)" using assms by (auto elim!: base_wfE simp: unat_exp)
  then have "x = y \<longleftrightarrow> unat a div unat (pageBytes s) = unat b div unat (pageBytes s)"
    by (simp add: word_unat_eq_iff roundDown_exact [OF r(1)] roundDown_exact [OF r(2)])
  with r show ?thesis by (simp add: samePage_def)
qed

lemma blockAddress_idem [simp]: "base_wf s \<Longrightarrow> blockAddress s (blockAddress s a) = blockAddress s a"
  by (simp add: blockAddress_def and.assoc)

lemma blockAddress_eq_iff:
  assumes "base_wf s"
  shows "blockAddress s a = blockAddress s b \<longleftrightarrow> blockIndex s a = blockIndex s b"
proof -
  have "0 < unat (blkSize s)" using assms by (auto elim!: base_wfE)
  then show ?thesis
    by (simp add: word_unat_eq_iff unat_blockAddress [OF assms] unat_blockIndex [OF assms])
qed

lemma blockAddress_contains:
  assumes "base_wf s"
  shows "blockAddress s a \<le> a" "unat a < unat (blockAddress s a) + unat (blkSize s)"
proof -
  have "0 < unat (blkSize s)" using assms by (auto elim!: base_wfE)
  then show "blockAddress s a \<le> a" "unat a < unat (blockAddress s a) + unat (blkSize s)"
    using div_mult_mod_eq [of "unat a" "unat (blkSize s)"]
      mod_less_divisor [of "unat (blkSize s)" "unat a"]
    unfolding word_le_nat_alt unat_blockAddress [OF assms] by linarith+
qed

lemma pageAddress_offset:
  assumes "base_wf s" "pageAddress s a = Inr p"
  shows "unat p + unat (pageOffset s a) = unat a"
  using roundDown_exact [of a "pageBytes s" p] assms
  by (simp add: pageAddress_def unat_pageOffset)

text \<open>A block does not cross a page boundary when it is not larger than a page.\<close>

lemma samePage_block:
  assumes "base_wf s" "unat (blkSize s) \<le> unat (pageBytes s)"
  shows "samePage s (blockAddress s a) a = Inr True"
proof -
  from assms(1) obtain k p where k: "unat (blkSize s) = 2 ^ k" and p: "unat (pageBytes s) = 2 ^ p"
    by (elim base_wfE) (simp add: unat_exp)
  with assms(2) have "k \<le> p" by (simp add: power_le_imp_le_exp)
  then obtain d where d: "p = k + d" using le_Suc_ex by blast
  have "unat a div 2 ^ k * 2 ^ k div 2 ^ p = unat a div 2 ^ p"
    by (simp add: d power_add flip: div_mult2_eq)
  then show ?thesis by (simp add: samePage_iff [OF assms(1)] unat_blockAddress [OF assms(1)] k p)
qed

end
