(* ===== verification/QueuedPrefetcher.thy ===== *)
theory QueuedPrefetcher
  imports PrefetchBase "HOL-Library.Multiset"
begin

text \<open>
  The queued prefetcher (\<open>mem/cache/prefetch/queued.hh\<close>, \<open>queued.cc\<close>): candidates of the
  virtual \<open>calculatePrefetch\<close> become deferred packets in one of two linked lists,
  ready ones and ones that wait for an address translation. A list node is its
  identity (the pointer the MMU keeps) and its packet; swapping two packets
  leaves the identities in place, as \<open>std::swap\<close> on list elements does. What is
  outside the class is an argument: the current tick, the answers of the MMU and
  of the cache. A translation the MMU answers at once and one it answers later
  (\<open>finish\<close> as an event of its own) are both covered.
\<close>

section \<open>Data\<close>

record DeferredPacket =
  pfInfo :: PrefetchInfo
  dp_tick :: Tick
  dp_pkt :: "Packet option"
  priority :: int
  translationRequest :: "Request option"
  ongoingTranslation :: bool

type_synonym node = "nat \<times> DeferredPacket"

record QueuedStats =
  pfIdentified :: nat
  pfBufferHit :: nat
  pfInCache :: nat
  pfRemovedDemand :: nat
  pfRemovedFull :: nat
  pfSpanPage :: nat
  pfUsefulSpanPage :: nat

record QueuedPf = BasePf +
  pfq :: "node list"
  pfqMissingTranslation :: "node list"
  nextNode :: nat
  queueSize :: u32
  missingTranslationQueueSize :: u32
  latency :: u64
  clockPeriod :: Tick
  queueSquash :: bool
  queueFilter :: bool
  cacheSnoop :: bool
  tagPrefetch :: bool
  throttleControlPct :: u32
  statsQueued :: QueuedStats

type_synonym AddrPriority = "Addr \<times> int"

datatype TransReply = Delayed | Faulted | Translated Addr

record Env =
  curTick :: Tick
  env_translate :: "Request \<Rightarrow> TransReply"
  env_cache :: CacheAccessor

definition MaxTick :: Tick where
  "MaxTick = - 1"

section \<open>Construction\<close>

definition zeroQueuedStats :: QueuedStats where
  "zeroQueuedStats = \<lparr>pfIdentified = 0, pfBufferHit = 0, pfInCache = 0, pfRemovedDemand = 0,
     pfRemovedFull = 0, pfSpanPage = 0, pfUsefulSpanPage = 0\<rparr>"

text \<open>After the base class; \<open>period\<close> is the clock period of the simulation object.\<close>

definition newQueuedPf ::
  "u32 \<Rightarrow> u32 \<Rightarrow> u64 \<Rightarrow> bool \<Rightarrow> bool \<Rightarrow> bool \<Rightarrow> bool \<Rightarrow> u32 \<Rightarrow> Tick \<Rightarrow> BasePf \<Rightarrow> QueuedPf" where
  "newQueuedPf qsize tsize lat squashing filtering snoop tag pct period b =
     BasePf.extend b
       \<lparr>pfq = [], pfqMissingTranslation = [], nextNode = 0, queueSize = qsize,
        missingTranslationQueueSize = tsize, latency = lat, clockPeriod = period,
        queueSquash = squashing, queueFilter = filtering, cacheSnoop = snoop, tagPrefetch = tag,
        throttleControlPct = pct, statsQueued = zeroQueuedStats\<rparr>"

section \<open>Deferred packets\<close>

definition newDeferredPacket :: "PrefetchInfo \<Rightarrow> Tick \<Rightarrow> int \<Rightarrow> DeferredPacket" where
  "newDeferredPacket pfi t prio =
     \<lparr>pfInfo = pfi, dp_tick = t, dp_pkt = None, priority = prio, translationRequest = None,
      ongoingTranslation = False\<rparr>"

definition createPkt ::
  "Addr \<Rightarrow> u32 \<Rightarrow> 16 word \<Rightarrow> bool \<Rightarrow> Tick \<Rightarrow> DeferredPacket \<Rightarrow> DeferredPacket result" where
  "createPkt paddr blk_size requestor_id tag_prefetch t dp =
     (let r = physRequest paddr blk_size 0 requestor_id;
          r = (if pf_secure (pfInfo dp) then setFlags SECURE r else r)
      in bindR (newPacket r HardPFReq) (\<lambda>p.
         if tag_prefetch \<and> pf_validPC (pfInfo dp) then
           bindR (getPC (pfInfo dp)) (\<lambda>pc.
             Inr (dp\<lparr>dp_pkt := Some (p\<lparr>req := (req p)\<lparr>req_pc := Some pc\<rparr>\<rparr>), dp_tick := t\<rparr>))
         else Inr (dp\<lparr>dp_pkt := Some p, dp_tick := t\<rparr>)))"

definition createPrefetchRequest ::
  "'a QueuedPf_scheme \<Rightarrow> Addr \<Rightarrow> PrefetchInfo \<Rightarrow> Packet \<Rightarrow> Request result" where
  "createPrefetchRequest s addr pfi pkt =
     bindR (getPC pfi) (\<lambda>pc.
       case req_context (req pkt) of
         None \<Rightarrow> Inl (AssertFailed ''contextId'')
       | Some cid \<Rightarrow>
           Inr (setFlags PREFETCH
                 (virtRequest addr (blkSize s) (req_flags (req pkt)) (requestorId s) pc cid)))"

section \<open>The lists\<close>

text \<open>The loop of \<open>addToQueue\<close> that looks for the oldest packet of the last priority level.\<close>

fun victim_index :: "node list \<Rightarrow> nat \<Rightarrow> nat" where
  "victim_index q 0 = 0"
| "victim_index q (Suc p) =
     (if priority (snd (q ! p)) = priority (snd (q ! Suc p)) then victim_index q p else Suc p)"

text \<open>Its loop for the insertion point: from the back, past packets of lower priority.\<close>

fun scan_pos :: "node list \<Rightarrow> int \<Rightarrow> nat \<Rightarrow> nat" where
  "scan_pos q prio 0 = 0"
| "scan_pos q prio (Suc k) = (if prio > priority (snd (q ! Suc k)) then scan_pos q prio k else Suc k)"

definition erase_at :: "nat \<Rightarrow> 'a list \<Rightarrow> 'a list" where
  "erase_at i q = take i q @ drop (Suc i) q"

definition insert_at :: "nat \<Rightarrow> 'a \<Rightarrow> 'a list \<Rightarrow> 'a list" where
  "insert_at i x q = take i q @ x # drop i q"

definition make_room :: "u32 \<Rightarrow> node list \<Rightarrow> (node list \<times> bool) result" where
  "make_room sz q =
     (if length q \<noteq> unat sz then Inr (q, False)
      else if q = [] then Inl (Panic ''Prefetch queue is both full and empty!'')
      else if length q = 1 then Inl (Panic ''Prefetch queue is full with 1 element!'')
      else Inr (erase_at (victim_index q (length q - 1)) q, True))"

definition place :: "node \<Rightarrow> node list \<Rightarrow> node list" where
  "place n q =
     (if q = [] \<or> priority (snd n) \<le> priority (snd (last q)) then q @ [n]
      else let i = scan_pos q (priority (snd n)) (length q - 1);
               i = (if i = 0 \<and> priority (snd n) \<le> priority (snd (q ! 0)) then 1 else i)
           in insert_at i n q)"

definition addToQueue :: "u32 \<Rightarrow> node \<Rightarrow> node list \<Rightarrow> (node list \<times> bool) result" where
  "addToQueue sz n q =
     bindR (make_room sz q) (\<lambda>(q', removed). Inr (place n q', removed))"

definition swap_packets :: "nat \<Rightarrow> nat \<Rightarrow> node list \<Rightarrow> node list" where
  "swap_packets i j q = q[i := (fst (q ! i), snd (q ! j)), j := (fst (q ! j), snd (q ! i))]"

text \<open>The loop of \<open>alreadyInQueue\<close> that moves a packet whose priority grew towards the head.\<close>

fun bubble :: "node list \<Rightarrow> nat \<Rightarrow> nat \<Rightarrow> node list" where
  "bubble q it 0 = q"
| "bubble q it (Suc p) =
     (if priority (snd (q ! it)) > priority (snd (q ! p))
      then bubble (swap_packets it p q) p p else bubble q it p)"

text \<open>Position of the first packet of the same address; the source's iterator stands one
  past it when its loop ends.\<close>

fun find_same :: "PrefetchInfo \<Rightarrow> node list \<Rightarrow> nat option" where
  "find_same pfi [] = None"
| "find_same pfi (n # q) =
     (if sameAddr (pfInfo (snd n)) pfi then Some 0 else map_option Suc (find_same pfi q))"

definition set_priority :: "nat \<Rightarrow> int \<Rightarrow> node list \<Rightarrow> node list" where
  "set_priority i prio q = q[i := (fst (q ! i), (snd (q ! i))\<lparr>priority := prio\<rparr>)]"

text \<open>Result: whether the address was found, the queue after, and whether the hit was counted.\<close>

definition alreadyInQueue :: "node list \<Rightarrow> PrefetchInfo \<Rightarrow> int \<Rightarrow> bool \<times> node list \<times> bool" where
  "alreadyInQueue q pfi prio =
     (case find_same pfi q of
        None \<Rightarrow> (False, q, False)
      | Some i \<Rightarrow>
          let it = i + 1
          in if it < length q then
               if priority (snd (q ! it)) < prio
               then (True, bubble (set_priority it prio q) it it, True)
               else (True, q, True)
             else (True, q, False))"

section \<open>Operations of the prefetcher\<close>

abbreviation count_stat ::
  "(QueuedStats \<Rightarrow> QueuedStats) \<Rightarrow> 'a QueuedPf_scheme \<Rightarrow> 'a QueuedPf_scheme" where
  "count_stat f s \<equiv> s\<lparr>statsQueued := f (statsQueued s)\<rparr>"

definition count_if :: "bool \<Rightarrow> nat \<Rightarrow> nat" where
  "count_if b n = (if b then n + 1 else n)"

definition addPfq :: "DeferredPacket \<Rightarrow> 'a QueuedPf_scheme \<Rightarrow> 'a QueuedPf_scheme result" where
  "addPfq dp s =
     bindR (addToQueue (queueSize s) (nextNode s, dp) (pfq s)) (\<lambda>(q, removed).
       Inr (count_stat (pfRemovedFull_update (count_if removed))
              (s\<lparr>pfq := q, nextNode := nextNode s + 1\<rparr>)))"

definition addMissing :: "DeferredPacket \<Rightarrow> 'a QueuedPf_scheme \<Rightarrow> 'a QueuedPf_scheme result" where
  "addMissing dp s =
     bindR (addToQueue (queueSize s) (nextNode s, dp) (pfqMissingTranslation s)) (\<lambda>(q, removed).
       Inr (count_stat (pfRemovedFull_update (count_if removed))
              (s\<lparr>pfqMissingTranslation := q, nextNode := nextNode s + 1\<rparr>)))"

definition redundant :: "'a QueuedPf_scheme \<Rightarrow> CacheAccessor \<Rightarrow> Addr \<Rightarrow> bool \<Rightarrow> bool" where
  "redundant s c paddr secure \<longleftrightarrow>
     cacheSnoop s \<and> (inCache c paddr secure \<or> inMissQueue c paddr secure)"

definition pf_time :: "Env \<Rightarrow> 'a QueuedPf_scheme \<Rightarrow> Tick" where
  "pf_time env s = curTick env + clockPeriod s * latency s"

text \<open>The end of \<open>insert\<close> for a candidate whose physical address is known, and for one that
  needs a translation.\<close>

definition insertReady ::
  "Env \<Rightarrow> PrefetchInfo \<Rightarrow> int \<Rightarrow> Addr \<Rightarrow> 'a QueuedPf_scheme \<Rightarrow> 'a QueuedPf_scheme result" where
  "insertReady env new_pfi prio target_paddr s =
     (if redundant s (env_cache env) target_paddr (pf_secure new_pfi)
      then Inr (count_stat (pfInCache_update Suc) s)
      else bindR (createPkt target_paddr (blkSize s) (requestorId s) (tagPrefetch s)
                    (pf_time env s) (newDeferredPacket new_pfi 0 prio)) (\<lambda>dpp. addPfq dpp s))"

definition insertPending ::
  "Packet \<Rightarrow> PrefetchInfo \<Rightarrow> int \<Rightarrow> Addr \<Rightarrow> 'a QueuedPf_scheme \<Rightarrow> 'a QueuedPf_scheme result" where
  "insertPending pkt new_pfi prio target_vaddr s =
     bindR (createPrefetchRequest s target_vaddr new_pfi pkt) (\<lambda>r.
       addMissing ((newDeferredPacket new_pfi 0 prio)\<lparr>translationRequest := Some r\<rparr>) s)"

text \<open>\<open>insert\<close> after the filter on the two lists: the physical address within the page of the
  access, or the virtual address to translate across pages. The context of the request names a
  thread of the system, which the code looks up without a check.\<close>

definition insertNew ::
  "Env \<Rightarrow> Packet \<Rightarrow> PrefetchInfo \<Rightarrow> int \<Rightarrow> 'a QueuedPf_scheme \<Rightarrow> 'a QueuedPf_scheme result" where
  "insertNew env pkt new_pfi prio s =
     bindR (if useVirtualAddresses s then getVaddr (req pkt) else getPaddr (req pkt)) (\<lambda>orig_addr.
     let addr = pf_address new_pfi;
         positive_stride = (addr \<ge> orig_addr);
         stride = (if positive_stride then addr - orig_addr else orig_addr - addr);
         shift = (\<lambda>a. if positive_stride then a + stride else a - stride)
     in bindR (samePage s orig_addr addr) (\<lambda>same.
        if same then
          (if useVirtualAddresses s
           then bindR (getPaddr (req pkt)) (\<lambda>pa. insertReady env new_pfi prio (shift pa) s)
           else insertReady env new_pfi prio addr s)
        else if req_context (req pkt) = None then Inr s
        else if useVirtualAddresses s then insertPending pkt new_pfi prio addr s
        else (case req_vaddr (req pkt) of
                Some va \<Rightarrow> insertPending pkt new_pfi prio (shift va) s
              | None \<Rightarrow> Inr s)))"

definition insert_pf ::
  "Env \<Rightarrow> Packet \<Rightarrow> PrefetchInfo \<Rightarrow> int \<Rightarrow> 'a QueuedPf_scheme \<Rightarrow> 'a QueuedPf_scheme result" where
  "insert_pf env pkt new_pfi prio s =
     (if queueFilter s then
        (let (found, q, counted) = alreadyInQueue (pfq s) new_pfi prio;
             s1 = count_stat (pfBufferHit_update (count_if counted)) (s\<lparr>pfq := q\<rparr>)
         in if found then Inr s1
            else let (found, q, counted) = alreadyInQueue (pfqMissingTranslation s1) new_pfi prio;
                     s2 = count_stat (pfBufferHit_update (count_if counted))
                            (s1\<lparr>pfqMissingTranslation := q\<rparr>)
                 in if found then Inr s2 else insertNew env pkt new_pfi prio s2)
      else insertNew env pkt new_pfi prio s)"

definition getMaxPermittedPrefetches :: "'a QueuedPf_scheme \<Rightarrow> u64 \<Rightarrow> u64" where
  "getMaxPermittedPrefetches s tot =
     (if tot > 0 \<and> issuedPrefetches s > 0 then
        let throttle_pfs = (tot * ucast (throttleControlPct s)) div 100;
            min_pfs = (if tot - throttle_pfs = 0 then 1 else tot - throttle_pfs)
        in min_pfs + (tot - min_pfs) * usefulPrefetches s div issuedPrefetches s
      else tot)"

definition squash :: "Addr \<Rightarrow> bool \<Rightarrow> 'a QueuedPf_scheme \<Rightarrow> 'a QueuedPf_scheme" where
  "squash blk_addr secure s =
     (let keep = (\<lambda>n. \<not> (blockAddress s (pf_address (pfInfo (snd n))) = blk_addr \<and>
                         pf_secure (pfInfo (snd n)) = secure))
      in count_stat (pfRemovedDemand_update (\<lambda>n. n + length (filter (Not \<circ> keep) (pfq s))))
           (s\<lparr>pfq := filter keep (pfq s)\<rparr>))"

text \<open>The loop over the candidates with its early exit; \<open>note_candidate\<close> is the part of its
  body that counts page crossings, with the answer of \<open>samePage\<close>.\<close>

definition note_candidate ::
  "Env \<Rightarrow> Packet \<Rightarrow> PrefetchInfo \<Rightarrow> Addr \<Rightarrow> 'a QueuedPf_scheme \<Rightarrow> (bool \<times> 'a QueuedPf_scheme) result" where
  "note_candidate env pkt pfi addr s =
     bindR (samePage s addr (pf_address pfi)) (\<lambda>same.
       if same then Inr (True, s)
       else bindR (getAddr pkt) (\<lambda>pa.
              Inr (False, count_stat (pfSpanPage_update Suc \<circ>
                     pfUsefulSpanPage_update
                       (count_if (hasBeenPrefetched (env_cache env) pa (pkt_secure pkt)))) s)))"

fun queue_candidates ::
  "Env \<Rightarrow> Packet \<Rightarrow> PrefetchInfo \<Rightarrow> u64 \<Rightarrow> u64 \<Rightarrow> AddrPriority list \<Rightarrow>
   'a QueuedPf_scheme \<Rightarrow> 'a QueuedPf_scheme result" where
  "queue_candidates env pkt pfi max_pfs num_pfs [] s = Inr s"
| "queue_candidates env pkt pfi max_pfs num_pfs ((a, prio) # rest) s =
     bindR (note_candidate env pkt pfi (blockAddress s a) s) (\<lambda>(same, s1).
       if mmu s1 \<or> same then
         bindR (insert_pf env pkt (derivePrefetchInfo pfi (blockAddress s a)) prio
                 (count_stat (pfIdentified_update Suc) s1)) (\<lambda>s2.
           if num_pfs + 1 = max_pfs then Inr s2
           else queue_candidates env pkt pfi max_pfs (num_pfs + 1) rest s2)
       else queue_candidates env pkt pfi max_pfs num_pfs rest s1)"

definition notify_queued ::
  "(PrefetchInfo \<Rightarrow> CacheAccessor \<Rightarrow> 'a QueuedPf_scheme \<Rightarrow>
      (AddrPriority list \<times> 'a QueuedPf_scheme) result) \<Rightarrow>
   Env \<Rightarrow> Packet \<Rightarrow> PrefetchInfo \<Rightarrow> 'a QueuedPf_scheme \<Rightarrow> 'a QueuedPf_scheme result" where
  "notify_queued calculatePrefetch env pkt pfi s =
     (let s1 = (if queueSquash s
                then squash (blockAddress s (pf_address pfi)) (pf_secure pfi) s else s)
      in bindR (calculatePrefetch pfi (env_cache env) s1) (\<lambda>(addresses, s2).
           queue_candidates env pkt pfi
             (getMaxPermittedPrefetches s2 (of_nat (length addresses))) 0 addresses s2))"

section \<open>Translations and issue\<close>

definition find_node :: "nat \<Rightarrow> node list \<Rightarrow> DeferredPacket option" where
  "find_node i q = map_of q i"

definition update_node :: "nat \<Rightarrow> (DeferredPacket \<Rightarrow> DeferredPacket) \<Rightarrow> node list \<Rightarrow> node list" where
  "update_node i f q = map (\<lambda>(j, d). if j = i then (j, f d) else (j, d)) q"

definition erase_node :: "nat \<Rightarrow> node list \<Rightarrow> node list" where
  "erase_node i q = filter (\<lambda>n. fst n \<noteq> i) q"

text \<open>\<open>Some\<close> physical address: the translation succeeded; \<open>None\<close>: it failed.\<close>

definition translationComplete ::
  "Env \<Rightarrow> nat \<Rightarrow> Addr option \<Rightarrow> 'a QueuedPf_scheme \<Rightarrow> 'a QueuedPf_scheme result" where
  "translationComplete env i reply s =
     (case find_node i (pfqMissingTranslation s) of
        None \<Rightarrow> Inl (AssertFailed ''translationComplete'')
      | Some dp \<Rightarrow>
          bindR (case reply of
                   None \<Rightarrow> Inr s
                 | Some target_paddr \<Rightarrow>
                     if redundant s (env_cache env) target_paddr (pf_secure (pfInfo dp))
                     then Inr (count_stat (pfInCache_update Suc) s)
                     else bindR (createPkt target_paddr (blkSize s) (requestorId s) (tagPrefetch s)
                                   (pf_time env s) dp) (\<lambda>dp. addPfq dp s)) (\<lambda>s.
            Inr (s\<lparr>pfqMissingTranslation := erase_node i (pfqMissingTranslation s)\<rparr>)))"

text \<open>A reply for a node that is no longer in the list is a use of a dangling pointer.\<close>

definition finish ::
  "Env \<Rightarrow> nat \<Rightarrow> Addr option \<Rightarrow> 'a QueuedPf_scheme \<Rightarrow> 'a QueuedPf_scheme result" where
  "finish env i reply s =
     (case find_node i (pfqMissingTranslation s) of
        None \<Rightarrow> Inl (NullDeref ''DeferredPacket'')
      | Some dp \<Rightarrow>
          if \<not> ongoingTranslation dp then Inl (AssertFailed ''ongoingTranslation'')
          else translationComplete env i reply
                 (s\<lparr>pfqMissingTranslation :=
                     update_node i (ongoingTranslation_update (\<lambda>_. False)) (pfqMissingTranslation s)\<rparr>))"

text \<open>The code calls the MMU without a check that one is registered. When none is, \<open>notify\<close> drops the
  candidates in other pages, so that no translation is ever waiting. The answer of the MMU is an
  argument.\<close>

definition startTranslation ::
  "Env \<Rightarrow> nat \<Rightarrow> 'a QueuedPf_scheme \<Rightarrow> 'a QueuedPf_scheme result" where
  "startTranslation env i s =
     (case find_node i (pfqMissingTranslation s) of
        None \<Rightarrow> Inl (NullDeref ''DeferredPacket'')
      | Some dp \<Rightarrow>
          (case translationRequest dp of
             None \<Rightarrow> Inl (AssertFailed ''translationRequest'')
           | Some r \<Rightarrow>
               if ongoingTranslation dp then Inr s
               else let s1 = s\<lparr>pfqMissingTranslation :=
                              update_node i (ongoingTranslation_update (\<lambda>_. True))
                                (pfqMissingTranslation s)\<rparr>
                    in (case env_translate env r of
                          Delayed \<Rightarrow> Inr s1
                        | Faulted \<Rightarrow> finish env i None s1
                        | Translated pa \<Rightarrow> finish env i (Some pa) s1)))"

fun start_all :: "Env \<Rightarrow> nat list \<Rightarrow> 'a QueuedPf_scheme \<Rightarrow> 'a QueuedPf_scheme result" where
  "start_all env [] s = Inr s"
| "start_all env (i # is) s = bindR (startTranslation env i s) (start_all env is)"

definition processMissingTranslations ::
  "Env \<Rightarrow> u32 \<Rightarrow> 'a QueuedPf_scheme \<Rightarrow> 'a QueuedPf_scheme result" where
  "processMissingTranslations env mx s =
     start_all env (take (unat mx) (map fst (pfqMissingTranslation s))) s"

definition getPacket ::
  "Env \<Rightarrow> 'a QueuedPf_scheme \<Rightarrow> (Packet option \<times> 'a QueuedPf_scheme) result" where
  "getPacket env s =
     bindR (if pfq s = [] then processMissingTranslations env (queueSize s) s else Inr s) (\<lambda>s.
     case pfq s of
       [] \<Rightarrow> Inr (None, s)
     | n # q \<Rightarrow>
         let s1 = s\<lparr>pfq := q,
                    prefetchStats := (prefetchStats s)\<lparr>pfIssued := pfIssued (prefetchStats s) + 1\<rparr>,
                    issuedPrefetches := issuedPrefetches s + 1\<rparr>
         in (case dp_pkt (snd n) of
               None \<Rightarrow> Inl (AssertFailed ''pkt != nullptr'')
             | Some p \<Rightarrow>
                 bindR (processMissingTranslations env
                          (ucast (ucast (queueSize s1) - of_nat (length q) :: u64)) s1) (\<lambda>s2.
                   Inr (Some p, s2))))"

definition nextPrefetchReadyTime :: "'a QueuedPf_scheme \<Rightarrow> Tick" where
  "nextPrefetchReadyTime s = (case pfq s of [] \<Rightarrow> MaxTick | n # _ \<Rightarrow> dp_tick (snd n))"

section \<open>Facts on the lists\<close>

text \<open>A packet up to its priority, and the address it is filtered by.\<close>

definition core :: "DeferredPacket \<Rightarrow> DeferredPacket" where
  "core d = d\<lparr>priority := 0\<rparr>"

definition cores :: "node list \<Rightarrow> DeferredPacket multiset" where
  "cores q = mset (map (core \<circ> snd) q)"

definition dkey :: "DeferredPacket \<Rightarrow> Addr \<times> bool" where
  "dkey d = (pf_address (pfInfo d), pf_secure (pfInfo d))"

lemma core_simps [simp]:
  "pfInfo (core d) = pfInfo d" "dp_pkt (core d) = dp_pkt d" "dp_tick (core d) = dp_tick d"
  "translationRequest (core d) = translationRequest d"
  "ongoingTranslation (core d) = ongoingTranslation d" "dkey (core d) = dkey d"
  by (simp_all add: core_def dkey_def)

lemma core_priority [simp]: "core (d\<lparr>priority := x\<rparr>) = core d"
  by (simp add: core_def)

lemma cores_simps [simp]:
  "cores [] = {#}" "cores (n # q) = add_mset (core (snd n)) (cores q)" "cores (p @ q) = cores p + cores q"
  by (simp_all add: cores_def)

lemma set_mset_cores: "set_mset (cores q) = (core \<circ> snd) ` set q"
  by (simp add: cores_def)

lemma size_cores [simp]: "size (cores q) = length q"
  by (simp add: cores_def)

lemma mset_insert_at: "mset (insert_at i x q) = add_mset x (mset q)"
proof -
  have "mset q = mset (take i q) + mset (drop i q)" by (metis append_take_drop_id mset_append)
  then show ?thesis by (simp add: insert_at_def)
qed

lemma mset_erase_at: "i < length q \<Longrightarrow> add_mset (q ! i) (mset (erase_at i q)) = mset q"
  by (metis erase_at_def id_take_nth_drop mset.simps(2) mset_append union_mset_add_mset_right)

lemma length_erase_at: "i < length q \<Longrightarrow> length (erase_at i q) = length q - 1"
  by (simp add: erase_at_def)

lemma victim_index_le: "victim_index q k \<le> k"
  by (induction k) (auto simp: le_SucI)

lemma mset_place: "mset (place n q) = add_mset n (mset q)"
  by (simp add: place_def Let_def mset_insert_at)

lemma make_room_cases:
  assumes "make_room sz q = Inr (r, removed)"
  obtains "length q \<noteq> unat sz" "r = q"
  | i where "length q = unat sz" "i < length q" "r = erase_at i q"
proof (cases "length q = unat sz")
  case True
  with assms have r: "q \<noteq> []" "r = erase_at (victim_index q (length q - 1)) q"
    unfolding make_room_def by (simp_all split: if_splits)
  have "victim_index q (length q - 1) < length q"
    using victim_index_le [of q "length q - 1"] r(1) by (cases q) auto
  then show thesis using True r(2) by (intro that(2)) auto
next
  case False
  with assms have "r = q" by (simp add: make_room_def)
  with False show thesis by (rule that(1))
qed

lemma addToQueue_facts:
  assumes "addToQueue sz n q = Inr (q', removed)" "length q \<le> unat sz"
  shows "length q' \<le> unat sz" "mset q' \<subseteq># add_mset n (mset q)" "n \<in> set q'"
proof -
  from assms(1) obtain r where r: "make_room sz q = Inr (r, removed)" and q': "q' = place n r"
    by (auto simp: addToQueue_def)
  have m: "mset q' = add_mset n (mset r)" by (simp add: q' mset_place)
  show "n \<in> set q'" using m by (metis set_mset_mset union_single_eq_member)
  have len: "length q' = Suc (length r)" using arg_cong [OF m, of size] by simp
  have "length r < unat sz \<and> mset r \<subseteq># mset q"
    using r
  proof (cases rule: make_room_cases)
    case 1
    with assms(2) show ?thesis by simp
  next
    case (2 i)
    then have "mset q = add_mset (q ! i) (mset r)" using mset_erase_at by metis
    with 2 show ?thesis by (simp add: length_erase_at)
  qed
  then show "length q' \<le> unat sz" "mset q' \<subseteq># add_mset n (mset q)" by (simp_all add: len m)
qed

lemma addToQueue_ok: "unat sz \<ge> 2 \<Longrightarrow> \<exists>r. addToQueue sz n q = Inr r"
  by (auto simp: addToQueue_def make_room_def)

text \<open>Raising a priority permutes packets over the same nodes.\<close>

lemma map_fst_swap [simp]:
  "i < length q \<Longrightarrow> j < length q \<Longrightarrow> map fst (swap_packets i j q) = map fst q"
  unfolding swap_packets_def map_update fst_conv by (metis list_update_id nth_map)

lemma cores_update:
  assumes "i < length q"
  shows "cores (q[i := n]) = cores q - {#core (snd (q ! i))#} + {#core (snd n)#}"
  using assms by (simp add: cores_def map_update mset_update)

lemma cores_swap [simp]:
  assumes "i < length q" "j < length q"
  shows "cores (swap_packets i j q) = cores q"
proof -
  have "map snd (swap_packets i j q) = (map snd q)[i := map snd q ! j, j := map snd q ! i]"
    using assms by (simp add: swap_packets_def map_update)
  moreover have "mset ((map snd q)[i := map snd q ! j, j := map snd q ! i]) = mset (map snd q)"
    using assms by (intro mset_swap) simp_all
  ultimately have "mset (map snd (swap_packets i j q)) = mset (map snd q)" by simp
  then have "image_mset core (mset (map snd (swap_packets i j q))) = image_mset core (mset (map snd q))"
    by simp
  then show ?thesis by (simp add: cores_def multiset.map_comp)
qed

lemma bubble_facts:
  assumes "it < length q" "p \<le> it"
  shows "map fst (bubble q it p) = map fst q \<and> cores (bubble q it p) = cores q"
  using assms
proof (induction q it p rule: bubble.induct)
  case (2 q it p)
  have "length (swap_packets it p q) = length q" by (simp add: swap_packets_def)
  with 2 show ?case by auto
qed simp

lemma set_priority_facts [simp]:
  assumes "i < length q"
  shows "map fst (set_priority i x q) = map fst q" "cores (set_priority i x q) = cores q"
  using assms
  by (auto simp: set_priority_def cores_update set_mset_cores map_update list_update_same_conv
      intro!: list_update_same_conv [THEN iffD2])

lemma find_same_None: "find_same pfi q = None \<longleftrightarrow> (\<forall>n \<in> set q. \<not> sameAddr (pfInfo (snd n)) pfi)"
  by (induction q) auto

lemma find_same_Some: "find_same pfi q = Some i \<Longrightarrow> i < length q \<and> sameAddr (pfInfo (snd (q ! i))) pfi"
  by (induction q arbitrary: i) (auto split: if_splits)

lemma alreadyInQueue_facts:
  assumes "alreadyInQueue q pfi prio = (found, q', counted)"
  shows "map fst q' = map fst q" "cores q' = cores q"
    "found \<longleftrightarrow> (\<exists>n \<in> set q. sameAddr (pfInfo (snd n)) pfi)"
proof -
  have b: "map fst (bubble (set_priority i prio q) i i) = map fst q
      \<and> cores (bubble (set_priority i prio q) i i) = cores q" if "i < length q" for i
  proof -
    have "length (set_priority i prio q) = length q" by (simp add: set_priority_def)
    with that show ?thesis using bubble_facts [of i "set_priority i prio q" i] by simp
  qed
  show "map fst q' = map fst q" "cores q' = cores q"
    using assms b
    by (auto simp: alreadyInQueue_def Let_def simp del: bubble.simps split: option.splits if_splits)
  show "found \<longleftrightarrow> (\<exists>n \<in> set q. sameAddr (pfInfo (snd n)) pfi)"
  proof (cases "find_same pfi q")
    case None
    then show ?thesis using assms find_same_None [of pfi q] by (simp add: alreadyInQueue_def)
  next
    case (Some i)
    then have "\<exists>n \<in> set q. sameAddr (pfInfo (snd n)) pfi" using find_same_Some [OF Some] by auto
    then show ?thesis using assms Some by (auto simp: alreadyInQueue_def Let_def split: if_splits)
  qed
qed

end
