(* ===== verification/QueuedInvariants.thy ===== *)
theory QueuedInvariants
  imports QueuedPrefetcher
begin

text \<open>
  The invariant of the queued prefetcher and its preservation by every operation:
  the two lists stay within the configured size, the nodes of the waiting list
  are distinct, a ready packet is a complete prefetch request of the block size,
  addresses are block aligned, and with the filter on no address is queued twice.
  The contract of the virtual \<open>calculatePrefetch\<close> is the locale \<open>prefetch_generator\<close>.
\<close>

section \<open>Invariant\<close>

definition ready :: "u32 \<Rightarrow> DeferredPacket \<Rightarrow> bool" where
  "ready blk d \<longleftrightarrow>
     (case dp_pkt d of
        None \<Rightarrow> False
      | Some p \<Rightarrow> cmd p = HardPFReq \<and> pkt_size p = blk \<and> pkt_addr p \<noteq> None \<and>
          pkt_secure p = pf_secure (pfInfo d))"

definition waiting :: "DeferredPacket \<Rightarrow> bool" where
  "waiting d \<longleftrightarrow> translationRequest d \<noteq> None"

definition aligned :: "'a BasePf_scheme \<Rightarrow> DeferredPacket \<Rightarrow> bool" where
  "aligned s d \<longleftrightarrow> blockAddress s (pf_address (pfInfo d)) = pf_address (pfInfo d)"

definition queued_wf :: "'a QueuedPf_scheme \<Rightarrow> bool" where
  "queued_wf s \<longleftrightarrow>
     length (pfq s) \<le> unat (queueSize s) \<and> length (pfqMissingTranslation s) \<le> unat (queueSize s) \<and>
     distinct (map fst (pfqMissingTranslation s)) \<and>
     list_all (\<lambda>i. i < nextNode s) (map fst (pfqMissingTranslation s)) \<and>
     list_all (\<lambda>n. ready (blkSize s) (snd n) \<and> aligned s (snd n)) (pfq s) \<and>
     list_all (\<lambda>n. waiting (snd n) \<and> aligned s (snd n)) (pfqMissingTranslation s) \<and>
     (queueFilter s \<longrightarrow> distinct (map (dkey \<circ> snd) (pfq s @ pfqMissingTranslation s)))"

lemma newQueuedPf_wf: "queued_wf (newQueuedPf qsize tsize lat squashing filtering snoop tag pct period b)"
  by (simp add: queued_wf_def newQueuedPf_def BasePf.defs)

text \<open>The same over the bags of packets, which the list operations act on.\<close>

definition keys :: "'a QueuedPf_scheme \<Rightarrow> (Addr \<times> bool) multiset" where
  "keys s = image_mset dkey (cores (pfq s) + cores (pfqMissingTranslation s))"

definition unique :: "'k multiset \<Rightarrow> bool" where
  "unique m \<longleftrightarrow> (\<forall>k. count m k \<le> 1)"

lemma unique_mono: "m \<subseteq># m' \<Longrightarrow> unique m' \<Longrightarrow> unique m"
  unfolding unique_def by (meson le_trans mset_subset_eq_count)

lemma unique_add: "unique m \<Longrightarrow> k \<notin># m \<Longrightarrow> unique (add_mset k m)"
  by (simp add: unique_def not_in_iff)

lemma unique_addD: "unique (add_mset k m) \<Longrightarrow> k \<notin># m"
  unfolding unique_def not_in_iff by (drule spec [of _ k]) simp

lemma distinct_unique: "distinct xs \<longleftrightarrow> unique (mset xs)"
  by (simp add: unique_def distinct_count_atmost_1)
    (metis (full_types) One_nat_def count_eq_zero_iff le_SucE le_zero_eq order_refl set_mset_mset zero_le)

lemma image_dkey_cores: "image_mset dkey (cores q) = mset (map (dkey \<circ> snd) q)"
  by (induction q) simp_all

lemma list_all_cores:
  assumes "\<And>d. P (core d) = P d"
  shows "list_all (\<lambda>n. P (snd n)) q \<longleftrightarrow> (\<forall>d \<in># cores q. P d)"
  using assms by (induction q) auto

lemma ready_core [simp]: "ready b (core d) = ready b d"
  by (simp add: ready_def split: option.split)

lemma waiting_core [simp]: "waiting (core d) = waiting d"
  by (simp add: waiting_def)

lemma aligned_core [simp]: "aligned s (core d) = aligned s d"
  by (simp add: aligned_def)

lemma queued_wf_iff:
  "queued_wf s \<longleftrightarrow>
     size (cores (pfq s)) \<le> unat (queueSize s) \<and>
     size (cores (pfqMissingTranslation s)) \<le> unat (queueSize s) \<and>
     distinct (map fst (pfqMissingTranslation s)) \<and>
     list_all (\<lambda>i. i < nextNode s) (map fst (pfqMissingTranslation s)) \<and>
     (\<forall>d \<in># cores (pfq s). ready (blkSize s) d \<and> aligned s d) \<and>
     (\<forall>d \<in># cores (pfqMissingTranslation s). waiting d \<and> aligned s d) \<and>
     (queueFilter s \<longrightarrow> unique (keys s))"
proof -
  have "distinct (map (dkey \<circ> snd) (pfq s @ pfqMissingTranslation s)) \<longleftrightarrow> unique (keys s)"
    unfolding distinct_unique keys_def by (simp only: image_mset_union image_dkey_cores map_append mset_append)
  then show ?thesis
    unfolding queued_wf_def
    by (simp add: list_all_cores [of "\<lambda>d. ready (blkSize s) d \<and> aligned s d"]
        list_all_cores [of "\<lambda>d. waiting d \<and> aligned s d"])
qed

text \<open>What no operation changes: the parameters, and the part of a derived class.\<close>

definition config :: "'a QueuedPf_scheme \<Rightarrow> QueuedPf" where
  "config s = (QueuedPf.truncate s)\<lparr>pfq := [], pfqMissingTranslation := [], nextNode := 0,
     statsQueued := \<lparr>pfIdentified = 0, pfBufferHit = 0, pfInCache = 0, pfRemovedDemand = 0,
       pfRemovedFull = 0, pfSpanPage = 0, pfUsefulSpanPage = 0\<rparr>,
     prefetchStats := zeroPfStats, issuedPrefetches := 0, usefulPrefetches := 0\<rparr>"

definition same_config :: "'a QueuedPf_scheme \<Rightarrow> 'a QueuedPf_scheme \<Rightarrow> bool" where
  "same_config s s' \<longleftrightarrow> config s = config s' \<and> QueuedPf.more s = QueuedPf.more s'"

lemma same_configD:
  assumes "same_config s s'"
  shows "blkSize s' = blkSize s" "lBlkSize s' = lBlkSize s" "pageBytes s' = pageBytes s"
    "queueSize s' = queueSize s" "queueFilter s' = queueFilter s" "requestorId s' = requestorId s"
    "useVirtualAddresses s' = useVirtualAddresses s" "mmu s' = mmu s"
    "QueuedPf.more s' = QueuedPf.more s"
  using assms by (auto simp: same_config_def config_def QueuedPf.truncate_def)

lemma same_config_refl [simp]: "same_config s s"
  by (simp add: same_config_def)

lemma same_config_trans [trans]: "same_config s s' \<Longrightarrow> same_config s' s'' \<Longrightarrow> same_config s s''"
  by (simp add: same_config_def)

lemma same_config_updates [simp]:
  "same_config s (s\<lparr>pfq := q\<rparr>) = True" "same_config s (s\<lparr>pfqMissingTranslation := q\<rparr>) = True"
  "same_config s (s\<lparr>nextNode := k\<rparr>) = True" "same_config s (s\<lparr>statsQueued := st\<rparr>) = True"
  by (simp_all add: same_config_def config_def QueuedPf.truncate_def)

lemma same_config_base_wf: "same_config s s' \<Longrightarrow> base_wf s' = base_wf s"
  by (simp add: base_wf_def same_configD)

lemma same_config_aligned: "same_config s s' \<Longrightarrow> aligned s' d = aligned s d"
  by (simp add: aligned_def blockAddress_def same_configD)

section \<open>Preservation\<close>

lemma same_config_sym: "same_config s s' \<Longrightarrow> same_config s' s"
  by (simp add: same_config_def)

lemma cores_subset: "mset q' \<subseteq># add_mset n (mset q) \<Longrightarrow> cores q' \<subseteq># add_mset (core (snd n)) (cores q)"
  using image_mset_subseteq_mono [of "mset q'" "add_mset n (mset q)" "core \<circ> snd"]
  by (simp add: cores_def)

lemma subset_all: "M \<subseteq># add_mset x N \<Longrightarrow> P x \<Longrightarrow> \<forall>d \<in># N. P d \<Longrightarrow> \<forall>d \<in># M. P d"
  by (metis insert_iff mset_subset_eqD set_mset_add_mset_insert)

lemma createPkt_facts:
  assumes "createPkt pa blk rid tag t d = Inr d'"
  shows "pfInfo d' = pfInfo d" "translationRequest d' = translationRequest d" "ready blk d'"
proof -
  have r: "isSecureReq (setFlags SECURE (physRequest pa blk 0 rid))"
    "\<not> isSecureReq (physRequest pa blk 0 rid)"
    by (simp_all add: isSecureReq_def flag_set_def setFlags_def physRequest_def SECURE_def)
  show "pfInfo d' = pfInfo d" "translationRequest d' = translationRequest d" "ready blk d'"
    using assms r
    by (auto simp: createPkt_def ready_def newPacket_def Let_def physRequest_def setFlags_def
        split: if_splits)
qed

lemma createPkt_ok: "\<exists>d'. createPkt pa blk rid tag t d = Inr d'"
proof -
  have "\<not> isHTMCmd (physRequest pa blk 0 rid)" "\<not> isHTMCmd (setFlags SECURE (physRequest pa blk 0 rid))"
    by (simp_all add: isHTMCmd_def flag_set_def setFlags_def physRequest_def request_flags)
  then show ?thesis
    by (auto simp: createPkt_def newPacket_def Let_def getPC_def split: if_splits)
qed

lemma addPfq_facts:
  assumes "addPfq d s = Inr s'" "length (pfq s) \<le> unat (queueSize s)"
  shows "same_config s s'" "pfqMissingTranslation s' = pfqMissingTranslation s"
    "nextNode s' = Suc (nextNode s)" "length (pfq s') \<le> unat (queueSize s)"
    "cores (pfq s') \<subseteq># add_mset (core d) (cores (pfq s))"
proof -
  from assms(1) obtain q removed where a: "addToQueue (queueSize s) (nextNode s, d) (pfq s) = Inr (q, removed)"
    and s': "s' = count_stat (pfRemovedFull_update (count_if removed))
                    (s\<lparr>pfq := q, nextNode := nextNode s + 1\<rparr>)"
    by (auto simp: addPfq_def)
  note f = addToQueue_facts [OF a assms(2)]
  show "length (pfq s') \<le> unat (queueSize s)" using f(1) by (simp add: s')
  show "cores (pfq s') \<subseteq># add_mset (core d) (cores (pfq s))" using cores_subset [OF f(2)] by (simp add: s')
  show "same_config s s'" "pfqMissingTranslation s' = pfqMissingTranslation s" "nextNode s' = Suc (nextNode s)"
    by (simp_all add: s' same_config_def config_def QueuedPf.truncate_def)
qed

lemma addMissing_facts:
  assumes "addMissing d s = Inr s'" "length (pfqMissingTranslation s) \<le> unat (queueSize s)"
    "distinct (map fst (pfqMissingTranslation s))"
    "list_all (\<lambda>i. i < nextNode s) (map fst (pfqMissingTranslation s))"
  shows "same_config s s'" "pfq s' = pfq s"
    "length (pfqMissingTranslation s') \<le> unat (queueSize s)"
    "cores (pfqMissingTranslation s') \<subseteq># add_mset (core d) (cores (pfqMissingTranslation s))"
    "distinct (map fst (pfqMissingTranslation s'))"
    "list_all (\<lambda>i. i < nextNode s') (map fst (pfqMissingTranslation s'))"
proof -
  from assms(1) obtain q removed where
    a: "addToQueue (queueSize s) (nextNode s, d) (pfqMissingTranslation s) = Inr (q, removed)"
    and s': "s' = count_stat (pfRemovedFull_update (count_if removed))
                    (s\<lparr>pfqMissingTranslation := q, nextNode := nextNode s + 1\<rparr>)"
    by (auto simp: addMissing_def)
  note f = addToQueue_facts [OF a assms(2)]
  show "length (pfqMissingTranslation s') \<le> unat (queueSize s)" using f(1) by (simp add: s')
  show "cores (pfqMissingTranslation s') \<subseteq># add_mset (core d) (cores (pfqMissingTranslation s))"
    using cores_subset [OF f(2)] by (simp add: s')
  show "same_config s s'" "pfq s' = pfq s"
    by (simp_all add: s' same_config_def config_def QueuedPf.truncate_def)
  let ?ids = "mset (map fst (pfqMissingTranslation s))"
  have sub: "mset (map fst q) \<subseteq># add_mset (nextNode s) ?ids"
    using image_mset_subseteq_mono [OF f(2), of fst] by simp
  have fresh: "nextNode s \<notin># ?ids" using assms(4) by (auto simp: list_all_iff)
  have "unique (add_mset (nextNode s) ?ids)"
    by (rule unique_add [OF assms(3) [unfolded distinct_unique] fresh])
  then show "distinct (map fst (pfqMissingTranslation s'))"
    using unique_mono [OF sub] by (simp add: s' distinct_unique)
  have "i \<le> nextNode s" if "i \<in> set (map fst q)" for i
  proof -
    have "i \<in># add_mset (nextNode s) ?ids" using that by (intro mset_subset_eqD [OF sub]) simp
    then show ?thesis using assms(4) by (fastforce simp: list_all_iff)
  qed
  then show "list_all (\<lambda>i. i < nextNode s') (map fst (pfqMissingTranslation s'))"
    by (auto simp: list_all_iff s' less_Suc_eq_le)
qed

lemma addPfq_wf:
  assumes "queued_wf s" "addPfq d s = Inr s'" "ready (blkSize s) d" "aligned s d"
    "queueFilter s \<longrightarrow> dkey d \<notin># keys s"
  shows "queued_wf s' \<and> same_config s s'"
proof -
  have len: "length (pfq s) \<le> unat (queueSize s)" using assms(1) by (simp add: queued_wf_def)
  note f = addPfq_facts [OF assms(2) len]
  have "\<forall>e \<in># cores (pfq s'). ready (blkSize s) e \<and> aligned s e"
    using assms by (intro subset_all [OF f(5)]) (simp_all add: queued_wf_iff)
  moreover have "keys s' \<subseteq># add_mset (dkey d) (keys s)"
    using image_mset_subseteq_mono [OF f(5), of dkey] f(2) by (simp add: keys_def subset_mset.add_right_mono)
  then have "queueFilter s \<longrightarrow> unique (keys s')"
    using assms by (auto simp: queued_wf_iff intro: unique_mono unique_add)
  moreover have "list_all (\<lambda>i. i < Suc (nextNode s)) (map fst (pfqMissingTranslation s))"
    using assms(1) by (auto simp: queued_wf_def list_all_iff less_Suc_eq)
  ultimately show ?thesis
    using assms(1) f by (simp add: queued_wf_iff same_configD [OF f(1)] same_config_aligned [OF f(1)])
qed

lemma addMissing_wf:
  assumes "queued_wf s" "addMissing d s = Inr s'" "waiting d" "aligned s d"
    "queueFilter s \<longrightarrow> dkey d \<notin># keys s"
  shows "queued_wf s' \<and> same_config s s'"
proof -
  have pre: "length (pfqMissingTranslation s) \<le> unat (queueSize s)"
    "distinct (map fst (pfqMissingTranslation s))"
    "list_all (\<lambda>i. i < nextNode s) (map fst (pfqMissingTranslation s))"
    using assms(1) by (simp_all add: queued_wf_def)
  note f = addMissing_facts [OF assms(2) pre]
  have "\<forall>e \<in># cores (pfqMissingTranslation s'). waiting e \<and> aligned s e"
    using assms by (intro subset_all [OF f(4)]) (simp_all add: queued_wf_iff)
  moreover have "keys s' \<subseteq># add_mset (dkey d) (keys s)"
    using image_mset_subseteq_mono [OF f(4), of dkey] f(2) by (simp add: keys_def)
  then have "queueFilter s \<longrightarrow> unique (keys s')"
    using assms by (auto simp: queued_wf_iff intro: unique_mono unique_add)
  ultimately show ?thesis
    using assms(1) f by (simp add: queued_wf_iff same_configD [OF f(1)] same_config_aligned [OF f(1)])
qed

lemma aligned_new: "aligned s (newDeferredPacket pfi t prio) \<longleftrightarrow> blockAddress s (pf_address pfi) = pf_address pfi"
  by (simp add: aligned_def newDeferredPacket_def)

lemma queued_wf_stat [simp]: "queued_wf (s\<lparr>statsQueued := st\<rparr>) = queued_wf s"
  by (simp add: queued_wf_def aligned_def blockAddress_def)

lemma keys_stat [simp]: "keys (s\<lparr>statsQueued := st\<rparr>) = keys s"
  by (simp add: keys_def)

lemma createPkt_key: "createPkt pa blk rid tag t d = Inr d' \<Longrightarrow> dkey d' = dkey d \<and> aligned s d' = aligned s d"
  using createPkt_facts [of pa blk rid tag t d d'] by (simp add: dkey_def aligned_def)

lemma insertReady_wf:
  assumes wf: "queued_wf s" and ins: "insertReady env pfi prio a s = Inr s'"
    and al: "blockAddress s (pf_address pfi) = pf_address pfi"
    and new: "queueFilter s \<longrightarrow> (pf_address pfi, pf_secure pfi) \<notin># keys s"
  shows "queued_wf s' \<and> same_config s s'"
proof (cases "redundant s (env_cache env) a (pf_secure pfi)")
  case True
  with ins wf show ?thesis by (auto simp: insertReady_def)
next
  case False
  then obtain d where d: "createPkt a (blkSize s) (requestorId s) (tagPrefetch s) (pf_time env s)
      (newDeferredPacket pfi 0 prio) = Inr d" "addPfq d s = Inr s'"
    using ins by (auto simp: insertReady_def)
  have "dkey d = (pf_address pfi, pf_secure pfi)" "aligned s d"
    using createPkt_key [OF d(1), of s] al
    by (simp_all add: aligned_new) (simp add: dkey_def newDeferredPacket_def)
  with new show ?thesis by (intro addPfq_wf [OF wf d(2) createPkt_facts(3) [OF d(1)]]) simp_all
qed

lemma insertPending_wf:
  assumes wf: "queued_wf s" and ins: "insertPending pkt pfi prio a s = Inr s'"
    and al: "blockAddress s (pf_address pfi) = pf_address pfi"
    and new: "queueFilter s \<longrightarrow> (pf_address pfi, pf_secure pfi) \<notin># keys s"
  shows "queued_wf s' \<and> same_config s s'"
proof -
  obtain r where r: "addMissing ((newDeferredPacket pfi 0 prio)\<lparr>translationRequest := Some r\<rparr>) s = Inr s'"
    using ins by (auto simp: insertPending_def)
  show ?thesis
    by (rule addMissing_wf [OF wf r])
      (use al new in \<open>simp_all add: waiting_def aligned_def dkey_def newDeferredPacket_def\<close>)
qed

lemma insertNew_wf:
  assumes "queued_wf s" "insertNew env pkt pfi prio s = Inr s'"
    "blockAddress s (pf_address pfi) = pf_address pfi"
    "queueFilter s \<longrightarrow> (pf_address pfi, pf_secure pfi) \<notin># keys s"
  shows "queued_wf s' \<and> same_config s s'"
  using assms(2) insertReady_wf [OF assms(1) _ assms(3,4)] insertPending_wf [OF assms(1) _ assms(3,4)] assms(1)
  unfolding insertNew_def Let_def by (auto split: if_splits option.splits)

lemma alreadyInQueue_keys:
  assumes "alreadyInQueue q pfi prio = (found, q', counted)"
  shows "found \<longleftrightarrow> (pf_address pfi, pf_secure pfi) \<in># image_mset dkey (cores q)"
proof -
  have "sameAddr (pfInfo (snd n)) pfi \<longleftrightarrow> (dkey \<circ> snd) n = (pf_address pfi, pf_secure pfi)" for n :: node
    by (simp add: sameAddr_def dkey_def)
  then show ?thesis
    unfolding alreadyInQueue_facts(3) [OF assms] image_dkey_cores set_mset_mset set_map image_iff
    by metis
qed

lemma queued_wf_replace:
  assumes "queued_wf s" "cores q = cores (pfq s)" "cores m = cores (pfqMissingTranslation s)"
    "map fst m = map fst (pfqMissingTranslation s)"
  shows "queued_wf (s\<lparr>pfq := q, pfqMissingTranslation := m\<rparr>)"
  using assms by (simp add: queued_wf_iff keys_def aligned_def blockAddress_def flip: size_cores)

lemma insert_pf_wf:
  assumes wf: "queued_wf s" and ins: "insert_pf env pkt pfi prio s = Inr s'"
    and al: "blockAddress s (pf_address pfi) = pf_address pfi"
  shows "queued_wf s' \<and> same_config s s'"
proof (cases "queueFilter s")
  case True
  obtain f1 q1 c1 where a1: "alreadyInQueue (pfq s) pfi prio = (f1, q1, c1)" by (metis prod_cases3)
  obtain f2 q2 c2 where a2: "alreadyInQueue (pfqMissingTranslation s) pfi prio = (f2, q2, c2)"
    by (metis prod_cases3)
  define s1 where "s1 = count_stat (pfBufferHit_update (count_if c1)) (s\<lparr>pfq := q1\<rparr>)"
  define s2 where "s2 = count_stat (pfBufferHit_update (count_if c2)) (s1\<lparr>pfqMissingTranslation := q2\<rparr>)"
  have m1: "pfqMissingTranslation s1 = pfqMissingTranslation s" by (simp add: s1_def)
  have ins': "(if f1 then Inr s1 else if f2 then Inr s2 else insertNew env pkt pfi prio s2) = Inr s'"
    using ins True
    unfolding insert_pf_def Let_def a1 prod.case s1_def [symmetric] m1 a2 s2_def [symmetric] by simp
  note k1 = alreadyInQueue_facts [OF a1] and k2 = alreadyInQueue_facts [OF a2]
  have c1: "same_config s s1" "same_config s s2"
    by (simp_all add: s1_def s2_def same_config_def config_def QueuedPf.truncate_def)
  have "queued_wf (s\<lparr>pfq := q1, pfqMissingTranslation := pfqMissingTranslation s\<rparr>)"
    by (rule queued_wf_replace [OF wf k1(2) refl refl])
  then have w1: "queued_wf s1" by (simp add: s1_def)
  have "queued_wf (s\<lparr>pfq := q1, pfqMissingTranslation := q2\<rparr>)"
    using queued_wf_replace [OF wf k1(2) k2(2) k2(1)] .
  then have w2: "queued_wf s2" by (simp add: s2_def s1_def)
  have keys2: "keys s2 = keys s" by (simp add: s2_def s1_def keys_def k1 k2)
  have al2: "blockAddress s2 (pf_address pfi) = pf_address pfi"
    using al by (simp add: blockAddress_def same_configD [OF c1(2)])
  show ?thesis
  proof (cases "f1 \<or> f2")
    case True
    with ins' w1 w2 c1 show ?thesis by (auto split: if_splits)
  next
    case False
    then have "(pf_address pfi, pf_secure pfi) \<notin># keys s"
      using alreadyInQueue_keys [OF a1] alreadyInQueue_keys [OF a2] by (simp add: keys_def)
    then have "(pf_address pfi, pf_secure pfi) \<notin># keys s2" by (simp add: keys2)
    with False ins' insertNew_wf [OF w2 _ al2] c1(2) show ?thesis
      by (auto intro: same_config_trans)
  qed
next
  case False
  then show ?thesis using insertNew_wf [OF wf _ al] ins by (simp add: insert_pf_def)
qed

lemma squash_wf:
  assumes "queued_wf s"
  shows "queued_wf (squash b sec s) \<and> same_config s (squash b sec s)"
proof -
  define q st where "q = pfq (squash b sec s)" and "st = statsQueued (squash b sec s)"
  then have q: "squash b sec s = s\<lparr>pfq := q, statsQueued := st\<rparr>" "mset q \<subseteq># mset (pfq s)"
    by (simp_all add: squash_def Let_def)
  have sub: "cores q \<subseteq># cores (pfq s)"
    using image_mset_subseteq_mono [OF q(2), of "core \<circ> snd"] by (simp add: cores_def)
  have "\<forall>d \<in># cores q. ready (blkSize s) d \<and> aligned s d"
    using assms mset_subset_eqD [OF sub] by (simp add: queued_wf_iff)
  moreover have "length q \<le> unat (queueSize s)"
    using size_mset_mono [OF q(2)] assms by (simp add: queued_wf_def)
  moreover have "keys (s\<lparr>pfq := q\<rparr>) \<subseteq># keys s"
    using image_mset_subseteq_mono [OF sub, of dkey] by (simp add: keys_def subset_mset.add_right_mono)
  then have "queueFilter s \<longrightarrow> unique (keys (s\<lparr>pfq := q\<rparr>))"
    using assms unique_mono by (auto simp: queued_wf_iff)
  ultimately have "queued_wf (s\<lparr>pfq := q\<rparr>)"
    using assms by (simp add: queued_wf_iff aligned_def blockAddress_def)
  then show ?thesis
    by (simp add: q(1) same_config_def config_def QueuedPf.truncate_def)
qed

text \<open>The three facts every operation of the loop keeps together.\<close>

definition kept :: "'a QueuedPf_scheme \<Rightarrow> 'a QueuedPf_scheme \<Rightarrow> bool" where
  "kept s s' \<longleftrightarrow> queued_wf s' \<and> base_wf s' \<and> same_config s s'"

lemma keptI: "base_wf s \<Longrightarrow> queued_wf s' \<and> same_config s s' \<Longrightarrow> kept s s'"
  using same_config_base_wf by (auto simp: kept_def)

lemma kept_trans: "kept s s' \<Longrightarrow> kept s' s'' \<Longrightarrow> kept s s''"
  unfolding kept_def using same_config_trans by blast

lemma kept_stat: "queued_wf s \<Longrightarrow> base_wf s \<Longrightarrow> kept s (s\<lparr>statsQueued := st\<rparr>)"
  by (rule keptI) simp_all

lemma note_candidate_kept:
  assumes "note_candidate env pkt pfi addr s = Inr (same, s1)" "queued_wf s" "base_wf s"
  shows "kept s s1"
proof -
  have "s1 = s \<or> (\<exists>st. s1 = s\<lparr>statsQueued := st\<rparr>)"
    using assms(1) unfolding note_candidate_def bindR_eq_Inr
    by (elim exE conjE) (auto split: if_splits)
  then show ?thesis using kept_stat [OF assms(2,3)] assms(2,3) by (auto simp: kept_def)
qed

lemma insert_pf_kept:
  assumes "insert_pf env pkt (derivePrefetchInfo pfi (blockAddress s a)) prio s1 = Inr s2"
    "kept s s1" "base_wf s"
  shows "kept s s2"
proof -
  have c: "same_config s s1" "queued_wf s1" using assms(2) by (simp_all add: kept_def)
  have "blockAddress s1 (blockAddress s a) = blockAddress s a"
    using blockAddress_idem [OF assms(3), of a] by (simp add: blockAddress_def same_configD [OF c(1)])
  then have "queued_wf s2 \<and> same_config s1 s2"
    using insert_pf_wf [OF c(2) assms(1)] by (simp add: derivePrefetchInfo_def)
  then show ?thesis using keptI [OF assms(3)] same_config_trans [OF c(1)] by blast
qed

lemma queue_candidates_kept:
  "queue_candidates env pkt pfi m n as s = Inr s' \<Longrightarrow> queued_wf s \<Longrightarrow> base_wf s \<Longrightarrow> kept s s'"
proof (induction as arbitrary: n s)
  case Nil
  then show ?case by (simp add: kept_def)
next
  case (Cons ap rest)
  obtain a prio where ap: "ap = (a, prio)" by (cases ap)
  from Cons.prems(1) obtain same s1 where nc: "note_candidate env pkt pfi (blockAddress s a) s = Inr (same, s1)"
    and body: "(if mmu s1 \<or> same then
         bindR (insert_pf env pkt (derivePrefetchInfo pfi (blockAddress s a)) prio
                 (count_stat (pfIdentified_update Suc) s1)) (\<lambda>s2.
           if n + 1 = m then Inr s2 else queue_candidates env pkt pfi m (n + 1) rest s2)
       else queue_candidates env pkt pfi m n rest s1) = Inr s'"
    unfolding ap queue_candidates.simps bindR_eq_Inr by auto
  have k1: "kept s s1" using note_candidate_kept [OF nc Cons.prems(2,3)] .
  show ?case
  proof (cases "mmu s1 \<or> same")
    case True
    with body obtain s2 where s2: "insert_pf env pkt (derivePrefetchInfo pfi (blockAddress s a)) prio
        (count_stat (pfIdentified_update Suc) s1) = Inr s2"
      and rest: "(if n + 1 = m then Inr s2 else queue_candidates env pkt pfi m (n + 1) rest s2) = Inr s'"
      by auto
    have "kept s (count_stat (pfIdentified_update Suc) s1)"
      using kept_trans [OF k1 kept_stat] k1 by (simp add: kept_def)
    from insert_pf_kept [OF s2 this Cons.prems(3)] have k2: "kept s s2" .
    show ?thesis
    proof (cases "n + 1 = m")
      case True
      with rest k2 show ?thesis by simp
    next
      case False
      with rest have "queue_candidates env pkt pfi m (n + 1) rest s2 = Inr s'" by simp
      from Cons.IH [OF this] k2 show ?thesis using kept_trans [OF k2] by (simp add: kept_def)
    qed
  next
    case False
    with body have "queue_candidates env pkt pfi m n rest s1 = Inr s'" by simp
    from Cons.IH [OF this] k1 show ?thesis using kept_trans [OF k1] by (simp add: kept_def)
  qed
qed

lemma list_all_update_node:
  assumes "\<And>d. P (f d) = P d"
  shows "list_all (\<lambda>n. P (snd n)) (update_node i f q) = list_all (\<lambda>n. P (snd n)) q"
proof (induction q)
  case (Cons n q)
  then show ?case using assms [of "snd n"] by (cases n) (simp add: update_node_def)
qed (simp add: update_node_def)

lemma translation_updates:
  assumes "queued_wf s" "\<And>d. dkey (f d) = dkey d" "\<And>d. waiting (f d) = waiting d"
    "\<And>d. aligned s (f d) = aligned s d"
  shows "queued_wf (s\<lparr>pfqMissingTranslation := update_node i f (pfqMissingTranslation s)\<rparr>)"
proof -
  let ?m = "pfqMissingTranslation s"
  have ids: "map fst (update_node i f ?m) = map fst ?m"
    by (auto simp: update_node_def)
  have keys: "map (dkey \<circ> snd) (update_node i f ?m) = map (dkey \<circ> snd) ?m"
    using assms(2) by (auto simp: update_node_def)
  have "list_all (\<lambda>n. waiting (snd n) \<and> aligned s (snd n)) (update_node i f ?m)
      = list_all (\<lambda>n. waiting (snd n) \<and> aligned s (snd n)) ?m"
    using assms(3,4) by (intro list_all_update_node [of "\<lambda>d. waiting d \<and> aligned s d"]) simp
  then show ?thesis
    using assms(1) ids keys unfolding queued_wf_def
    by (simp add: aligned_def blockAddress_def) (simp add: update_node_def)
qed

lemma set_ongoing_wf:
  "queued_wf s \<Longrightarrow>
   queued_wf (s\<lparr>pfqMissingTranslation :=
     update_node i (ongoingTranslation_update (\<lambda>_. b)) (pfqMissingTranslation s)\<rparr>)"
  by (rule translation_updates) (simp_all add: dkey_def waiting_def aligned_def)

lemma cores_erase:
  assumes "find_node i q = Some d" "distinct (map fst q)"
  shows "cores q = add_mset (core d) (cores (erase_node i q))"
  using assms
proof (induction q)
  case (Cons n q)
  show ?case
  proof (cases "fst n = i")
    case True
    then have "i \<notin> fst ` set q" using Cons.prems by auto
    then have "erase_node i q = q"
      unfolding erase_node_def by (induction q) auto
    then show ?thesis using True Cons.prems(1) by (cases n) (simp add: find_node_def erase_node_def)
  next
    case False
    then have "cores q = add_mset (core d) (cores (erase_node i q))"
      using Cons by (cases n) (simp add: find_node_def)
    then show ?thesis using False by (simp add: erase_node_def add_mset_commute)
  qed
qed (simp add: find_node_def)

lemma erase_node_ids: "set (map fst (erase_node i q)) \<subseteq> set (map fst q)"
  by (auto simp: erase_node_def)

lemma erase_missing_wf:
  assumes "queued_wf s"
  shows "queued_wf (s\<lparr>pfqMissingTranslation := erase_node i (pfqMissingTranslation s)\<rparr>)"
proof -
  let ?m = "pfqMissingTranslation s" and ?m' = "erase_node i (pfqMissingTranslation s)"
  have "mset ?m' \<subseteq># mset ?m" by (simp add: erase_node_def)
  then have sub: "cores ?m' \<subseteq># cores ?m"
    using image_mset_subseteq_mono [of "mset ?m'" "mset ?m" "core \<circ> snd"] by (simp add: cores_def)
  have "length ?m' \<le> length ?m" by (simp add: erase_node_def)
  moreover have "distinct (map fst ?m')"
    using assms by (simp add: erase_node_def queued_wf_def distinct_map_filter)
  moreover have "list_all (\<lambda>i. i < nextNode s) (map fst ?m')"
    using assms by (auto simp: erase_node_def queued_wf_def list_all_iff)
  moreover have "\<forall>d \<in># cores ?m'. waiting d \<and> aligned s d"
    using assms mset_subset_eqD [OF sub] by (simp add: queued_wf_iff)
  moreover have "keys (s\<lparr>pfqMissingTranslation := ?m'\<rparr>) \<subseteq># keys s"
    using image_mset_subseteq_mono [OF sub, of dkey] by (simp add: keys_def)
  then have "queueFilter s \<longrightarrow> unique (keys (s\<lparr>pfqMissingTranslation := ?m'\<rparr>))"
    using assms unique_mono by (auto simp: queued_wf_iff)
  ultimately show ?thesis
    using assms by (simp add: queued_wf_iff aligned_def blockAddress_def)
qed

text \<open>A translated packet moves from one list to the other: the old entry goes, the new one comes.\<close>

lemma move_to_pfq_wf:
  assumes wf: "queued_wf s" and d: "find_node i (pfqMissingTranslation s) = Some d"
    and d': "dkey d' = dkey d" "ready (blkSize s) d'" "aligned s d'"
    and add: "addPfq d' s = Inr s1"
  shows "queued_wf (s1\<lparr>pfqMissingTranslation := erase_node i (pfqMissingTranslation s1)\<rparr>) \<and> same_config s s1"
proof -
  let ?s0 = "s\<lparr>pfqMissingTranslation := erase_node i (pfqMissingTranslation s)\<rparr>"
  let ?s2 = "s1\<lparr>pfqMissingTranslation := erase_node i (pfqMissingTranslation s1)\<rparr>"
  have len: "length (pfq s) \<le> unat (queueSize s)" and dist: "distinct (map fst (pfqMissingTranslation s))"
    using wf by (simp_all add: queued_wf_def)
  have w0: "queued_wf ?s0" by (rule erase_missing_wf [OF wf])
  have add0: "addPfq d' ?s0 = Inr ?s2"
    using add by (auto simp: addPfq_def)
  have "keys s = add_mset (dkey d) (keys ?s0)"
    using cores_erase [OF d dist] by (simp add: keys_def)
  then have "queueFilter ?s0 \<longrightarrow> dkey d' \<notin># keys ?s0"
    using wf d'(1) unique_addD [of "dkey d" "keys ?s0"] by (simp add: queued_wf_iff)
  then have "queued_wf ?s2 \<and> same_config ?s0 ?s2"
    using addPfq_wf [OF w0 add0] d' by (simp add: aligned_def blockAddress_def)
  then show ?thesis using addPfq_facts(1) [OF add len] by simp
qed

lemma translationComplete_kept:
  assumes tc: "translationComplete env i reply s = Inr s'" and wf: "queued_wf s" "base_wf s"
  shows "kept s s'"
proof -
  obtain d where d: "find_node i (pfqMissingTranslation s) = Some d"
    using tc by (auto simp: translationComplete_def split: option.splits)
  have al: "aligned s d"
    using d wf(1) map_of_SomeD [of "pfqMissingTranslation s" i d]
    by (auto simp: find_node_def queued_wf_def list_all_iff)
  have er: "kept s (s\<lparr>pfqMissingTranslation := erase_node i (pfqMissingTranslation s)\<rparr>)"
    by (rule keptI [OF wf(2)]) (simp add: erase_missing_wf [OF wf(1)])
  show ?thesis
  proof (cases reply)
    case None
    then show ?thesis using tc d er by (simp add: translationComplete_def)
  next
    case (Some pa)
    show ?thesis
    proof (cases "redundant s (env_cache env) pa (pf_secure (pfInfo d))")
      case True
      then have s': "s' = (s\<lparr>pfqMissingTranslation := erase_node i (pfqMissingTranslation s)\<rparr>)
          \<lparr>statsQueued := pfInCache_update Suc (statsQueued s)\<rparr>"
        using tc d Some by (auto simp: translationComplete_def)
      show ?thesis unfolding s' using kept_trans [OF er kept_stat] er by (simp add: kept_def)
    next
      case False
      then obtain d' s1 where c: "createPkt pa (blkSize s) (requestorId s) (tagPrefetch s) (pf_time env s) d = Inr d'"
        and a: "addPfq d' s = Inr s1"
        and s': "s' = s1\<lparr>pfqMissingTranslation := erase_node i (pfqMissingTranslation s1)\<rparr>"
        using tc d Some by (auto simp: translationComplete_def)
      have "queued_wf s' \<and> same_config s s1"
        unfolding s'
        using createPkt_key [OF c, of s] al
        by (intro move_to_pfq_wf [OF wf(1) d _ createPkt_facts(3) [OF c] _ a]) simp_all
      then show ?thesis
        using same_config_trans [of s s1 s'] by (intro keptI [OF wf(2)]) (simp add: s')
    qed
  qed
qed

lemma set_ongoing_kept:
  "queued_wf s \<Longrightarrow> base_wf s \<Longrightarrow>
   kept s (s\<lparr>pfqMissingTranslation :=
     update_node i (ongoingTranslation_update (\<lambda>_. b)) (pfqMissingTranslation s)\<rparr>)"
  by (rule keptI) (simp_all add: set_ongoing_wf)

lemma kept_step:
  assumes "kept s s1" "\<And>s'. f s1 = Inr s' \<Longrightarrow> queued_wf s1 \<Longrightarrow> base_wf s1 \<Longrightarrow> kept s1 s'" "f s1 = Inr s'"
  shows "kept s s'"
  using assms kept_trans [of s s1 s'] by (auto simp: kept_def)

lemma finish_kept:
  assumes "finish env i reply s = Inr s'" "queued_wf s" "base_wf s"
  shows "kept s s'"
proof -
  have "translationComplete env i reply (s\<lparr>pfqMissingTranslation :=
      update_node i (ongoingTranslation_update (\<lambda>_. False)) (pfqMissingTranslation s)\<rparr>) = Inr s'"
    using assms(1) by (auto simp: finish_def split: option.splits if_splits)
  then show ?thesis
    using translationComplete_kept by (intro kept_step [OF set_ongoing_kept [OF assms(2,3)]])
qed

lemma startTranslation_kept:
  assumes "startTranslation env i s = Inr s'" "queued_wf s" "base_wf s"
  shows "kept s s'"
proof -
  let ?s1 = "s\<lparr>pfqMissingTranslation :=
      update_node i (ongoingTranslation_update (\<lambda>_. True)) (pfqMissingTranslation s)\<rparr>"
  have k: "kept s ?s1" by (rule set_ongoing_kept [OF assms(2,3)])
  obtain d r where d: "find_node i (pfqMissingTranslation s) = Some d" "translationRequest d = Some r"
    using assms(1) by (simp add: startTranslation_def split: option.splits)
  have fin: "kept s s'" if "finish env i reply ?s1 = Inr s'" for reply
    using that finish_kept by (intro kept_step [OF k])
  show ?thesis
  proof (cases "ongoingTranslation d")
    case True
    then show ?thesis using assms d by (simp add: startTranslation_def kept_def)
  next
    case False
    with assms(1) d have "(case env_translate env r of Delayed \<Rightarrow> Inr ?s1
        | Faulted \<Rightarrow> finish env i None ?s1 | Translated pa \<Rightarrow> finish env i (Some pa) ?s1) = Inr s'"
      by (simp add: startTranslation_def Let_def)
    then show ?thesis using k fin by (cases "env_translate env r") auto
  qed
qed

lemma start_all_kept:
  "start_all env is s = Inr s' \<Longrightarrow> queued_wf s \<Longrightarrow> base_wf s \<Longrightarrow> kept s s'"
proof (induction "is" arbitrary: s)
  case (Cons i "is")
  from Cons.prems(1) obtain s1 where s1: "startTranslation env i s = Inr s1" "start_all env is s1 = Inr s'"
    by auto
  have k1: "kept s s1" by (rule startTranslation_kept [OF s1(1) Cons.prems(2,3)])
  then have "kept s1 s'" using Cons.IH [OF s1(2)] by (simp add: kept_def)
  then show ?case by (rule kept_trans [OF k1])
qed (simp add: kept_def)

lemma processMissingTranslations_kept:
  "processMissingTranslations env m s = Inr s' \<Longrightarrow> queued_wf s \<Longrightarrow> base_wf s \<Longrightarrow> kept s s'"
  unfolding processMissingTranslations_def by (rule start_all_kept)

definition pop_issue :: "'a QueuedPf_scheme \<Rightarrow> 'a QueuedPf_scheme" where
  "pop_issue s = s\<lparr>pfq := tl (pfq s),
     prefetchStats := (prefetchStats s)\<lparr>pfIssued := pfIssued (prefetchStats s) + 1\<rparr>,
     issuedPrefetches := issuedPrefetches s + 1\<rparr>"

lemma pop_issue_kept:
  assumes "queued_wf s" "base_wf s"
  shows "kept s (pop_issue s)"
proof -
  have "queued_wf (pop_issue s)"
    using assms(1) unfolding queued_wf_def
    by (cases "pfq s") (auto simp: pop_issue_def aligned_def blockAddress_def list_all_iff)
  then show ?thesis
    by (intro keptI [OF assms(2)])
      (simp add: pop_issue_def same_config_def config_def QueuedPf.truncate_def)
qed

lemma getPacket_cases:
  assumes "getPacket env s = Inr (po, s')"
  obtains s1 where "pfq s = [] \<longrightarrow> processMissingTranslations env (queueSize s) s = Inr s1"
    "pfq s \<noteq> [] \<longrightarrow> s1 = s" "pfq s1 = []" "po = None" "s' = s1"
  | s1 n q p m where "pfq s = [] \<longrightarrow> processMissingTranslations env (queueSize s) s = Inr s1"
    "pfq s \<noteq> [] \<longrightarrow> s1 = s" "pfq s1 = n # q" "dp_pkt (snd n) = Some p" "po = Some p"
    "processMissingTranslations env m (pop_issue s1) = Inr s'"
proof -
  from assms obtain s1 where
    s1: "(if pfq s = [] then processMissingTranslations env (queueSize s) s else Inr s) = Inr s1"
    and b: "(case pfq s1 of [] \<Rightarrow> Inr (None, s1)
     | n # q \<Rightarrow> (let s1 = s1\<lparr>pfq := q,
                    prefetchStats := (prefetchStats s1)\<lparr>pfIssued := pfIssued (prefetchStats s1) + 1\<rparr>,
                    issuedPrefetches := issuedPrefetches s1 + 1\<rparr>
         in (case dp_pkt (snd n) of None \<Rightarrow> Inl (AssertFailed ''pkt != nullptr'')
             | Some p \<Rightarrow> bindR (processMissingTranslations env
                          (ucast (ucast (queueSize s1) - of_nat (length q) :: u64)) s1) (\<lambda>s2.
                   Inr (Some p, s2))))) = Inr (po, s')"
    unfolding getPacket_def bindR_eq_Inr by blast
  show thesis
  proof (cases "pfq s1")
    case Nil
    with b s1 show thesis by (intro that(1) [of s1]) (auto split: if_splits)
  next
    case (Cons n q)
    then have pop: "pop_issue s1 = s1\<lparr>pfq := q,
        prefetchStats := (prefetchStats s1)\<lparr>pfIssued := pfIssued (prefetchStats s1) + 1\<rparr>,
        issuedPrefetches := issuedPrefetches s1 + 1\<rparr>" by (simp add: pop_issue_def)
    from b Cons obtain p where p: "dp_pkt (snd n) = Some p" "po = Some p"
      and pm: "\<exists>m. processMissingTranslations env m (pop_issue s1) = Inr s'"
      unfolding pop by (auto simp: Let_def split: option.splits)
    then show thesis using s1 Cons by (elim exE) (rule that(2) [of s1 n q p]; auto split: if_splits)
  qed
qed

lemma getPacket_kept:
  assumes "getPacket env s = Inr (po, s')" "queued_wf s" "base_wf s"
  shows "kept s s'"
proof -
  have refill: "kept s s1" if "pfq s = [] \<longrightarrow> processMissingTranslations env (queueSize s) s = Inr s1"
    "pfq s \<noteq> [] \<longrightarrow> s1 = s" for s1
    using that processMissingTranslations_kept [of env "queueSize s" s s1] assms(2,3)
    by (cases "pfq s = []") (auto simp: kept_def)
  show ?thesis using assms(1)
  proof (cases rule: getPacket_cases)
    case (1 s1)
    then show ?thesis using refill [of s1] by simp
  next
    case (2 s1 n q p m)
    then have k1: "kept s s1" by (intro refill)
    then have k2: "kept s (pop_issue s1)"
      using kept_trans [OF k1 pop_issue_kept] by (simp add: kept_def)
    then have "kept (pop_issue s1) s'"
      using processMissingTranslations_kept [OF 2(6)] by (simp add: kept_def)
    then show ?thesis by (rule kept_trans [OF k2])
  qed
qed

section \<open>No operation stops the simulation\<close>

text \<open>A queue of at least two entries, and an access that carries the addresses the
  configuration trains on and a program counter.\<close>

definition roomy :: "'a QueuedPf_scheme \<Rightarrow> bool" where
  "roomy s \<longleftrightarrow> base_wf s \<and> unat (queueSize s) \<ge> 2"

text \<open>What \<open>notify\<close> needs of an access: the addresses, and a program counter when a candidate in
  another page can be translated, which takes a context and a virtual address.\<close>

definition usable :: "'a BasePf_scheme \<Rightarrow> Packet \<Rightarrow> PrefetchInfo \<Rightarrow> bool" where
  "usable s pkt pfi \<longleftrightarrow> pkt_addr pkt \<noteq> None \<and> req_paddr (req pkt) \<noteq> None \<and>
     (useVirtualAddresses s \<longrightarrow> req_vaddr (req pkt) \<noteq> None) \<and>
     (pf_validPC pfi \<or> req_context (req pkt) = None \<or> req_vaddr (req pkt) = None)"

lemma addPfq_ok: "roomy s \<Longrightarrow> \<exists>s'. addPfq d s = Inr s'"
  using addToQueue_ok [of "queueSize s" "(nextNode s, d)" "pfq s"] by (auto simp: addPfq_def roomy_def)

lemma addMissing_ok: "roomy s \<Longrightarrow> \<exists>s'. addMissing d s = Inr s'"
  using addToQueue_ok [of "queueSize s" "(nextNode s, d)" "pfqMissingTranslation s"]
  by (auto simp: addMissing_def roomy_def)

lemma insertReady_ok: "roomy s \<Longrightarrow> \<exists>s'. insertReady env pfi prio a s = Inr s'"
  using createPkt_ok [of a "blkSize s" "requestorId s" "tagPrefetch s" "pf_time env s"
      "newDeferredPacket pfi 0 prio"] addPfq_ok [of s]
  by (auto simp: insertReady_def)

lemma insertPending_ok:
  "roomy s \<Longrightarrow> pf_validPC pfi \<Longrightarrow> req_context (req pkt) \<noteq> None \<Longrightarrow> \<exists>s'. insertPending pkt pfi prio a s = Inr s'"
  using addMissing_ok [of s] by (auto simp: insertPending_def createPrefetchRequest_def getPC_def)

lemma insertNew_ok:
  assumes "roomy s" "usable s pkt pfi"
  shows "\<exists>s'. insertNew env pkt pfi prio s = Inr s'"
proof -
  obtain pa where pa: "req_paddr (req pkt) = Some pa" using assms(2) by (auto simp: usable_def)
  obtain oa where oa: "(if useVirtualAddresses s then getVaddr (req pkt) else getPaddr (req pkt)) = Inr oa"
    using assms(2) by (cases "useVirtualAddresses s") (auto simp: usable_def getVaddr_def getPaddr_def)
  obtain same where same: "samePage s oa (pf_address pfi) = Inr same"
    using samePage_iff assms(1) by (metis roomy_def)
  have v: "pf_validPC pfi \<or> req_context (req pkt) = None \<or> req_vaddr (req pkt) = None"
      "useVirtualAddresses s \<longrightarrow> req_vaddr (req pkt) \<noteq> None"
    using assms(2) by (simp_all add: usable_def)
  show ?thesis
  proof (cases same)
    case True
    then show ?thesis
      using insertReady_ok [OF assms(1)] unfolding insertNew_def Let_def oa bindR_simps same
      by (simp add: getPaddr_def pa)
  next
    case False
    then show ?thesis
      using insertPending_ok [OF assms(1), of pfi pkt] v unfolding insertNew_def Let_def oa bindR_simps same
      by (auto split: option.splits)
  qed
qed

lemma roomy_config: "same_config s s' \<Longrightarrow> roomy s' = roomy s"
  by (simp add: roomy_def same_config_base_wf same_configD)

lemma usable_config: "same_config s s' \<Longrightarrow> usable s' pkt pfi = usable s pkt pfi"
  by (simp add: usable_def same_configD)

lemma insert_pf_ok:
  assumes "roomy s" "usable s pkt pfi"
  shows "\<exists>s'. insert_pf env pkt pfi prio s = Inr s'"
proof -
  have ok: "\<exists>s'. insertNew env pkt pfi prio (s\<lparr>pfq := q, pfqMissingTranslation := m, statsQueued := x\<rparr>) = Inr s'"
    for q x m
  proof -
    have c: "same_config s (s\<lparr>pfq := q, pfqMissingTranslation := m, statsQueued := x\<rparr>)"
      by (simp add: same_config_def config_def QueuedPf.truncate_def)
    show ?thesis using assms by (intro insertNew_ok) (simp_all only: roomy_config [OF c] usable_config [OF c])
  qed
  obtain f1 q1 c1 where a1: "alreadyInQueue (pfq s) pfi prio = (f1, q1, c1)" by (metis prod_cases3)
  obtain f2 q2 c2 where a2: "alreadyInQueue (pfqMissingTranslation s) pfi prio = (f2, q2, c2)"
    by (metis prod_cases3)
  show ?thesis
  proof (cases "queueFilter s")
    case True
    then show ?thesis
      using ok by (simp add: insert_pf_def a1 Let_def) (simp add: a2)
  next
    case False
    then show ?thesis using insertNew_ok [OF assms] by (simp add: insert_pf_def)
  qed
qed

lemma usable_derive [simp]: "usable s pkt (derivePrefetchInfo pfi x) = usable s pkt pfi"
  by (simp add: usable_def derivePrefetchInfo_def)

lemma note_candidate_ok:
  assumes "base_wf s" "usable s pkt pfi"
  obtains same s1 where "note_candidate env pkt pfi a s = Inr (same, s1)"
proof -
  obtain same where "samePage s a (pf_address pfi) = Inr same" using samePage_iff [OF assms(1)] by blast
  moreover obtain y where "pkt_addr pkt = Some y" using assms(2) by (auto simp: usable_def)
  ultimately show thesis
    using that by (cases same) (simp_all add: note_candidate_def getAddr_def)
qed

lemma queue_candidates_ok:
  "queued_wf s \<Longrightarrow> roomy s \<Longrightarrow> usable s pkt pfi \<Longrightarrow> \<exists>s'. queue_candidates env pkt pfi m n as s = Inr s'"
proof (induction as arbitrary: n s)
  case (Cons ap rest)
  obtain a prio where ap: "ap = (a, prio)" by (cases ap)
  have b: "base_wf s" using Cons.prems(2) by (simp add: roomy_def)
  obtain same s1 where nc: "note_candidate env pkt pfi (blockAddress s a) s = Inr (same, s1)"
    by (rule note_candidate_ok [OF b Cons.prems(3)])
  have k1: "kept s s1" by (rule note_candidate_kept [OF nc Cons.prems(1) b])
  then have k1': "kept s (count_stat (pfIdentified_update Suc) s1)"
    using kept_trans [OF k1 kept_stat] by (simp add: kept_def)
  have r: "queued_wf t \<and> roomy t \<and> usable t pkt pfi" if "kept s t" for t
    using that Cons.prems roomy_config [of s t] usable_config [of s t] by (simp add: kept_def)
  have "\<exists>s2. insert_pf env pkt (derivePrefetchInfo pfi (blockAddress s a)) prio
      (count_stat (pfIdentified_update Suc) s1) = Inr s2"
    using r [OF k1'] by (intro insert_pf_ok) simp_all
  then obtain s2 where s2: "insert_pf env pkt (derivePrefetchInfo pfi (blockAddress s a)) prio
      (count_stat (pfIdentified_update Suc) s1) = Inr s2" by blast
  have k2: "kept s s2" by (rule insert_pf_kept [OF s2 k1' b])
  show ?case
    using Cons.IH [of s1 n] Cons.IH [of s2 "n + 1"] r [OF k1] r [OF k2]
    by (simp add: ap nc s2)
qed simp

section \<open>Accesses as the probe passes them on\<close>

text \<open>A request has a program counter if it has a virtual address: \<open>setVirt\<close>, the only function that
  sets a virtual address, sets both (\<open>mem/request.hh\<close>), and nothing takes the program counter away.\<close>

definition request_wf :: "Request \<Rightarrow> bool" where
  "request_wf r \<longleftrightarrow> (req_vaddr r \<noteq> None \<longrightarrow> req_pc r \<noteq> None)"

lemma request_wf_built:
  "request_wf (physRequest a n f i)" "request_wf (virtRequest a n f i pc c)"
  "request_wf (setFlags m r) = request_wf r" "request_wf (r\<lparr>req_paddr := pa\<rparr>) = request_wf r"
  by (simp_all add: request_wf_def physRequest_def virtRequest_def setFlags_def)

lemma probeNotify_cases:
  assumes "probeNotify notify pkt c miss s = Inr s'"
  obtains t where "t = s \<or> t = countUseful miss s" "s' = t \<or> (\<exists>pfi. notify pkt c pfi t = Inr s')"
proof -
  define t where "t = (case pkt_addr pkt of None \<Rightarrow> s | Some a \<Rightarrow>
    if hasBeenPrefetchedBy c a (pkt_secure pkt) (requestorId s) then countUseful miss s else s)"
  have "t = s \<or> t = countUseful miss s" by (simp add: t_def split: option.splits)
  moreover have "s' = s \<or> s' = t \<or> (\<exists>pfi. notify pkt c pfi t = Inr s')"
    using assms
    by (auto simp: probeNotify_def getAddr_def getVaddr_def getPaddr_def t_def Let_def
        split: if_splits option.splits)
  ultimately show thesis using that by blast
qed

lemma probeNotify_total:
  assumes pkt: "pkt_addr pkt \<noteq> None" "req_paddr (req pkt) \<noteq> None" "request_wf (req pkt)"
    and P: "P s" "P (countUseful miss s)"
    and n: "\<And>t pfi. t = s \<or> t = countUseful miss s \<Longrightarrow> usable t pkt pfi \<Longrightarrow> \<exists>s'. notify pkt c pfi t = Inr s' \<and> P s'"
  shows "\<exists>s'. probeNotify notify pkt c miss s = Inr s' \<and> P s'"
proof -
  obtain a pa where a: "pkt_addr pkt = Some a" "req_paddr (req pkt) = Some pa" using pkt by auto
  define t where "t = (if hasBeenPrefetchedBy c a (pkt_secure pkt) (requestorId s) then countUseful miss s else s)"
  have t: "t = s \<or> t = countUseful miss s" "useVirtualAddresses t = useVirtualAddresses s" "P t"
    using P by (auto simp: t_def countUseful_def)
  define pfi where "pfi x = projr (newPrefetchInfo pkt x miss)" for x
  have pfi: "newPrefetchInfo pkt x miss = Inr (pfi x)" "pf_validPC (pfi x) \<longleftrightarrow> req_pc (req pkt) \<noteq> None" for x
    using a by (simp_all add: pfi_def newPrefetchInfo_def getAddr_def getPaddr_def Let_def)
  have "usable t pkt (pfi x)" if "useVirtualAddresses t \<longrightarrow> req_vaddr (req pkt) \<noteq> None" for x
    using that pkt pfi(2) [of x] by (auto simp: usable_def request_wf_def)
  then have u: "\<exists>s'. notify pkt c (pfi x) t = Inr s' \<and> P s'" if "useVirtualAddresses t \<longrightarrow> req_vaddr (req pkt) \<noteq> None" for x
    using n [OF t(1)] that by blast
  show ?thesis
    using P(1) t(3) u a pfi(1)
    by (auto simp: probeNotify_def getAddr_def getVaddr_def getPaddr_def Let_def simp flip: t_def split: option.splits)
qed

section \<open>The contract of a prefetch generator\<close>

text \<open>
  What \<open>notify\<close> relies on: \<open>calculatePrefetch\<close> leaves the queues, the counters and the
  parameters alone and keeps its own invariant; accesses that are \<open>ok\<close> never stop it.
\<close>

definition good :: "('a QueuedPf_scheme \<Rightarrow> bool) \<Rightarrow> 'a QueuedPf_scheme \<Rightarrow> bool" where
  "good pinv s \<longleftrightarrow> queued_wf s \<and> roomy s \<and> pinv s"

lemma truncate_wf:
  "queued_wf (QueuedPf.truncate u) = queued_wf u" "base_wf (QueuedPf.truncate u) = base_wf u"
  "roomy (QueuedPf.truncate u) = roomy u" "usable (QueuedPf.truncate u) pkt pf = usable u pkt pf"
  by (simp_all add: QueuedPf.truncate_def queued_wf_def aligned_def blockAddress_def base_wf_def
      roomy_def usable_def)

lemma truncate_frame:
  assumes t: "QueuedPf.truncate s' = QueuedPf.truncate s"
  shows "queued_wf s' = queued_wf s" "base_wf s' = base_wf s" "roomy s' = roomy s"
    "usable s' pkt pf = usable s pkt pf" "config s' = config s"
  using truncate_wf [of s'] truncate_wf [of s] by (simp_all add: t config_def)

locale prefetch_generator =
  fixes calc :: "PrefetchInfo \<Rightarrow> CacheAccessor \<Rightarrow> 'a QueuedPf_scheme \<Rightarrow>
      (AddrPriority list \<times> 'a QueuedPf_scheme) result"
    and pinv :: "'a QueuedPf_scheme \<Rightarrow> bool"
    and ok :: "PrefetchInfo \<Rightarrow> bool"
  assumes calc_frame: "calc pfi c s = Inr (as, s') \<Longrightarrow> QueuedPf.truncate s' = QueuedPf.truncate s"
    and calc_inv: "pinv s \<Longrightarrow> calc pfi c s = Inr (as, s') \<Longrightarrow> pinv s'"
    and inv_config: "same_config s s' \<Longrightarrow> pinv s \<Longrightarrow> pinv s'"
    and calc_ok: "pinv s \<Longrightarrow> ok pfi \<Longrightarrow> \<exists>r. calc pfi c s = Inr r"
begin

lemma queued_frame:
  assumes "calc pfi c s = Inr (as, s')"
  shows "queued_wf s' = queued_wf s" "base_wf s' = base_wf s" "roomy s' = roomy s"
    "usable s' pkt pf = usable s pkt pf" "config s' = config s"
  by (rule truncate_frame [OF calc_frame [OF assms]])+

lemma good_kept: "good pinv s \<Longrightarrow> kept s s' \<Longrightarrow> good pinv s'"
  using inv_config [of s s'] roomy_config [of s s'] by (auto simp: good_def kept_def)

lemma squash_good:
  assumes "good pinv s"
  shows "good pinv (squash b sec s)"
proof -
  have "base_wf s" "queued_wf s" using assms by (simp_all add: good_def roomy_def)
  then have "kept s (squash b sec s)" by (intro keptI squash_wf)
  then show ?thesis by (rule good_kept [OF assms])
qed

lemma notify_good:
  assumes "good pinv s" "notify_queued calc env pkt pfi s = Inr s'"
  shows "good pinv s'"
proof -
  let ?s1 = "if queueSquash s then squash (blockAddress s (pf_address pfi)) (pf_secure pfi) s else s"
  have g1: "good pinv ?s1" using assms(1) squash_good by simp
  from assms(2) obtain as s2 where c: "calc pfi (env_cache env) ?s1 = Inr (as, s2)"
    and q: "queue_candidates env pkt pfi (getMaxPermittedPrefetches s2 (of_nat (length as))) 0 as s2 = Inr s'"
    unfolding notify_queued_def Let_def bindR_eq_Inr by auto
  have g2: "good pinv s2" using g1 queued_frame [OF c] calc_inv [OF _ c] by (simp add: good_def)
  then have "kept s2 s'" by (intro queue_candidates_kept [OF q]) (simp_all add: good_def roomy_def)
  then show ?thesis by (rule good_kept [OF g2])
qed

lemma notify_total:
  assumes "good pinv s" "ok pfi" "usable s pkt pfi"
  shows "\<exists>s'. notify_queued calc env pkt pfi s = Inr s'"
proof -
  let ?s1 = "if queueSquash s then squash (blockAddress s (pf_address pfi)) (pf_secure pfi) s else s"
  have g1: "good pinv ?s1" using assms(1) squash_good by simp
  then obtain as s2 where c: "calc pfi (env_cache env) ?s1 = Inr (as, s2)"
    using calc_ok [OF _ assms(2)] by (metis good_def surj_pair)
  have "same_config s ?s1" using squash_wf [of s] assms(1) by (simp add: good_def)
  then have "usable s2 pkt pfi" using queued_frame(4) [OF c] usable_config assms(3) by blast
  moreover have "queued_wf s2" "roomy s2" using g1 queued_frame [OF c] by (simp_all add: good_def)
  ultimately show ?thesis using queue_candidates_ok [of s2 pkt pfi env] c
    by (simp only: notify_queued_def Let_def bindR_simps prod.case)
qed

lemma useful_good: "good pinv s \<Longrightarrow> good pinv (countUseful miss s)"
proof (rule good_kept)
  assume g: "good pinv s"
  then have "queued_wf (countUseful miss s)" by (simp add: good_def queued_wf_def aligned_def blockAddress_def countUseful_def)
  moreover have "same_config s (countUseful miss s)"
    by (simp add: same_config_def config_def QueuedPf.truncate_def countUseful_def)
  ultimately show "kept s (countUseful miss s)" using g by (intro keptI) (simp_all add: good_def roomy_def)
qed

lemma probe_total:
  assumes "good pinv s" "\<And>pfi. ok pfi" "pkt_addr pkt \<noteq> None" "req_paddr (req pkt) \<noteq> None" "request_wf (req pkt)"
  shows "\<exists>s'. probeNotify (\<lambda>pkt cache pfi. notify_queued calc env pkt pfi) pkt c miss s = Inr s' \<and> good pinv s'"
proof (rule probeNotify_total [OF assms(3-5)])
  fix t pfi
  assume "t = s \<or> t = countUseful miss s" "usable t pkt pfi"
  then show "\<exists>s'. notify_queued calc env pkt pfi t = Inr s' \<and> good pinv s'"
    using notify_total [of t pfi pkt env] notify_good [of t env pkt pfi] useful_good assms(1,2) by blast
qed (use assms(1) useful_good in blast)+

end

section \<open>Issue never fails\<close>

lemma ids_update_node [simp]: "map fst (update_node i f q) = map fst q"
  by (auto simp: update_node_def)

lemma find_node_ids: "i \<in> set (map fst q) \<longleftrightarrow> (\<exists>d. find_node i q = Some d)"
  unfolding find_node_def set_map by (metis domD domI dom_map_of_conv_image_fst)

lemma find_update_node: "find_node i (update_node i f q) = map_option f (find_node i q)"
  by (induction q) (auto simp: find_node_def update_node_def)

lemma translationComplete_ids:
  assumes "translationComplete env i reply s = Inr s'" "length (pfq s) \<le> unat (queueSize s)"
  shows "map fst (pfqMissingTranslation s') = filter (\<lambda>j. j \<noteq> i) (map fst (pfqMissingTranslation s))"
proof -
  obtain d where d: "find_node i (pfqMissingTranslation s) = Some d"
    using assms by (auto simp: translationComplete_def split: option.splits)
  have e: "map fst (erase_node i q) = filter (\<lambda>j. j \<noteq> i) (map fst q)" for q
    by (simp add: erase_node_def filter_map comp_def)
  from assms(1) d obtain s1 where s': "s' = s1\<lparr>pfqMissingTranslation := erase_node i (pfqMissingTranslation s1)\<rparr>"
    and s1: "(case reply of None \<Rightarrow> Inr s
        | Some a \<Rightarrow> if redundant s (env_cache env) a (pf_secure (pfInfo d))
            then Inr (count_stat (pfInCache_update Suc) s)
            else bindR (createPkt a (blkSize s) (requestorId s) (tagPrefetch s) (pf_time env s) d)
              (\<lambda>dp. addPfq dp s)) = Inr s1"
    unfolding translationComplete_def by auto
  have "pfqMissingTranslation s1 = pfqMissingTranslation s"
  proof (cases reply)
    case (Some a)
    then show ?thesis
      using s1 addPfq_facts(2) [OF _ assms(2), of _ s1]
      by (cases "redundant s (env_cache env) a (pf_secure (pfInfo d))") auto
  qed (use s1 in simp)
  then show ?thesis by (simp add: s' e)
qed

lemma translationComplete_ok:
  assumes "roomy s" "i \<in> set (map fst (pfqMissingTranslation s))"
  shows "\<exists>s'. translationComplete env i reply s = Inr s'"
proof -
  obtain d where "find_node i (pfqMissingTranslation s) = Some d" using assms(2) find_node_ids by blast
  then show ?thesis
    using addPfq_ok [OF assms(1)] createPkt_ok
    by (auto simp: translationComplete_def split: option.splits)
       (metis bindR_simps(2))
qed

lemma startTranslation_ok:
  assumes "queued_wf s" "roomy s" "i \<in> set (map fst (pfqMissingTranslation s))"
  obtains s' where "startTranslation env i s = Inr s'"
    "\<And>j. j \<in> set (map fst (pfqMissingTranslation s)) \<Longrightarrow> j \<noteq> i \<Longrightarrow>
       j \<in> set (map fst (pfqMissingTranslation s'))"
proof -
  obtain d where d: "find_node i (pfqMissingTranslation s) = Some d"
    using assms(3) find_node_ids by blast
  then obtain r where r: "translationRequest d = Some r"
    using assms(1) map_of_SomeD [of "pfqMissingTranslation s" i d]
    by (fastforce simp: find_node_def queued_wf_def list_all_iff waiting_def)
  define s1 where "s1 = s\<lparr>pfqMissingTranslation :=
      update_node i (ongoingTranslation_update (\<lambda>_. True)) (pfqMissingTranslation s)\<rparr>"
  define s2 where "s2 = s1\<lparr>pfqMissingTranslation :=
      update_node i (ongoingTranslation_update (\<lambda>_. False)) (pfqMissingTranslation s1)\<rparr>"
  have ids: "map fst (pfqMissingTranslation s1) = map fst (pfqMissingTranslation s)"
    "map fst (pfqMissingTranslation s2) = map fst (pfqMissingTranslation s)"
    by (simp_all add: s1_def s2_def)
  have c: "same_config s s2" "pfq s2 = pfq s"
    by (simp_all add: s1_def s2_def same_config_def config_def QueuedPf.truncate_def)
  have len: "length (pfq s2) \<le> unat (queueSize s2)"
    using assms(1) by (simp add: queued_wf_def c(2) same_configD [OF c(1)])
  have fin: "finish env i reply s1 = translationComplete env i reply s2" for reply
    using d by (simp add: finish_def s1_def s2_def find_update_node)
  have fin_ok: "\<exists>s'. finish env i reply s1 = Inr s' \<and>
      map fst (pfqMissingTranslation s') = filter (\<lambda>j. j \<noteq> i) (map fst (pfqMissingTranslation s))" for reply
  proof -
    have "roomy s2" using assms(2) roomy_config [OF c(1)] by simp
    then obtain s' where "translationComplete env i reply s2 = Inr s'"
      using translationComplete_ok assms(3) ids(2) by metis
    then show ?thesis using translationComplete_ids [OF _ len] fin ids(2) by auto
  qed
  have st: "startTranslation env i s = (if ongoingTranslation d then Inr s
      else case env_translate env r of Delayed \<Rightarrow> Inr s1
           | Faulted \<Rightarrow> finish env i None s1 | Translated pa \<Rightarrow> finish env i (Some pa) s1)"
    unfolding startTranslation_def Let_def d option.case r s1_def [symmetric] by (rule refl)
  show thesis
  proof (cases "ongoingTranslation d \<or> env_translate env r = Delayed")
    case True
    then show thesis
      using st ids(1) by (intro that [of "if ongoingTranslation d then s else s1"]) (auto simp del: set_map)
  next
    case False
    then obtain reply where reply: "startTranslation env i s = finish env i reply s1"
      using st by (cases "env_translate env r") auto
    obtain s' where f: "finish env i reply s1 = Inr s'"
      "map fst (pfqMissingTranslation s') = filter (\<lambda>j. j \<noteq> i) (map fst (pfqMissingTranslation s))"
      using fin_ok by blast
    show thesis by (rule that [of s']) (simp_all only: reply f set_filter, blast)
  qed
qed

lemma start_all_ok:
  "queued_wf s \<Longrightarrow> roomy s \<Longrightarrow> distinct is \<Longrightarrow> set is \<subseteq> set (map fst (pfqMissingTranslation s)) \<Longrightarrow>
   \<exists>s'. start_all env is s = Inr s'"
proof (induction "is" arbitrary: s)
  case (Cons i "is")
  then have "i \<in> set (map fst (pfqMissingTranslation s))" by simp
  then obtain s1 where s1: "startTranslation env i s = Inr s1"
    and ids: "\<And>j. j \<in> set (map fst (pfqMissingTranslation s)) \<Longrightarrow> j \<noteq> i \<Longrightarrow>
       j \<in> set (map fst (pfqMissingTranslation s1))"
    using startTranslation_ok [OF Cons.prems(1,2)] by metis
  have b: "base_wf s" using Cons.prems(2) by (simp add: roomy_def)
  have k: "kept s s1" by (rule startTranslation_kept [OF s1 Cons.prems(1) b])
  then have "roomy s1" using Cons.prems(2) roomy_config [of s s1] by (simp add: kept_def)
  moreover have "set is \<subseteq> set (map fst (pfqMissingTranslation s1))"
  proof
    fix j assume j: "j \<in> set is"
    then have "j \<noteq> i" "j \<in> set (map fst (pfqMissingTranslation s))"
      using Cons.prems(3,4) by (auto simp del: set_map)
    then show "j \<in> set (map fst (pfqMissingTranslation s1))" using ids by blast
  qed
  ultimately show ?case using Cons.IH [of s1] Cons.prems(3) k s1 by (simp add: kept_def)
qed simp

lemma processMissingTranslations_ok:
  assumes "queued_wf s" "roomy s"
  shows "\<exists>s'. processMissingTranslations env m s = Inr s'"
  using assms unfolding processMissingTranslations_def
  by (intro start_all_ok distinct_take set_take_subset) (simp_all add: queued_wf_def)

lemma getPacket_ok:
  assumes "queued_wf s" "roomy s"
  shows "\<exists>po s'. getPacket env s = Inr (po, s')"
proof -
  have b: "base_wf s" using assms(2) by (simp add: roomy_def)
  obtain s1 where s1: "(if pfq s = [] then processMissingTranslations env (queueSize s) s else Inr s) = Inr s1"
    using processMissingTranslations_ok [OF assms] by (metis (full_types))
  have k: "kept s s1"
    using s1 processMissingTranslations_kept [of env "queueSize s" s s1] assms(1) b
    by (cases "pfq s = []") (auto simp: kept_def)
  show ?thesis
  proof (cases "pfq s1")
    case Nil
    then show ?thesis by (simp add: getPacket_def s1)
  next
    case (Cons n q)
    then obtain p where p: "dp_pkt (snd n) = Some p"
      using k by (auto simp: kept_def queued_wf_def ready_def split: option.splits)
    have pop: "pop_issue s1 = s1\<lparr>pfq := q,
        prefetchStats := (prefetchStats s1)\<lparr>pfIssued := pfIssued (prefetchStats s1) + 1\<rparr>,
        issuedPrefetches := issuedPrefetches s1 + 1\<rparr>" using Cons by (simp add: pop_issue_def)
    have k2: "kept s (pop_issue s1)" using kept_trans [OF k pop_issue_kept] k by (simp add: kept_def)
    then have "roomy (pop_issue s1)" "queued_wf (pop_issue s1)"
      using assms(2) roomy_config [of s "pop_issue s1"] by (simp_all add: kept_def)
    from processMissingTranslations_ok [OF this(2,1)] show ?thesis
      unfolding pop by (simp add: getPacket_def s1 Cons p Let_def)
  qed
qed

end
