(* ===== verification/QueuedProps.thy ===== *)
theory QueuedProps
  imports QueuedInvariants
begin

text \<open>
  What the queued prefetcher promises and where it falls short: packets that can be
  issued, the bounds of the throttle, the place of a packet in the queue, and two
  ways in which the waiting list loses track of a packet.
\<close>

section \<open>Properties\<close>

text \<open>A small configuration the witnesses run on: 64-byte blocks, 4 KiB pages, two entries.\<close>

definition ex_info :: "Addr \<Rightarrow> PrefetchInfo" where
  "ex_info a = \<lparr>pf_address = a, pf_pc = 0x400, pf_requestorId = 1, pf_validPC = True, pf_secure = False,
     pf_size = 8, pf_write = False, pf_paddress = a, pf_cacheMiss = True, pf_data = None\<rparr>"

definition ex_packet :: Packet where
  "ex_packet = \<lparr>cmd = HardPFReq, pkt_addr = Some 0x1040, pkt_secure = False, pkt_size = 64,
     pkt_expressSnoop = False, pkt_data = [], req = physRequest 0x1040 64 0 3\<rparr>"

definition ex_deferred :: "Addr \<Rightarrow> int \<Rightarrow> DeferredPacket" where
  "ex_deferred a prio = (newDeferredPacket (ex_info a) 0 prio)\<lparr>dp_pkt := Some ex_packet,
     translationRequest := Some (virtRequest a 64 0 3 0x400 0), ongoingTranslation := True\<rparr>"

definition ex_queued :: "node list \<Rightarrow> node list \<Rightarrow> QueuedPf" where
  "ex_queued q m = \<lparr>parentSet = True, blkSize = 64, lBlkSize = 6, onMiss = False, onRead = True,
     onWrite = True, onData = True, onInst = True, requestorId = 3, pageBytes = 4096,
     prefetchOnAccess = False, prefetchOnPfHit = False, useVirtualAddresses = False,
     prefetchStats = zeroPfStats, issuedPrefetches = 8, usefulPrefetches = 2, mmu = True,
     pfq = q, pfqMissingTranslation = m, nextNode = 10, queueSize = 2,
     missingTranslationQueueSize = 32, latency = 1, clockPeriod = 500, queueSquash = True,
     queueFilter = True, cacheSnoop = False, tagPrefetch = True, throttleControlPct = 60,
     statsQueued = \<lparr>pfIdentified = 0, pfBufferHit = 0, pfInCache = 0, pfRemovedDemand = 0,
       pfRemovedFull = 0, pfSpanPage = 0, pfUsefulSpanPage = 0\<rparr>\<rparr>"

definition ex_env :: Env where
  "ex_env = \<lparr>curTick = 1000, env_translate = (\<lambda>r. Delayed),
     env_cache = \<lparr>inCache = (\<lambda>a s. False), hasBeenPrefetched = (\<lambda>a s. False),
       hasBeenPrefetchedBy = (\<lambda>a s r. False), inMissQueue = (\<lambda>a s. False), coalesce = False\<rparr>\<rparr>"

lemmas ex_defs = ex_info_def ex_packet_def ex_deferred_def ex_queued_def ex_env_def

lemma ex_base_wf: "base_wf (ex_queued q m)"
proof -
  have "isPowerOf2 64" "isPowerOf2 4096" by (simp_all add: isPowerOf2_def)
  moreover have "floorLog2 4 64 = Inr 6" by (simp add: floorLog2_def floor_step_def)
  ultimately show ?thesis by (simp add: base_wf_def ex_queued_def)
qed

text \<open>C32: Asking the prefetcher for a packet never trips an assertion or a panic when the queue
  holds at least two entries: it returns, keeps the invariant, returns a complete prefetch
  request for one block, the head of the ready queue when that is not empty.\<close>

theorem getPacket_safe:
  assumes "queued_wf s" "roomy s"
  shows "\<exists>po s'. getPacket env s = Inr (po, s') \<and> queued_wf s' \<and> roomy s' \<and>
    (case po of None \<Rightarrow> pfq s = []
     | Some p \<Rightarrow> cmd p = HardPFReq \<and> pkt_size p = blkSize s \<and> pkt_addr p \<noteq> None) \<and>
    (pfq s \<noteq> [] \<longrightarrow> po = dp_pkt (snd (hd (pfq s))))"
proof -
  have b: "base_wf s" using assms(2) by (simp add: roomy_def)
  obtain po s' where g: "getPacket env s = Inr (po, s')" using getPacket_ok [OF assms] by blast
  have k: "kept s s'" by (rule getPacket_kept [OF g assms(1) b])
  have refill: "kept s s1" if "pfq s = [] \<longrightarrow> processMissingTranslations env (queueSize s) s = Inr s1"
    "pfq s \<noteq> [] \<longrightarrow> s1 = s" for s1
    using that processMissingTranslations_kept [of env "queueSize s" s s1] assms(1) b
    by (cases "pfq s = []") (auto simp: kept_def)
  from g have "(case po of None \<Rightarrow> pfq s = []
     | Some p \<Rightarrow> cmd p = HardPFReq \<and> pkt_size p = blkSize s \<and> pkt_addr p \<noteq> None) \<and>
    (pfq s \<noteq> [] \<longrightarrow> po = dp_pkt (snd (hd (pfq s))))"
  proof (cases rule: getPacket_cases)
    case (1 s1)
    then show ?thesis by auto
  next
    case (2 s1 n q p m)
    then have "kept s s1" by (intro refill)
    then have "ready (blkSize s) (snd n)"
      using 2(3) same_configD(1) [of s s1] by (simp add: kept_def queued_wf_def)
    with 2 show ?thesis by (auto simp: ready_def)
  qed
  then show ?thesis using g k roomy_config [of s s'] assms(2) by (auto simp: kept_def)
qed

theorem getPacket_safe_witness:
  "\<exists>s'. getPacket ex_env (ex_queued [(1, ex_deferred 0x1040 0)] []) = Inr (Some ex_packet, s')"
  using getPacket_safe [of "ex_queued [(1, ex_deferred 0x1040 0)] []" ex_env]
    ex_base_wf [of "[(1, ex_deferred 0x1040 0)]" "[]"]
  by (auto simp: ex_defs queued_wf_def roomy_def ready_def aligned_def blockAddress_def
      newDeferredPacket_def dkey_def)

text \<open>The throttle in exact arithmetic: on the counts that do not wrap around.\<close>

lemma throttle_bounds_nat:
  fixes t p u i :: nat
  assumes "0 < t" "0 < i"
  defines "m \<equiv> if t - t * p div 100 = 0 then 1 else t - t * p div 100"
  shows "1 \<le> m" "m \<le> t" "t - t * p div 100 \<le> m" "u \<le> i \<Longrightarrow> m + (t - m) * u div i \<le> t"
    "i \<le> u \<Longrightarrow> t \<le> m + (t - m) * u div i"
proof -
  show m: "1 \<le> m" "m \<le> t" "t - t * p div 100 \<le> m" using assms(1) by (auto simp: m_def)
  have e: "(t - m) * i div i = t - m" using assms(2) by simp
  show "m + (t - m) * u div i \<le> t" if "u \<le> i"
  proof -
    have "(t - m) * u div i \<le> (t - m) * i div i" using that by (intro div_le_mono mult_left_mono) auto
    then show ?thesis using e m by linarith
  qed
  show "t \<le> m + (t - m) * u div i" if "i \<le> u"
  proof -
    have "(t - m) * i div i \<le> (t - m) * u div i" using that by (intro div_le_mono mult_left_mono) auto
    then show ?thesis using e m by linarith
  qed
qed

lemma unat_times_small: "unat x * unat y < 2 ^ 64 \<Longrightarrow> unat (x * y :: u64) = unat x * unat y"
  by (simp add: unat_word_ariths)

lemma getMaxPermittedPrefetches_nat:
  fixes s :: "'a QueuedPf_scheme"
  assumes "unat tot * 100 < 2 ^ 64" "unat tot * (unat (usefulPrefetches s) + 1) < 2 ^ 64"
    "unat (throttleControlPct s) \<le> 100" "tot > 0" "issuedPrefetches s > 0"
  defines "t \<equiv> unat tot" and "p \<equiv> unat (throttleControlPct s)"
  defines "m \<equiv> if t - t * p div 100 = 0 then 1 else t - t * p div 100"
  shows "unat (getMaxPermittedPrefetches s tot)
    = m + (t - m) * unat (usefulPrefetches s) div unat (issuedPrefetches s)"
proof -
  let ?u = "usefulPrefetches s" and ?i = "issuedPrefetches s"
  have t: "0 < t" "0 < unat ?i"
    using assms(4,5) by (simp_all add: t_def word_less_nat_alt)
  have "t * p \<le> t * 100" using assms(3) by (simp add: p_def)
  then have tp: "t * p < 2 ^ 64" using assms(1) unfolding t_def by linarith
  have d: "unat ((tot * ucast (throttleControlPct s)) div 100) = t * p div 100"
    using tp unat_times_small [of tot "ucast (throttleControlPct s)"] by (simp add: unat_div t_def p_def)
  have le: "t * p div 100 \<le> t" using \<open>t * p \<le> t * 100\<close> by linarith
  define w where "w = tot - (tot * ucast (throttleControlPct s)) div 100"
  have w: "unat w = t - t * p div 100"
    using le d unfolding w_def t_def by (subst unat_sub) (simp_all add: word_le_nat_alt)
  define mw where "mw = (if w = 0 then 1 else w)"
  have mw: "unat mw = m"
    using w unat_zero_iff [of w] by (auto simp: mw_def m_def)
  note b = throttle_bounds_nat [OF t, where p = p, folded m_def]
  have sub: "unat (tot - mw) = t - m"
    using b(2) mw by (subst unat_sub) (simp_all add: word_le_nat_alt t_def)
  have mu: "(t - m) * unat ?u \<le> t * unat ?u" by (intro mult_right_mono) auto
  have tu: "t * unat ?u + t < 2 ^ 64" using assms(2) by (simp add: t_def)
  then have "(t - m) * unat ?u < 2 ^ 64" using mu by linarith
  then have "unat ((tot - mw) * ?u) = (t - m) * unat ?u"
    using unat_times_small [of "tot - mw" ?u] by (simp only: sub)
  then have q: "unat ((tot - mw) * ?u div ?i) = (t - m) * unat ?u div unat ?i" by (simp only: unat_div)
  have "(t - m) * unat ?u div unat ?i \<le> t * unat ?u" using mu div_le_dividend le_trans by blast
  then have "m + (t - m) * unat ?u div unat ?i < 2 ^ 64" using b(2) tu by linarith
  then have "unat (mw + (tot - mw) * ?u div ?i) = m + (t - m) * unat ?u div unat ?i"
    using q mw by (subst unat_add_lem [THEN iffD1]) simp_all
  then show ?thesis
    using assms(4,5) unfolding getMaxPermittedPrefetches_def Let_def w_def [symmetric] mw_def [symmetric]
    by simp
qed

text \<open>C33: The throttle always leaves at least one candidate and never fewer than the share the
  parameter exempts. While no more prefetches were counted useful than issued it leaves at most
  all candidates; as soon as at least as many were, or none was issued yet, it leaves all of them.
  The products are assumed to fit in 64 bits and the parameter to be a percentage.\<close>

theorem getMaxPermittedPrefetches_bounds:
  assumes "unat tot * 100 < 2 ^ 64" "unat tot * (unat (usefulPrefetches s) + 1) < 2 ^ 64"
    "unat (throttleControlPct s) \<le> 100" "tot > 0"
  shows "1 \<le> unat (getMaxPermittedPrefetches s tot)
    \<and> unat tot - unat tot * unat (throttleControlPct s) div 100 \<le> unat (getMaxPermittedPrefetches s tot)
    \<and> (usefulPrefetches s \<le> issuedPrefetches s \<longrightarrow> getMaxPermittedPrefetches s tot \<le> tot)
    \<and> (issuedPrefetches s \<le> usefulPrefetches s \<or> issuedPrefetches s = 0 \<longrightarrow> tot \<le> getMaxPermittedPrefetches s tot)"
proof (cases "issuedPrefetches s > 0")
  case True
  have t: "0 < unat tot" "0 < unat (issuedPrefetches s)"
    using assms(4) True by (simp_all add: word_less_nat_alt)
  note b = throttle_bounds_nat [OF t, where p = "unat (throttleControlPct s)"]
  have z: "issuedPrefetches s \<noteq> 0" using True by auto
  note v = getMaxPermittedPrefetches_nat [OF assms True]
  show ?thesis
  proof (intro conjI impI)
    show "1 \<le> unat (getMaxPermittedPrefetches s tot)" unfolding v using b(1) by (rule trans_le_add1)
    show "unat tot - unat tot * unat (throttleControlPct s) div 100 \<le> unat (getMaxPermittedPrefetches s tot)"
      unfolding v using b(3) by (rule trans_le_add1)
    show "getMaxPermittedPrefetches s tot \<le> tot" if "usefulPrefetches s \<le> issuedPrefetches s"
      unfolding word_le_nat_alt v using that by (intro b(4)) (simp add: word_le_nat_alt)
    show "tot \<le> getMaxPermittedPrefetches s tot" if "issuedPrefetches s \<le> usefulPrefetches s \<or> issuedPrefetches s = 0"
      unfolding word_le_nat_alt v using that z by (intro b(5)) (simp add: word_le_nat_alt)
  qed
next
  case False
  then show ?thesis using assms(4) by (simp add: getMaxPermittedPrefetches_def word_less_nat_alt)
qed

theorem getMaxPermittedPrefetches_bounds_witness:
  "getMaxPermittedPrefetches (ex_queued [] []) 10 = 5 \<and>
   1 \<le> unat (getMaxPermittedPrefetches (ex_queued [] []) 10)"
  using getMaxPermittedPrefetches_bounds [of 10 "ex_queued [] []"]
  by (simp add: ex_queued_def getMaxPermittedPrefetches_def)

text \<open>C34: When the waiting list is full, the packet a new one displaces may have a translation under
  way; the reply of the MMU then reaches a packet that is no longer there.\<close>

theorem evicted_translation_dangles:
  assumes "queued_wf s" "length (pfqMissingTranslation s) = unat (queueSize s)"
    "addMissing d s = Inr s'"
    "i = fst (pfqMissingTranslation s ! victim_index (pfqMissingTranslation s) (unat (queueSize s) - 1))"
  shows "finish env i reply s' = Inl (NullDeref ''DeferredPacket'')"
proof -
  let ?m = "pfqMissingTranslation s" and ?k = "victim_index (pfqMissingTranslation s) (unat (queueSize s) - 1)"
  from assms(3) obtain q removed where a: "addToQueue (queueSize s) (nextNode s, d) ?m = Inr (q, removed)"
    and m': "pfqMissingTranslation s' = q"
    by (auto simp: addMissing_def)
  have ne: "?m \<noteq> []" and q: "q = place (nextNode s, d) (erase_at ?k ?m)"
    using a assms(2) by (auto simp: addToQueue_def make_room_def split: if_splits)
  have k: "?k < length ?m" using victim_index_le [of ?m "unat (queueSize s) - 1"] ne assms(2)
    by (metis diff_less le_less_trans length_greater_0_conv zero_less_one)
  have split: "?m = take ?k ?m @ ?m ! ?k # drop (Suc ?k) ?m" by (rule id_take_nth_drop [OF k])
  have "distinct (map fst (take ?k ?m @ ?m ! ?k # drop (Suc ?k) ?m))"
    using assms(1) split by (simp add: queued_wf_def)
  then have "i \<notin> fst ` set (erase_at ?k ?m)"
    unfolding erase_at_def assms(4) by (auto simp del: append_take_drop_id)
  moreover have "?m ! ?k \<in> set ?m" using k by (rule nth_mem)
  then have "i < nextNode s" using assms(1,4) by (auto simp: queued_wf_def list_all_iff)
  moreover have "set q = insert (nextNode s, d) (set (erase_at ?k ?m))"
    unfolding q using arg_cong [OF mset_place, of set_mset] by simp
  ultimately have "i \<notin> set (map fst q)" by auto
  then have "find_node i q = None" using find_node_ids [of i q] by simp
  then show ?thesis by (simp add: finish_def m')
qed

theorem evicted_translation_dangles_witness:
  "\<exists>s'. addMissing (ex_deferred 0x3000 1) (ex_queued [] [(1, ex_deferred 0x1000 0), (2, ex_deferred 0x2000 0)]) = Inr s'
     \<and> finish ex_env 1 (Some 0x9000) s' = Inl (NullDeref ''DeferredPacket'')"
proof -
  let ?s = "ex_queued [] [(1, ex_deferred 0x1000 0), (2, ex_deferred 0x2000 0)]"
  have "\<exists>s'. addMissing (ex_deferred 0x3000 1) ?s = Inr s'"
    using addToQueue_ok [of 2] by (auto simp: addMissing_def ex_queued_def)
  then show ?thesis
    using evicted_translation_dangles [of ?s "ex_deferred 0x3000 1" _ 1 ex_env "Some 0x9000"]
    by (auto simp: ex_defs queued_wf_def waiting_def aligned_def blockAddress_def newDeferredPacket_def dkey_def)
qed

definition prios :: "node list \<Rightarrow> int list" where
  "prios q = map (\<lambda>n. priority (snd n)) q"

lemma scan_pos_sorted:
  assumes "\<And>i. i < length q \<Longrightarrow> (d \<le> priority (snd (q ! i))) = (i < j)" "k < length q"
  shows "scan_pos q d k = min k (j - 1)"
  using assms(2)
proof (induction k)
  case (Suc k)
  then show ?case using assms(1) [of "Suc k"] by (auto simp: not_le [symmetric])
qed simp

lemma sorted_prefix:
  assumes "sorted_wrt (\<ge>) (prios q)" "i < length q"
  shows "d \<le> priority (snd (q ! i)) \<longleftrightarrow> i < length (takeWhile (\<lambda>n. d \<le> priority (snd n)) q)"
  using assms
proof (induction q arbitrary: i)
  case (Cons n q)
  show ?case
  proof (cases "d \<le> priority (snd n)")
    case True
    then show ?thesis using Cons by (cases i) (simp_all add: prios_def)
  next
    case False
    then have "\<forall>m \<in> set q. \<not> d \<le> priority (snd m)" using Cons.prems by (auto simp: prios_def)
    then show ?thesis using False Cons.prems(2) by (cases i) auto
  qed
qed simp

text \<open>Where a packet lands in a queue ordered by priority, when its priority is higher than that
  of the last packet: with \<open>j\<close> packets of at least its priority, the place that keeps the
  order is \<open>j\<close>; from two such packets on, the code inserts one place too early.\<close>

theorem place_position:
  assumes "sorted_wrt (\<ge>) (prios q)" "q \<noteq> []" "priority (snd (last q)) < priority (snd n)"
  defines "j \<equiv> length (takeWhile (\<lambda>m. priority (snd n) \<le> priority (snd m)) q)"
  shows "place n q = insert_at (if j \<ge> 2 then j - 1 else j) n q"
proof -
  let ?d = "priority (snd n)"
  have pre: "(?d \<le> priority (snd (q ! i))) = (i < j)" if "i < length q" for i
    unfolding j_def using sorted_prefix [OF assms(1) that] .
  have "j \<le> length q" unfolding j_def by (rule length_takeWhile_le)
  moreover have "\<not> (length q - 1 < j)"
    using pre [of "length q - 1"] assms(2,3) by (simp add: last_conv_nth)
  ultimately have "scan_pos q ?d (length q - 1) = j - 1"
    using scan_pos_sorted [of q ?d j "length q - 1"] pre assms(2) by simp
  then show ?thesis
    using assms(2,3) pre [of 0] by (cases "j = 1") (auto simp: place_def Let_def not_le)
qed

theorem place_position_witness:
  "prios (place (9, ex_deferred 0 2)
     [(1, ex_deferred 0 5), (2, ex_deferred 0 4), (3, ex_deferred 0 3), (4, ex_deferred 0 1)]) = [5, 4, 2, 3, 1]"
  using place_position [of "[(1, ex_deferred 0 5), (2, ex_deferred 0 4), (3, ex_deferred 0 3), (4, ex_deferred 0 1)]"
      "(9, ex_deferred 0 2)"]
  by (simp add: prios_def ex_deferred_def newDeferredPacket_def insert_at_def)

text \<open>Repeating a queued address with a higher priority raises the packet after it instead: the
  address that was found keeps its priority and loses its place.\<close>

theorem alreadyInQueue_raises_neighbour:
  "alreadyInQueue [(1, ex_deferred 0x1000 0), (2, ex_deferred 0x2000 0)] (ex_info 0x1000) 7
     = (True, [(1, ex_deferred 0x2000 7), (2, ex_deferred 0x1000 0)], True)
   \<and> alreadyInQueue [(1, ex_deferred 0x2000 0), (2, ex_deferred 0x1000 0)] (ex_info 0x1000) 7
     = (True, [(1, ex_deferred 0x2000 0), (2, ex_deferred 0x1000 0)], False)"
  by (simp add: alreadyInQueue_def sameAddr_def ex_deferred_def ex_info_def newDeferredPacket_def
      set_priority_def swap_packets_def)

end
