(* ===== verification/TaggedPf.thy ===== *)
theory TaggedPf
  imports QueuedProps
begin

text \<open>
  The tagged prefetcher (\<open>mem/cache/prefetch/tagged.cc\<close>): the next \<open>degree\<close> blocks.
  The multiple of the block size is computed in 32 bits.
\<close>

record TaggedPf = QueuedPf +
  tagged_degree :: cint

definition calculatePrefetch_Tagged ::
  "PrefetchInfo \<Rightarrow> CacheAccessor \<Rightarrow> 'a TaggedPf_scheme \<Rightarrow>
     (AddrPriority list \<times> 'a TaggedPf_scheme) result" where
  "calculatePrefetch_Tagged pfi cache s =
     (let blkAddr = blockAddress s (pf_address pfi)
      in Inr (map (\<lambda>d. (blkAddr + ucast (of_nat d * blkSize s), 0))
                [1..<Suc (nat (sint (tagged_degree s)))], s))"

interpretation tagged_gen: prefetch_generator calculatePrefetch_Tagged "\<lambda>_. True" "\<lambda>_. True"
  by unfold_locales (auto simp: calculatePrefetch_Tagged_def Let_def)

lemma tagged_offset:
  assumes "d * unat (blkSize s) < 2 ^ 32"
  shows "unat (ucast (of_nat d * blkSize s :: u32) :: u64) = d * unat (blkSize s)"
proof -
  have "unat (of_nat d * blkSize s :: u32) = (d * unat (blkSize s)) mod 2 ^ 32"
    by (simp add: unat_word_ariths unat_of_nat mod_mult_left_eq)
  then show ?thesis using assms by simp
qed

text \<open>The tagged prefetcher proposes exactly the \<open>degree\<close> blocks that follow the accessed one, in
  order, as long as the multiple of the block size fits 32 bits and the addresses do not
  wrap.\<close>

theorem tagged_next_blocks:
  assumes "base_wf s" "calculatePrefetch_Tagged pfi cache s = Inr (as, s')"
    "nat (sint (tagged_degree s)) * unat (blkSize s) < 2 ^ 32"
    "unat (pf_address pfi) + nat (sint (tagged_degree s)) * unat (blkSize s) < 2 ^ 64"
  shows "s' = s \<and> map (\<lambda>a. unat (blockIndex s (fst a))) as
    = map (\<lambda>d. unat (blockIndex s (pf_address pfi)) + d) [1..<Suc (nat (sint (tagged_degree s)))]"
proof -
  let ?b = "unat (blkSize s)" and ?n = "nat (sint (tagged_degree s))" and ?a = "pf_address pfi"
  have b: "0 < ?b" using assms(1) by (auto elim!: base_wfE)
  have "unat (blockIndex s (blockAddress s ?a + ucast (of_nat d * blkSize s :: u32)))
      = unat (blockIndex s ?a) + d" if "d \<le> ?n" for d
  proof -
    have le: "d * ?b \<le> ?n * ?b" using that by simp
    have o: "unat (ucast (of_nat d * blkSize s :: u32) :: u64) = d * ?b"
      using le assms(3) by (intro tagged_offset) linarith
    have "unat (blockAddress s ?a) \<le> unat ?a"
      using blockAddress_contains(1) [OF assms(1), of ?a] by (simp add: word_le_nat_alt)
    then have "unat (blockAddress s ?a) + d * ?b < 2 ^ 64" using le assms(4) by linarith
    then have "unat (blockAddress s ?a + ucast (of_nat d * blkSize s :: u32))
        = unat (blockAddress s ?a) + d * ?b"
      by (simp only: unat_word_ariths o) simp
    then have "unat (blockAddress s ?a + ucast (of_nat d * blkSize s :: u32))
        = unat ?a div ?b * ?b + d * ?b"
      by (simp only: unat_blockAddress [OF assms(1)])
    then show ?thesis using b by (simp add: unat_blockIndex [OF assms(1)] flip: add_mult_distrib)
  qed
  then show ?thesis using assms(2)
    by (auto simp: calculatePrefetch_Tagged_def Let_def simp del: upt_Suc)
qed

definition ex_tagged :: TaggedPf where
  "ex_tagged = QueuedPf.extend (ex_queued [] []) \<lparr>tagged_degree = 2\<rparr>"

theorem tagged_next_blocks_witness:
  "\<exists>as. calculatePrefetch_Tagged (ex_info 0x1010) (env_cache ex_env) ex_tagged = Inr (as, ex_tagged)
     \<and> map (\<lambda>a. unat (blockIndex ex_tagged (fst a))) as = [65, 66]"
proof -
  have "base_wf ex_tagged"
    using ex_base_wf [of "[]" "[]"] by (simp add: base_wf_def ex_tagged_def QueuedPf.defs ex_queued_def)
  moreover obtain as where "calculatePrefetch_Tagged (ex_info 0x1010) (env_cache ex_env) ex_tagged = Inr (as, ex_tagged)"
    by (simp add: calculatePrefetch_Tagged_def)
  ultimately show ?thesis
    using tagged_next_blocks [of ex_tagged "ex_info 0x1010" "env_cache ex_env" as ex_tagged]
    by (simp add: ex_tagged_def QueuedPf.defs ex_queued_def ex_info_def blockIndex_def upt_rec)
qed

end
