(* ===== verification/QTableFile.thy ===== *)
theory QTableFile
  imports Doubles
begin

text \<open>
  The file format of the persistent Q-table (\<open>saveQTable\<close> and \<open>loadQTable\<close> of
  \<open>mem/cache/prefetch/ml_prefetch_controller.cc\<close>): the signature with its length, the number
  of states, and for each state its number, the length of its row and the row. Integers and
  doubles are written as the host keeps them, little endian; at this level a double is its 64
  bits. The table is a \<open>std::map\<close>: an association list in ascending order of the states. A
  read of the stream that comes up short leaves it in a failed state, here \<open>None\<close>.
\<close>

section \<open>Ordered tables\<close>

type_synonym 'v table = "(u64 \<times> 'v) list"

fun table_put :: "u64 \<Rightarrow> 'v \<Rightarrow> 'v table \<Rightarrow> 'v table" where
  "table_put k v [] = [(k, v)]"
| "table_put k v ((k', v') # t) =
     (if k < k' then (k, v) # (k', v') # t
      else if k = k' then (k, v) # t else (k', v') # table_put k v t)"

definition table_wf :: "'v table \<Rightarrow> bool" where
  "table_wf t \<longleftrightarrow> sorted_wrt (<) (map fst t)"

lemma set_table_put: "fst ` set (table_put k v t) = insert k (fst ` set t)"
  by (induction k v t rule: table_put.induct) auto

lemma table_put_wf: "table_wf t \<Longrightarrow> table_wf (table_put k v t)"
proof (induction t)
  case (Cons e t)
  then have IH: "sorted_wrt (<) (map fst (table_put k v t))" by (simp add: table_wf_def)
  have "\<forall>x \<in> set (map fst (table_put k v t)). x = k \<or> x \<in> fst ` set t"
    using set_table_put [of k v t] by auto
  then show ?case using IH Cons.prems by (cases e) (force simp: table_wf_def)
qed (simp add: table_wf_def)

lemma map_of_table_put [simp]:
  "table_wf t \<Longrightarrow> map_of (table_put k v t) = (map_of t)(k \<mapsto> v)"
proof (induction t)
  case (Cons e t)
  then show ?case
    by (cases e) (force simp: table_wf_def fun_upd_twist map_of_eq_None_iff [symmetric] fun_eq_iff)
qed (simp add: fun_eq_iff)

lemma table_put_snd: "v' \<in> snd ` set (table_put k v t) \<Longrightarrow> v' = v \<or> v' \<in> snd ` set t"
  by (induction k v t rule: table_put.induct) (auto split: if_splits)

lemma table_put_last:
  "\<forall>k' \<in> fst ` set t. k' < k \<Longrightarrow> table_put k v t = t @ [(k, v)]"
  by (induction k v t rule: table_put.induct) auto

section \<open>Bytes\<close>

fun le_bytes :: "nat \<Rightarrow> nat \<Rightarrow> u8 list" where
  "le_bytes 0 v = []"
| "le_bytes (Suc n) v = of_nat (v mod 256) # le_bytes n (v div 256)"

fun le_value :: "u8 list \<Rightarrow> nat" where
  "le_value [] = 0"
| "le_value (b # bs) = unat b + 256 * le_value bs"

lemma length_le_bytes [simp]: "length (le_bytes n v) = n"
  by (induction n v rule: le_bytes.induct) auto

lemma le_value_bytes: "le_value (le_bytes n v) = v mod 256 ^ n"
proof (induction n v rule: le_bytes.induct)
  case (2 n v)
  have "v mod 256 ^ Suc n = v mod 256 + 256 * (v div 256 mod 256 ^ n)"
    by (simp add: mod_mult2_eq)
  moreover have "unat (of_nat (v mod 256) :: u8) = v mod 256"
    by (simp add: unat_of_nat)
  ultimately show ?case using 2 by simp
qed simp

definition get_bytes :: "nat \<Rightarrow> u8 list \<Rightarrow> (u8 list \<times> u8 list) option" where
  "get_bytes n inp = (if length inp < n then None else Some (take n inp, drop n inp))"

definition write_u32 :: "u32 \<Rightarrow> u8 list" where
  "write_u32 w = le_bytes 4 (unat w)"

definition write_u64 :: "u64 \<Rightarrow> u8 list" where
  "write_u64 w = le_bytes 8 (unat w)"

definition read_u32 :: "u8 list \<Rightarrow> (u32 \<times> u8 list) option" where
  "read_u32 inp = map_option (\<lambda>(b, r). (of_nat (le_value b), r)) (get_bytes 4 inp)"

definition read_u64 :: "u8 list \<Rightarrow> (u64 \<times> u8 list) option" where
  "read_u64 inp = map_option (\<lambda>(b, r). (of_nat (le_value b), r)) (get_bytes 8 inp)"

text \<open>The bytes of a vector of doubles.\<close>

definition row_of_bytes :: "nat \<Rightarrow> u8 list \<Rightarrow> u64 list" where
  "row_of_bytes n bs = map (\<lambda>i. of_nat (le_value (take 8 (drop (8 * i) bs)))) [0..<n]"

section \<open>Writing and reading a table\<close>

definition write_row :: "u64 \<times> u64 list \<Rightarrow> u8 list" where
  "write_row e =
     (let rowLen = of_nat (length (snd e)) :: u32
      in write_u64 (fst e) @ write_u32 rowLen @ concat (map write_u64 (take (unat rowLen) (snd e))))"

definition write_table :: "u8 list \<Rightarrow> u64 list table \<Rightarrow> u8 list" where
  "write_table sig t =
     (let sigLen = of_nat (length sig) :: u32
      in write_u32 sigLen @ take (unat sigLen) sig @ write_u64 (of_nat (length t)) @
         concat (map write_row t))"

text \<open>The loop over the states; \<open>None\<close> is its early return.\<close>

fun read_rows :: "nat \<Rightarrow> u8 list \<Rightarrow> u64 list table \<Rightarrow> u64 list table option" where
  "read_rows 0 inp t = Some t"
| "read_rows (Suc k) inp t =
     (case read_u64 inp of
        None \<Rightarrow> None
      | Some (state, r1) \<Rightarrow>
          (case read_u32 r1 of
             None \<Rightarrow> None
           | Some (rowLen, r2) \<Rightarrow>
               (case get_bytes (8 * unat rowLen) r2 of
                  None \<Rightarrow> None
                | Some (bs, r3) \<Rightarrow>
                    read_rows k r3 (table_put state (row_of_bytes (unat rowLen) bs) t))))"

text \<open>What becomes of the table in memory: it is kept, emptied or replaced.\<close>

datatype load_outcome = KeepTable | ClearTable | NewTable "u64 list table"

definition read_table :: "u8 list \<Rightarrow> u8 list \<Rightarrow> load_outcome" where
  "read_table sig inp =
     (case read_u32 inp of
        None \<Rightarrow> KeepTable
      | Some (sigLen, r1) \<Rightarrow>
          (case get_bytes (unat sigLen) r1 of
             None \<Rightarrow> KeepTable
           | Some (savedSig, r2) \<Rightarrow>
               if savedSig \<noteq> sig then KeepTable
               else (case read_u64 r2 of
                       None \<Rightarrow> KeepTable
                     | Some (numStates, r3) \<Rightarrow>
                         (case read_rows (unat numStates) r3 [] of
                            None \<Rightarrow> ClearTable
                          | Some t \<Rightarrow> NewTable t))))"

section \<open>Reading back a prefix of what was written\<close>

lemma get_bytes_prefix:
  "get_bytes n (take m (a @ b)) = (if m < n then None else Some (a, take (m - n) b))" if "length a = n"
  using that by (auto simp: get_bytes_def)

lemma length_write_u64 [simp]: "length (write_u64 w) = 8"
  by (simp add: write_u64_def)

lemma length_write_u32 [simp]: "length (write_u32 w) = 4"
  by (simp add: write_u32_def)

lemma read_u32_prefix:
  "read_u32 (take m (write_u32 w @ b)) = (if m < 4 then None else Some (w, take (m - 4) b))"
proof -
  have "le_value (write_u32 w) = unat w"
    using unat_less32 [of w] by (simp add: write_u32_def le_value_bytes)
  then show ?thesis by (simp add: read_u32_def get_bytes_prefix [of "write_u32 w"] length_write_u32 del: take_append)
qed

lemma read_u64_prefix:
  "read_u64 (take m (write_u64 w @ b)) = (if m < 8 then None else Some (w, take (m - 8) b))"
proof -
  have "le_value (write_u64 w) = unat w"
    using unat_less64 [of w] by (simp add: write_u64_def le_value_bytes)
  then show ?thesis by (simp add: read_u64_def get_bytes_prefix [of "write_u64 w"] length_write_u64 del: take_append)
qed

lemma length_row_bytes [simp]: "length (concat (map write_u64 row)) = 8 * length row"
  by (induction row) auto

lemma row_of_bytes_write: "row_of_bytes (length row) (concat (map write_u64 row)) = row"
proof (induction row)
  case (Cons w row)
  have "le_value (write_u64 w) = unat w"
    using unat_less64 [of w] by (simp add: write_u64_def le_value_bytes)
  moreover have "map (\<lambda>i. word_of_nat (le_value (take 8 (drop (8 * i) (concat (map write_u64 row))))))
      [0..<length row] = row"
    using Cons by (simp add: row_of_bytes_def)
  ultimately show ?case
    by (simp add: row_of_bytes_def upt_conv_Cons map_Suc_upt [symmetric] comp_def del: upt_Suc)
qed (simp add: row_of_bytes_def)

lemma read_rows_prefix:
  assumes "sorted_wrt (<) (map fst t)" "\<forall>e \<in> set t. length (snd e) < 2 ^ 32"
    "\<forall>a \<in> fst ` set t0. \<forall>b \<in> fst ` set t. a < b"
  shows "read_rows (length t) (take m (concat (map write_row t))) t0 =
    (if m < length (concat (map write_row t)) then None else Some (t0 @ t))"
  using assms
proof (induction t arbitrary: m t0)
  case (Cons e t)
  obtain k row where e: "e = (k, row)" by fastforce
  have l: "unat (of_nat (length row) :: u32) = length row"
    using Cons.prems(2) e by (simp add: unat_of_nat)
  have w: "write_row e = write_u64 k @ write_u32 (of_nat (length row)) @ concat (map write_u64 row)"
    by (simp add: write_row_def e l)
  have put: "table_put k row t0 = t0 @ [(k, row)]"
    using Cons.prems(3) e by (intro table_put_last) auto
  have IH: "read_rows (length t) (take m' (concat (map write_row t))) (t0 @ [(k, row)]) =
    (if m' < length (concat (map write_row t)) then None else Some ((t0 @ [(k, row)]) @ t))" for m'
    using Cons.prems e by (intro Cons.IH) auto
  have rb: "get_bytes (8 * length row) (take j (concat (map write_u64 row) @ r))
     = (if j < 8 * length row then None else Some (concat (map write_u64 row), take (j - 8 * length row) r))" for j r
    by (rule get_bytes_prefix) simp
  have r: "read_rows (length (e # t)) (take m (concat (map write_row (e # t)))) t0 =
      (if m < 8 then None else if m - 8 < 4 then None
       else if m - 8 - 4 < 8 * length row then None
       else if m - 8 - 4 - 8 * length row < length (concat (map write_row t)) then None
       else Some ((t0 @ [(k, row)]) @ t))"
    by (simp add: w read_u64_prefix read_u32_prefix l rb row_of_bytes_write put IH del: take_append length_concat)
  have "length (concat (map write_row (e # t))) = 12 + 8 * length row + length (concat (map write_row t))"
    by (simp add: w del: length_concat)
  then show ?case unfolding r by (auto simp: e)
qed simp

text \<open>Everything a table needs to fit the field widths of the format.\<close>

definition fits :: "u8 list \<Rightarrow> u64 list table \<Rightarrow> bool" where
  "fits sig t \<longleftrightarrow> length sig < 2 ^ 32 \<and> length t < 2 ^ 64 \<and> (\<forall>e \<in> set t. length (snd e) < 2 ^ 32)"

lemma read_table_prefix:
  assumes "table_wf t" "fits sig t"
  shows "read_table sig' (take m (write_table sig t)) =
    (if m < 12 + length sig \<or> sig' \<noteq> sig then KeepTable
     else if m < length (write_table sig t) then ClearTable else NewTable t)"
proof -
  have s: "unat (of_nat (length sig) :: u32) = length sig" "unat (of_nat (length t) :: u64) = length t"
    using assms(2) by (simp_all add: fits_def unat_of_nat)
  have w: "write_table sig t = write_u32 (of_nat (length sig)) @ sig @ write_u64 (of_nat (length t)) @
      concat (map write_row t)"
    by (simp add: write_table_def s)
  have sg: "get_bytes (length sig) (take j (sig @ r)) =
      (if j < length sig then None else Some (sig, take (j - length sig) r))" for j r
    by (rule get_bytes_prefix) simp
  have rr: "read_rows (length t) (take j (concat (map write_row t))) [] =
      (if j < length (concat (map write_row t)) then None else Some t)" for j
    using read_rows_prefix [of t "[]" j] assms by (simp add: table_wf_def fits_def)
  let ?l = "length (concat (map write_row t))"
  have "read_table sig' (take m (write_table sig t)) =
      (if m < 4 then KeepTable else if m - 4 < length sig then KeepTable
       else if sig \<noteq> sig' then KeepTable else if m - 4 - length sig < 8 then KeepTable
       else if m - 4 - length sig - 8 < ?l then ClearTable else NewTable t)"
    unfolding read_table_def w
    by (simp add: read_u32_prefix s sg read_u64_prefix rr del: take_append length_concat)
  moreover have "length (write_table sig t) = 12 + length sig + ?l"
    by (simp add: w del: length_concat)
  ultimately show ?thesis by auto
qed

end
