(* ===== verification/DoubleBits.thy ===== *)
theory DoubleBits
  imports Doubles
begin

text \<open>
  The 64 bits of a \<open>double\<close>: sign, eleven bits of biased exponent, 52 bits of fraction. Code
  that copies the memory of a double copies these bits. Reading them back gives the number;
  the patterns of infinities and NaN stand for no number.
\<close>

definition encode_double :: "rat \<Rightarrow> u64" where
  "encode_double x =
     (if x = 0 then 0
      else of_nat ((if x < 0 then 2 ^ 63 else 0) + nat (ulp_exp x + 1074) * 2 ^ 52
                   + nat \<lfloor>\<bar>x\<bar> / 2 powi ulp_exp x\<rfloor>))"

definition decode_double :: "u64 \<Rightarrow> rat option" where
  "decode_double w =
     (let n = unat w; e = n div 2 ^ 52 mod 2 ^ 11; f = n mod 2 ^ 52;
          a = (if e = 0 then of_nat f * 2 powi (- 1074)
               else of_nat (2 ^ 52 + f) * 2 powi (int e - 1075))
      in if e = 2047 then None else Some (if n \<ge> 2 ^ 63 then - a else a))"

text \<open>A finite double: representable, and below the overflow threshold.\<close>

definition finite_double :: "rat \<Rightarrow> bool" where
  "finite_double x \<longleftrightarrow> is_double x \<and> \<bar>x\<bar> < 2 powi 1024"

lemma double_significand:
  assumes "is_double x" "0 < x"
  obtains m where "x = of_nat m * 2 powi ulp_exp x" "0 < m" "m < 2 ^ 53"
    "m < 2 ^ 52 \<Longrightarrow> ulp_exp x = - 1074"
proof -
  let ?u = "ulp_exp x" and ?r = "rhe (x / 2 powi ulp_exp x)"
  have x: "x = of_int ?r * 2 powi ?u" using assms by (simp add: is_double_def rnd64_def)
  have r: "0 < ?r" using assms(2) x by (metis mult_pos_pos of_int_0_less_iff powi_pos zero_less_mult_pos2)
  define m where "m = nat ?r"
  have xm: "x = of_nat m * 2 powi ?u" using x r by (simp add: m_def)
  have "of_nat m * 2 powi ?u < (2::rat) powi (?u + 53)" using less_powi_ulp [OF assms(2)] xm by simp
  also have "\<dots> = 2 ^ 53 * (2::rat) powi ?u" by (simp add: power_int_add)
  finally have "(of_nat m :: rat) < of_nat (2 ^ 53)" by simp
  then have m53: "m < 2 ^ 53" by (simp only: of_nat_less_iff)
  have m0: "0 < m" using r by (simp add: m_def)
  have sub: "?u = - 1074" if m52: "m < 2 ^ 52"
  proof (rule ccontr)
    assume "?u \<noteq> - 1074"
    then have u: "?u = ilog2 x - 52" using assms(2) by (auto simp: ulp_exp_def max_def split: if_splits)
    then have "2 powi (?u + 52) \<le> of_nat m * (2::rat) powi ?u"
      using ilog2_bounds(1) [OF assms(2)] xm by simp
    then have "(of_nat (2 ^ 52) :: rat) \<le> of_nat m" by (simp add: power_int_add)
    then show False using m52 by (simp only: of_nat_le_iff)
  qed
  show thesis by (rule that [OF xm m0 m53 sub])
qed

lemma ulp_exp_bound: "0 < x \<Longrightarrow> x < 2 powi 1024 \<Longrightarrow> nat (ulp_exp x + 1074) \<le> 2045"
proof -
  assume x: "0 < x" "x < 2 powi 1024"
  have "(2::rat) powi ilog2 x < 2 powi 1024" using ilog2_bounds(1) [OF x(1)] x(2) by linarith
  then have "ilog2 x < 1024" by (rule powi_less_cancel)
  then show ?thesis using x(1) by (simp add: ulp_exp_def)
qed

lemma split_pattern:
  fixes k m :: nat
  assumes "k \<le> 2045" "m < 2 ^ 53" "m < 2 ^ 52 \<longrightarrow> k = 0"
  defines "n \<equiv> k * 2 ^ 52 + m"
  shows "n < 2 ^ 63"
    "n div 2 ^ 52 = (if m < 2 ^ 52 then 0 else Suc k)" "n mod 2 ^ 52 = (if m < 2 ^ 52 then m else m - 2 ^ 52)"
proof -
  have "k * 2 ^ 52 \<le> 2045 * 2 ^ 52" using assms(1) by (intro mult_right_mono) auto
  then show "n < 2 ^ 63" using assms(2) by (simp add: n_def)
  have d: "m div 2 ^ 52 = (if m < 2 ^ 52 then 0 else 1)"
    using assms(2) div_nat_eqI [of "2 ^ 52" 1 m] by simp
  then show "n div 2 ^ 52 = (if m < 2 ^ 52 then 0 else Suc k)" using assms(3) by (simp add: n_def)
  show "n mod 2 ^ 52 = (if m < 2 ^ 52 then m else m - 2 ^ 52)"
    using d minus_div_mult_eq_mod [of m "2 ^ 52"] by (auto simp: n_def split: if_splits)
qed

lemma decode_encode_pos:
  assumes "finite_double x" "0 < x"
  defines "n \<equiv> nat (ulp_exp x + 1074) * 2 ^ 52 + nat \<lfloor>x / 2 powi ulp_exp x\<rfloor>"
  shows "n < 2 ^ 63" "n div 2 ^ 52 mod 2 ^ 11 \<noteq> 2047"
    "(if n div 2 ^ 52 mod 2 ^ 11 = 0 then of_nat (n mod 2 ^ 52) * 2 powi (- 1074)
      else of_nat (2 ^ 52 + n mod 2 ^ 52) * 2 powi (int (n div 2 ^ 52 mod 2 ^ 11) - 1075)) = x"
proof -
  obtain m where m: "x = of_nat m * 2 powi ulp_exp x" "0 < m" "m < 2 ^ 53"
    "m < 2 ^ 52 \<Longrightarrow> ulp_exp x = - 1074"
    using double_significand [of x] assms by (auto simp: finite_double_def)
  let ?k = "nat (ulp_exp x + 1074)"
  have u: "ulp_exp x = int ?k - 1074" using ulp_exp_ge [of x] by simp
  have k: "?k \<le> 2045" using ulp_exp_bound [of x] assms by (simp add: finite_double_def)
  have "x / 2 powi ulp_exp x = of_nat m" using m(1) powi_pos [of "ulp_exp x"] by (simp add: divide_eq_eq)
  then have n: "n = ?k * 2 ^ 52 + m" by (simp add: n_def)
  note sp = split_pattern [OF k m(3), folded n]
  have c: "m < 2 ^ 52 \<longrightarrow> ?k = 0" using m(4) by simp
  show "n < 2 ^ 63" by (rule sp(1) [OF c])
  have e: "n div 2 ^ 52 mod 2 ^ 11 = (if m < 2 ^ 52 then 0 else Suc ?k)"
    using sp(2) [OF c] k by simp
  then show "n div 2 ^ 52 mod 2 ^ 11 \<noteq> 2047" using k by simp
  show "(if n div 2 ^ 52 mod 2 ^ 11 = 0 then of_nat (n mod 2 ^ 52) * 2 powi (- 1074)
      else of_nat (2 ^ 52 + n mod 2 ^ 52) * 2 powi (int (n div 2 ^ 52 mod 2 ^ 11) - 1075)) = x"
  proof (cases "m < 2 ^ 52")
    case True
    then show ?thesis unfolding e sp(3) [OF c] using m(1,4) by simp
  next
    case False
    then have "of_nat (2 ^ 52 + (m - 2 ^ 52)) * 2 powi (int (Suc ?k) - 1075) = x"
      using m(1) u by (simp add: of_nat_diff)
    then show ?thesis unfolding e sp(3) [OF c] using False by simp
  qed
qed

lemma sign_bit:
  fixes n :: nat
  shows "(2 ^ 63 + n) div 2 ^ 52 mod 2 ^ 11 = n div 2 ^ 52 mod 2 ^ 11" "(2 ^ 63 + n) mod 2 ^ 52 = n mod 2 ^ 52"
proof -
  have e: "2 ^ 63 + n = n + 2 ^ 11 * 2 ^ 52" by simp
  have "(n + 2 ^ 11 * 2 ^ 52) div 2 ^ 52 = 2 ^ 11 + n div 2 ^ 52"
    by (rule div_mult_self1) simp
  then show "(2 ^ 63 + n) div 2 ^ 52 mod 2 ^ 11 = n div 2 ^ 52 mod 2 ^ 11"
    unfolding e by (simp only: mod_add_self1)
  show "(2 ^ 63 + n) mod 2 ^ 52 = n mod 2 ^ 52"
    unfolding e by (rule mod_mult_self1)
qed

lemma decode_of_nat:
  fixes n :: nat
  assumes "n < 2 ^ 63" "n div 2 ^ 52 mod 2 ^ 11 \<noteq> 2047"
    "(if n div 2 ^ 52 mod 2 ^ 11 = 0 then of_nat (n mod 2 ^ 52) * 2 powi (- 1074)
      else of_nat (2 ^ 52 + n mod 2 ^ 52) * 2 powi (int (n div 2 ^ 52 mod 2 ^ 11) - 1075)) = a"
  shows "decode_double (of_nat n) = Some a" "decode_double (of_nat (2 ^ 63 + n)) = Some (- a)"
proof -
  have u: "unat (of_nat n :: u64) = n" "unat (of_nat (2 ^ 63 + n) :: u64) = 2 ^ 63 + n"
    using assms(1) by (simp_all only: unat_of_nat) simp_all
  show "decode_double (of_nat n) = Some a"
    using assms unfolding decode_double_def Let_def u by (simp only: if_False) simp
  show "decode_double (of_nat (2 ^ 63 + n)) = Some (- a)"
    using assms(2,3) unfolding decode_double_def Let_def u sign_bit by (simp only: le_add1 if_True if_False)
qed

lemma decode_encode:
  assumes "finite_double x"
  shows "decode_double (encode_double x) = Some x"
proof -
  consider "x = 0" | "0 < x" | "0 < - x" by linarith
  then show ?thesis
  proof cases
    case 1
    then show ?thesis by (simp add: encode_double_def decode_double_def)
  next
    case 2
    then show ?thesis
      using decode_of_nat(1) [OF decode_encode_pos [OF assms 2]] unfolding encode_double_def by simp
  next
    case 3
    have "finite_double (- x)" using assms by (simp add: finite_double_def is_double_def rnd64_minus)
    from decode_of_nat(2) [OF decode_encode_pos [OF this 3]] 3
    show ?thesis unfolding encode_double_def by (simp add: add.assoc)
  qed
qed

end
