(* ===== verification/MLController.thy ===== *)
theory MLController
  imports QueuedInvariants QTableFile DoubleBits "HOL-Library.AList"
begin

text \<open>
  The learning prefetch controller (\<open>mem/cache/prefetch/ml_prefetch_controller.hh\<close>, \<open>.cc\<close>): a
  queued prefetcher that owns child prefetchers, trains all of them on every access and issues
  the candidates of the one an epsilon-greedy bandit has chosen. Once per epoch it measures
  miss rate and IPC, credits the last action in its Q-table, picks the next action and writes
  the table to a file. Children are values of any type; what the controller calls on them is
  the record \<open>ChildOps\<close>. Measurements and the draws of \<open>random()\<close> are the record \<open>EpochInput\<close>;
  files and the process-wide CSV log are the record \<open>MLWorld\<close>. Doubles are those of \<open>Doubles\<close>.
\<close>

section \<open>Data\<close>

record ChildPfMeta =
  actionIndex :: int
  issueTick :: Tick

record 'c ChildOps =
  child_name :: "'c \<Rightarrow> string"
  child_queued :: "'c \<Rightarrow> bool"
  child_calc :: "PrefetchInfo \<Rightarrow> CacheAccessor \<Rightarrow> 'c \<Rightarrow> (AddrPriority list \<times> 'c) result"

record EpochInput =
  ei_now :: Tick
  ei_accesses :: u64
  ei_misses :: u64
  ei_totalOps :: u64
  ei_draw1 :: nat
  ei_draw2 :: nat

record CsvLine =
  csv_epoch :: u64
  csv_tick :: Tick
  csv_state :: u64
  csv_miss_rate :: rat
  csv_delta_miss :: rat
  csv_ipc :: rat
  csv_delta_ipc :: rat
  csv_accuracy :: rat
  csv_action :: int

record MLWorld =
  gCsvInitialized :: bool
  csvOpen :: bool
  csvLines :: "CsvLine list"
  epochCount :: u64
  fileData :: "string \<Rightarrow> u8 list option"
  canWrite :: "string \<Rightarrow> bool"

text \<open>The four scalar statistics of a kind are a list of four counters.\<close>

record 'c MLPf = QueuedPf +
  cachePtr :: bool
  cacheName :: string
  children :: "'c list"
  currentAction :: int
  numActions :: int
  epoch_ticks :: Tick
  update_event :: "Tick option"
  lastAccesses :: u64
  lastMisses :: u64
  epochAccesses :: u64
  epochMisses :: u64
  lastMissRate :: rat
  smoothedMissRate :: rat
  lastSmoothedMiss :: rat
  haveSmoothedMiss :: bool
  qTable :: "rat list table"
  lastState :: u64
  lastAction :: int
  lastReward :: rat
  learningRate :: rat
  exploreRate :: rat
  actionPenalties :: "rat list"
  debugLogging :: bool
  cpuPtr :: bool
  lastTotalOps :: u64
  lastIpc :: rat
  lastIpcTick :: Tick
  childPfTable :: "(Addr \<times> ChildPfMeta) list"
  actionUse :: "nat list"
  childPfIssued :: "nat list"
  childPfUseful :: "nat list"
  childPfRedundant :: "nat list"
  qfileName :: string
  qtableLoaded :: bool

section \<open>Constants\<close>

definition EPOCH_PRINT_INTERVAL :: u64 where "EPOCH_PRINT_INTERVAL = 20"
definition MISS_SMOOTH_ALPHA :: rat where "MISS_SMOOTH_ALPHA = rnd64 (3 / 10)"
definition EXPLORE_MIN :: rat where "EXPLORE_MIN = rnd64 (1 / 100)"
definition EXPLORE_DECAY :: rat where "EXPLORE_DECAY = rnd64 (9995 / 10000)"
definition ACC_MAX_SPAN :: rat where "ACC_MAX_SPAN = rnd64 (2 / 10)"
definition MaxTrackedPrefetches :: nat where "MaxTrackedPrefetches = 2048"
definition RAND_MAX :: nat where "RAND_MAX = 2147483647"

section \<open>Construction\<close>

definition isalnum :: "char \<Rightarrow> bool" where
  "isalnum c = (let n = of_char c :: nat
                in (48 \<le> n \<and> n \<le> 57) \<or> (65 \<le> n \<and> n \<le> 90) \<or> (97 \<le> n \<and> n \<le> 122))"

definition qfile_name :: "string \<Rightarrow> string \<Rightarrow> string" where
  "qfile_name obj_name cache_name =
     (let safeName = (if cache_name = [] then obj_name else cache_name)
      in ''qtable_'' @ map (\<lambda>ch. if isalnum ch then ch else CHR ''_'') safeName @ ''.bin'')"

definition init_penalties :: "nat \<Rightarrow> rat list" where
  "init_penalties n =
     (let p = replicate n 0;
          p = (if n \<ge> 2 then p[1 := rnd64 (2 / 100)] else p)
      in if n \<ge> 3 then p[2 := rnd64 (3 / 100)] else p)"

definition open_csv :: "bool \<Rightarrow> MLWorld \<Rightarrow> MLWorld" where
  "open_csv debug w =
     (if debug \<and> \<not> gCsvInitialized w
      then w\<lparr>gCsvInitialized := True, csvOpen := canWrite w ''mlprefetch_stats.csv'', csvLines := []\<rparr>
      else w)"

definition newMLPf ::
  "string \<Rightarrow> string \<Rightarrow> 'c list \<Rightarrow> int \<Rightarrow> Tick \<Rightarrow> rat \<Rightarrow> rat \<Rightarrow> bool \<Rightarrow> u64 option \<Rightarrow> Tick \<Rightarrow>
   QueuedPf \<Rightarrow> MLWorld \<Rightarrow> 'c MLPf \<times> MLWorld" where
  "newMLPf obj_name cache_name cs current_action ticks_per_epoch learning_rate explore_rate
     debug_logging cpu_ops now q w =
     (QueuedPf.extend q
       \<lparr>cachePtr = False, cacheName = cache_name, children = cs,
        currentAction = (if current_action < - 1 \<or> current_action \<ge> int (length cs) then 0
                         else current_action),
        numActions = int (length cs) + 1, epoch_ticks = ticks_per_epoch, update_event = None,
        lastAccesses = 0, lastMisses = 0, epochAccesses = 0, epochMisses = 0,
        lastMissRate = 0, smoothedMissRate = 0, lastSmoothedMiss = 0, haveSmoothedMiss = False,
        qTable = [], lastState = 0, lastAction = 0, lastReward = 0,
        learningRate = learning_rate, exploreRate = explore_rate,
        actionPenalties = init_penalties (length cs + 1), debugLogging = debug_logging,
        cpuPtr = (cpu_ops \<noteq> None),
        lastTotalOps = (case cpu_ops of Some ops \<Rightarrow> ops | None \<Rightarrow> 0), lastIpc = 0, lastIpcTick = now,
        childPfTable = [], actionUse = replicate 4 0, childPfIssued = replicate 4 0,
        childPfUseful = replicate 4 0, childPfRedundant = replicate 4 0,
        qfileName = qfile_name obj_name cache_name, qtableLoaded = False\<rparr>,
      open_csv debug_logging w)"

section \<open>Attribution of prefetches to children\<close>

definition bump :: "int \<Rightarrow> nat list \<Rightarrow> nat list" where
  "bump i xs = (if 0 \<le> i \<and> i \<le> 3 then xs[nat i := Suc (xs ! nat i)] else xs)"

definition trackIssuedForChild :: "Tick \<Rightarrow> int \<Rightarrow> Addr \<Rightarrow> 'c MLPf \<Rightarrow> 'c MLPf" where
  "trackIssuedForChild now childIndex addr s =
     (if childIndex < 0 then s
      else
        let s = (if length (childPfTable s) \<ge> MaxTrackedPrefetches then s\<lparr>childPfTable := []\<rparr> else s);
            meta = \<lparr>actionIndex = childIndex, issueTick = now\<rparr>;
            s' = s\<lparr>childPfTable := AList.update addr meta (childPfTable s)\<rparr>
        in case map_of (childPfTable s) addr of
             Some old \<Rightarrow> s'\<lparr>childPfRedundant := bump childIndex (childPfRedundant s)\<rparr>
           | None \<Rightarrow> s'\<lparr>childPfIssued := bump childIndex (childPfIssued s)\<rparr>)"

definition trackUsefulForAddr :: "Addr \<Rightarrow> 'c MLPf \<Rightarrow> 'c MLPf" where
  "trackUsefulForAddr addr s =
     (case map_of (childPfTable s) addr of
        None \<Rightarrow> s
      | Some meta \<Rightarrow>
          s\<lparr>childPfUseful := bump (actionIndex meta) (childPfUseful s),
            childPfTable := AList.delete addr (childPfTable s)\<rparr>)"

section \<open>Training\<close>

fun track_all :: "Tick \<Rightarrow> int \<Rightarrow> AddrPriority list \<Rightarrow> 'c MLPf \<Rightarrow> 'c MLPf" where
  "track_all now i [] s = s"
| "track_all now i (ap # aps) s = track_all now i aps (trackIssuedForChild now i (fst ap) s)"

text \<open>The loop over the children from index \<open>i\<close> on: candidates, children, controller.\<close>

fun train_children ::
  "'c ChildOps \<Rightarrow> Tick \<Rightarrow> PrefetchInfo \<Rightarrow> CacheAccessor \<Rightarrow> int \<Rightarrow> int \<Rightarrow> 'c list \<Rightarrow> 'c MLPf \<Rightarrow>
   (AddrPriority list \<times> 'c list \<times> 'c MLPf) result" where
  "train_children ops now pfi cache active i [] s = Inr ([], [], s)"
| "train_children ops now pfi cache active i (c # cs) s =
     (if \<not> child_queued ops c then
        bindR (train_children ops now pfi cache active (i + 1) cs s) (\<lambda>(as, cs', s').
          Inr (as, c # cs', s'))
      else
        bindR (child_calc ops pfi cache c) (\<lambda>(tmp, c').
        bindR (train_children ops now pfi cache active (i + 1) cs
                 (if i = active then track_all now i tmp s else s)) (\<lambda>(as, cs', s').
          Inr ((if i = active then tmp else []) @ as, c' # cs', s'))))"

definition calculatePrefetch_ML ::
  "'c ChildOps \<Rightarrow> Tick \<Rightarrow> PrefetchInfo \<Rightarrow> CacheAccessor \<Rightarrow> 'c MLPf \<Rightarrow>
   (AddrPriority list \<times> 'c MLPf) result" where
  "calculatePrefetch_ML ops now pfi cache s =
     bindR (train_children ops now pfi cache (currentAction s) 0 (children s) s) (\<lambda>(as, cs, s').
       Inr (as, s'\<lparr>children := cs\<rparr>))"

definition count_access :: "PrefetchInfo \<Rightarrow> 'c MLPf \<Rightarrow> 'c MLPf" where
  "count_access pfi s =
     (let s = s\<lparr>epochAccesses := epochAccesses s + 1\<rparr>
      in if pf_cacheMiss pfi then s\<lparr>epochMisses := epochMisses s + 1\<rparr>
         else trackUsefulForAddr (pf_address pfi) s)"

definition notify_ML ::
  "'c ChildOps \<Rightarrow> Env \<Rightarrow> Packet \<Rightarrow> PrefetchInfo \<Rightarrow> 'c MLPf \<Rightarrow> 'c MLPf result" where
  "notify_ML ops env pkt pfi s =
     notify_queued (calculatePrefetch_ML ops (curTick env)) env pkt pfi (count_access pfi s)"

section \<open>Discretisation\<close>

definition encodeDeltaMiss :: "rat \<Rightarrow> int" where
  "encodeDeltaMiss d =
     (if d < - rnd64 (1 / 10) then 0 else if d < - rnd64 (2 / 100) then 1
      else if d < rnd64 (2 / 100) then 2 else if d < rnd64 (1 / 10) then 3 else 4)"

definition encodeDeltaIpc :: "rat \<Rightarrow> int" where
  "encodeDeltaIpc d =
     (if d < - rnd64 (1 / 10000) then 0 else if d < rnd64 (1 / 10000) then 1 else 2)"

definition encodeAccuracy :: "rat \<Rightarrow> int" where
  "encodeAccuracy a = (if a \<le> rnd64 (2 / 10) then 0 else if a \<le> rnd64 (6 / 10) then 1 else 2)"

definition encode_state :: "int \<Rightarrow> int \<Rightarrow> int \<Rightarrow> u64" where
  "encode_state accBin missBin ipcBin = of_int (accBin * 100 + missBin * 10 + ipcBin)"

section \<open>The bandit\<close>

text \<open>\<open>qTable[state]\<close>, extended with zeros to the number of actions.\<close>

definition sized_row :: "'c MLPf \<Rightarrow> u64 \<Rightarrow> rat list" where
  "sized_row s state =
     (let row = (case map_of (qTable s) state of Some r \<Rightarrow> r | None \<Rightarrow> []);
          n = nat (numActions s)
      in if length row < n then row @ replicate (n - length row) 0 else row)"

fun scan_max :: "rat list \<Rightarrow> int \<Rightarrow> int \<Rightarrow> rat \<Rightarrow> int" where
  "scan_max [] i bestIdx bestVal = bestIdx"
| "scan_max (v # vs) i bestIdx bestVal =
     (if v > bestVal then scan_max vs (i + 1) i v else scan_max vs (i + 1) bestIdx bestVal)"

definition selectAction :: "nat \<Rightarrow> nat \<Rightarrow> u64 \<Rightarrow> 'c MLPf \<Rightarrow> int \<times> 'c MLPf" where
  "selectAction draw1 draw2 state s =
     (let row = sized_row s state;
          s' = s\<lparr>qTable := table_put state row (qTable s)\<rparr>;
          r = fdiv (rnd64 (of_nat draw1)) (rnd64 (of_nat RAND_MAX))
      in if r < exploreRate s then (int draw2 mod numActions s, s')
         else (scan_max (drop 1 (take (nat (numActions s)) row)) 1 0 (row ! 0), s'))"

section \<open>The end of an epoch\<close>

definition miss_sample :: "EpochInput \<Rightarrow> 'c MLPf \<Rightarrow> rat \<times> 'c MLPf" where
  "miss_sample inp s =
     (if cachePtr s then
        let dAcc = ei_accesses inp - lastAccesses s;
            dMis = ei_misses inp - lastMisses s
        in (if dAcc > 0 then fdiv (double_of dMis) (double_of dAcc) else 0,
            s\<lparr>lastAccesses := ei_accesses inp, lastMisses := ei_misses inp\<rparr>)
      else (0, s))"

definition ipc_sample :: "EpochInput \<Rightarrow> 'c MLPf \<Rightarrow> rat \<times> rat \<times> 'c MLPf" where
  "ipc_sample inp s =
     (if cpuPtr s then
        let dt = ei_now inp - lastIpcTick s;
            s' = s\<lparr>lastTotalOps := ei_totalOps inp, lastIpcTick := ei_now inp\<rparr>
        in if dt > 0 then
             let newIpc = fdiv (double_of (ei_totalOps inp - lastTotalOps s)) (double_of dt)
             in (newIpc, fsub newIpc (lastIpc s), s')
           else (lastIpc s, 0, s')
      else (lastIpc s, 0, s))"

definition smooth_sample :: "rat \<Rightarrow> 'c MLPf \<Rightarrow> rat \<times> 'c MLPf" where
  "smooth_sample missRate s =
     (if \<not> haveSmoothedMiss s then
        (0, s\<lparr>smoothedMissRate := missRate, lastSmoothedMiss := missRate, haveSmoothedMiss := True\<rparr>)
      else
        let sm = fadd (fmul MISS_SMOOTH_ALPHA missRate)
                      (fmul (fsub 1 MISS_SMOOTH_ALPHA) (smoothedMissRate s))
        in (fsub sm (smoothedMissRate s),
            s\<lparr>lastSmoothedMiss := smoothedMissRate s, smoothedMissRate := sm\<rparr>))"

definition accuracy_of :: "rat \<Rightarrow> rat \<Rightarrow> rat" where
  "accuracy_of before after =
     (let raw = fsub before after;
          raw = (if raw > ACC_MAX_SPAN then ACC_MAX_SPAN else raw);
          raw = (if raw < - ACC_MAX_SPAN then - ACC_MAX_SPAN else raw)
      in fdiv (fadd raw ACC_MAX_SPAN) (fmul 2 ACC_MAX_SPAN))"

definition shaped_reward :: "rat \<Rightarrow> rat \<Rightarrow> 'c MLPf \<Rightarrow> rat" where
  "shaped_reward ipcDelta accuracy s =
     (let ipcSign = (if ipcDelta < - rnd64 (1 / 1000000) then - 1
                     else if ipcDelta > rnd64 (1 / 1000000) then 1 else 0);
          accCentered = fsub (fmul 2 accuracy) 1;
          reward = fadd (fmul (1 / 2) ipcSign) (fmul (1 / 2) accCentered)
      in if 0 \<le> lastAction s \<and> lastAction s < int (length (actionPenalties s))
         then fsub reward (actionPenalties s ! nat (lastAction s)) else reward)"

definition credit :: "rat \<Rightarrow> 'c MLPf \<Rightarrow> 'c MLPf" where
  "credit reward s =
     (let row = sized_row s (lastState s);
          a = nat (lastAction s);
          row = (if 0 \<le> lastAction s \<and> lastAction s < numActions s
                 then row[a := fadd (row ! a) (fmul (learningRate s) (fsub reward (row ! a)))] else row)
      in s\<lparr>qTable := table_put (lastState s) row (qTable s)\<rparr>)"

definition next_action :: "int \<Rightarrow> int \<Rightarrow> int" where
  "next_action n banditIdx = (if banditIdx = n - 1 then - 1 else banditIdx)"

definition switchTo :: "int \<Rightarrow> 'c MLPf \<Rightarrow> 'c MLPf" where
  "switchTo index s = s\<lparr>currentAction := index\<rparr>"

definition log_epoch :: "bool \<Rightarrow> CsvLine \<Rightarrow> MLWorld \<Rightarrow> MLWorld" where
  "log_epoch debug line w =
     (let w = w\<lparr>epochCount := epochCount w + 1\<rparr>
      in if debug \<and> csvOpen w \<and> epochCount w mod EPOCH_PRINT_INTERVAL = 0
         then w\<lparr>csvLines := csvLines w @ [line\<lparr>csv_epoch := epochCount w\<rparr>]\<rparr> else w)"

definition endEpoch :: "EpochInput \<Rightarrow> 'c MLPf \<Rightarrow> MLWorld \<Rightarrow> 'c MLPf \<times> MLWorld" where
  "endEpoch inp s w =
     (let (missRate, s) = miss_sample inp s;
          (newIpc, ipcDelta, s) = ipc_sample inp s;
          (deltaSmoothedMiss, s) = smooth_sample missRate s;
          accuracy = accuracy_of (lastSmoothedMiss s) (smoothedMissRate s);
          s = s\<lparr>lastMissRate := missRate, lastIpc := newIpc\<rparr>;
          state = encode_state (encodeAccuracy accuracy) (encodeDeltaMiss deltaSmoothedMiss)
                    (encodeDeltaIpc ipcDelta);
          reward = shaped_reward ipcDelta accuracy s;
          s = credit reward (s\<lparr>lastReward := reward\<rparr>);
          (idx, s) = selectAction (ei_draw1 inp) (ei_draw2 inp) state s;
          nextAction = next_action (numActions s) idx;
          s = s\<lparr>actionUse := bump idx (actionUse s),
                exploreRate := max EXPLORE_MIN (fmul (exploreRate s) EXPLORE_DECAY)\<rparr>;
          w = log_epoch (debugLogging s)
                \<lparr>csv_epoch = 0, csv_tick = ei_now inp, csv_state = state, csv_miss_rate = missRate,
                 csv_delta_miss = deltaSmoothedMiss, csv_ipc = newIpc, csv_delta_ipc = ipcDelta,
                 csv_accuracy = accuracy, csv_action = nextAction\<rparr> w;
          s = switchTo nextAction s
      in (s\<lparr>lastState := state, lastAction := idx, epochAccesses := 0, epochMisses := 0\<rparr>, w))"

section \<open>Persistence\<close>

definition byte_of :: "char \<Rightarrow> u8" where
  "byte_of c = of_nat (of_char c)"

definition childrenSignature :: "'c ChildOps \<Rightarrow> 'c MLPf \<Rightarrow> string" where
  "childrenSignature ops s = concat (map (\<lambda>c. child_name ops c @ '';'') (children s))"

definition table_bits :: "rat list table \<Rightarrow> u64 list table" where
  "table_bits t = map (\<lambda>(k, row). (k, map encode_double row)) t"

fun row_doubles :: "u64 list \<Rightarrow> rat list option" where
  "row_doubles [] = Some []"
| "row_doubles (w # ws) =
     (case (decode_double w, row_doubles ws) of (Some x, Some xs) \<Rightarrow> Some (x # xs) | _ \<Rightarrow> None)"

fun table_doubles :: "u64 list table \<Rightarrow> rat list table option" where
  "table_doubles [] = Some []"
| "table_doubles ((k, ws) # t) =
     (case (row_doubles ws, table_doubles t) of (Some r, Some t') \<Rightarrow> Some ((k, r) # t') | _ \<Rightarrow> None)"

definition saveQTable :: "'c ChildOps \<Rightarrow> 'c MLPf \<Rightarrow> MLWorld \<Rightarrow> MLWorld" where
  "saveQTable ops s w =
     (if canWrite w (qfileName s)
      then w\<lparr>fileData := (fileData w)(qfileName s :=
               Some (write_table (map byte_of (childrenSignature ops s)) (table_bits (qTable s))))\<rparr>
      else w)"

definition loadQTable :: "'c ChildOps \<Rightarrow> MLWorld \<Rightarrow> 'c MLPf \<Rightarrow> 'c MLPf result" where
  "loadQTable ops w s =
     (case fileData w (qfileName s) of
        None \<Rightarrow> Inr s
      | Some inp \<Rightarrow>
          (case read_table (map byte_of (childrenSignature ops s)) inp of
             KeepTable \<Rightarrow> Inr s
           | ClearTable \<Rightarrow> Inr (s\<lparr>qTable := []\<rparr>)
           | NewTable t \<Rightarrow>
               (case table_doubles t of
                  None \<Rightarrow> Inl (NotFinite ''qTable'')
                | Some t' \<Rightarrow> Inr (s\<lparr>qTable := t', qtableLoaded := True\<rparr>))))"

section \<open>Events\<close>

text \<open>The event queue refuses an event in the past. It also refuses one that is scheduled already,
  which does not happen: \<open>startup\<close> runs once, and the event queue removes the event before it runs
  \<open>updateModel\<close>.\<close>

definition schedule :: "Tick \<Rightarrow> Tick \<Rightarrow> 'c MLPf \<Rightarrow> 'c MLPf result" where
  "schedule now when s =
     (if when < now then Inl (AssertFailed ''schedule'') else Inr (s\<lparr>update_event := Some when\<rparr>))"

text \<open>\<open>found\<close>: the counters of the cache the name resolves to, if it does.\<close>

definition startup :: "'c ChildOps \<Rightarrow> Tick \<Rightarrow> (u64 \<times> u64) option \<Rightarrow> MLWorld \<Rightarrow> 'c MLPf \<Rightarrow> 'c MLPf result" where
  "startup ops now found w s =
     bindR (loadQTable ops w s) (\<lambda>s.
       let s = (if cacheName s = [] then s
                else (case found of
                        None \<Rightarrow> s\<lparr>cachePtr := False\<rparr>
                      | Some (acc, mis) \<Rightarrow> s\<lparr>cachePtr := True, lastAccesses := acc, lastMisses := mis\<rparr>))
       in schedule now (now + epoch_ticks s) s)"

definition updateModel ::
  "'c ChildOps \<Rightarrow> EpochInput \<Rightarrow> 'c MLPf \<Rightarrow> MLWorld \<Rightarrow> ('c MLPf \<times> MLWorld) result" where
  "updateModel ops inp s w =
     (let (s, w) = endEpoch inp s w;
          w = saveQTable ops s w
      in bindR (schedule (ei_now inp) (ei_now inp + epoch_ticks s) s) (\<lambda>s. Inr (s, w)))"

end
