(* ===== verification/MLInvariants.thy ===== *)
theory MLInvariants
  imports MLController
begin

text \<open>
  The invariant of the learning controller: the action indices stay in range, the Q-table is
  ordered, its states are the few that can occur and its values stay in a fixed interval, and
  the attribution table stays within its limit. Each operation keeps it.
\<close>

section \<open>Brackets for rounded values\<close>

context correct_rounding
begin

text \<open>The update \<open>q + r * (t - q)\<close> with a rate in the unit interval stays within one of its target's
  range, whatever the rounding does.\<close>

lemma step_range:
  fixes lo hi :: int
  assumes "of_int lo \<le> q" "q \<le> of_int hi" "of_int lo + 1 \<le> t" "t \<le> of_int hi - 1"
    "0 \<le> r" "r \<le> 1" "\<bar>lo\<bar> \<le> 2 ^ 50" "\<bar>hi\<bar> \<le> 2 ^ 50"
  shows "of_int lo \<le> rnd (q + rnd (r * rnd (t - q)))" "rnd (q + rnd (r * rnd (t - q))) \<le> of_int hi"
proof -
  define c f where cf_def: "c = \<lceil>max 0 (t - q)\<rceil>" "f = \<lfloor>min 0 (t - q)\<rfloor>"
  have lh: "lo \<le> hi" using assms(1,2) by (metis of_int_le_iff order_trans)
  have d: "of_int (lo - hi) \<le> t - q" "t - q \<le> of_int (hi - lo)" using assms(1-4) by simp_all
  have cf: "0 \<le> c" "f \<le> 0" "c \<le> hi - lo" "lo - hi \<le> f"
    using d lh by (auto simp: cf_def ceiling_le_iff le_floor_iff)
  have "\<bar>c\<bar> \<le> 2 ^ 53" "\<bar>f\<bar> \<le> 2 ^ 53" using cf assms(7,8) by simp_all
  then have small: "rnd (of_int c) = of_int c" "rnd (of_int f) = of_int f"
    by (simp_all add: small_int)
  have cd: "t - q \<le> of_int c" "of_int f \<le> t - q" unfolding cf_def by linarith+
  have y: "rnd (t - q) \<le> of_int c" "of_int f \<le> rnd (t - q)"
    using upper [OF small(1) cd(1)] lower [OF small(2) cd(2)] .
  have "r * rnd (t - q) \<le> of_int c"
  proof -
    have "r * rnd (t - q) \<le> r * of_int c" using y(1) assms(5) by (rule mult_left_mono)
    also have "\<dots> \<le> 1 * of_int c" using assms(6) cf(1) by (intro mult_right_mono) auto
    finally show ?thesis by simp
  qed
  then have zu: "rnd (r * rnd (t - q)) \<le> of_int c" by (rule upper [OF small(1)])
  have "of_int f \<le> r * rnd (t - q)"
  proof -
    have "1 * of_int f \<le> r * of_int f" using assms(6) cf(2) by (intro mult_right_mono_neg) auto
    also have "\<dots> \<le> r * rnd (t - q)" using y(2) assms(5) by (rule mult_left_mono)
    finally show ?thesis by simp
  qed
  then have zl: "of_int f \<le> rnd (r * rnd (t - q))" by (rule lower [OF small(2)])
  have "of_int c < max 0 (t - q) + 1" "min 0 (t - q) - 1 < of_int f" unfolding cf_def by linarith+
  then have "q + of_int c \<le> of_int hi" "of_int lo \<le> q + of_int f"
    using assms(1-4) cf by (auto simp: cf_def max_def min_def split: if_splits)
  then have "q + rnd (r * rnd (t - q)) \<le> of_int hi" "of_int lo \<le> q + rnd (r * rnd (t - q))"
    using zu zl by linarith+
  moreover have "rnd (of_int lo) = of_int lo" "rnd (of_int hi) = of_int hi"
    using assms(7,8) by (intro small_int; simp)+
  ultimately show "of_int lo \<le> rnd (q + rnd (r * rnd (t - q)))" "rnd (q + rnd (r * rnd (t - q))) \<le> of_int hi"
    by (auto intro: upper lower)
qed

end

lemma rnd64_dyadic: "\<bar>m\<bar> \<le> 2 ^ 53 \<Longrightarrow> rnd64 (of_int m / 1024) = of_int m / 1024"
  by (rule rnd64_exact [of _ m "- 10"]) (simp_all add: power_int_minus)

lemma rnd64_ge: "of_int m \<le> 1024 * x \<Longrightarrow> \<bar>m\<bar> \<le> 2 ^ 53 \<Longrightarrow> of_int m \<le> 1024 * rnd64 x"
  using binary64.lower [OF rnd64_dyadic, of m x] by simp

lemma rnd64_le: "1024 * x \<le> of_int m \<Longrightarrow> \<bar>m\<bar> \<le> 2 ^ 53 \<Longrightarrow> 1024 * rnd64 x \<le> of_int m"
  using binary64.upper [OF rnd64_dyadic, of m x] by simp

section \<open>Accuracy, state and reward\<close>

lemma span_bracket: "204 \<le> 1024 * ACC_MAX_SPAN" "1024 * ACC_MAX_SPAN \<le> 205"
  unfolding ACC_MAX_SPAN_def using rnd64_ge [of 204 "2 / 10"] rnd64_le [of "2 / 10" 205] by simp_all

lemma double_span_bracket: "408 \<le> 1024 * rnd64 (2 * ACC_MAX_SPAN)" "1024 * rnd64 (2 * ACC_MAX_SPAN) \<le> 410"
  using rnd64_ge [of 408 "2 * ACC_MAX_SPAN"] rnd64_le [of "2 * ACC_MAX_SPAN" 410] span_bracket by simp_all

text \<open>The clamped improvement, and the accuracy as a function of it.\<close>

definition clamp_span :: "rat \<Rightarrow> rat" where
  "clamp_span x = min ACC_MAX_SPAN (max (- ACC_MAX_SPAN) x)"

definition accuracy_at :: "rat \<Rightarrow> rat" where
  "accuracy_at x = rnd64 (rnd64 (x + ACC_MAX_SPAN) / rnd64 (2 * ACC_MAX_SPAN))"

lemma accuracy_of_at: "accuracy_of before after = accuracy_at (clamp_span (rnd64 (before - after)))"
  using span_bracket
  by (auto simp: accuracy_of_def accuracy_at_def clamp_span_def Let_def fsub_def fadd_def fmul_def fdiv_def
      min_def max_def)

lemma clamp_range: "- ACC_MAX_SPAN \<le> clamp_span x" "clamp_span x \<le> ACC_MAX_SPAN"
  using span_bracket by (auto simp: clamp_span_def)

lemma accuracy_unit: "0 \<le> accuracy_of a b" "accuracy_of a b \<le> 1"
  unfolding accuracy_of_at accuracy_at_def
  by (intro binary64.normalise_unit clamp_range)+

text \<open>Lower and upper bounds of the accuracy from bounds of the improvement, in 1024ths.\<close>

lemma accuracy_ge:
  assumes "of_int m \<le> 1024 * x" "0 \<le> k" "k * 410 \<le> 1024 * (m + 204)" "m + 204 \<le> 2 ^ 53" "0 \<le> m + 204" "k \<le> 2 ^ 53"
  shows "of_int k \<le> 1024 * accuracy_at x"
proof -
  let ?y = "rnd64 (x + ACC_MAX_SPAN)" and ?d = "rnd64 (2 * ACC_MAX_SPAN)"
  have y: "of_int (m + 204) \<le> 1024 * ?y"
    using assms(1,4,5) span_bracket(1) by (intro rnd64_ge) auto
  note d = double_span_bracket(2,1)
  have "of_int k * ?d \<le> of_int k * (410 / 1024)" using d(1) assms(2) by (intro mult_left_mono) auto
  also have "\<dots> = of_int (k * 410) / 1024" by simp
  also have "\<dots> \<le> of_int (1024 * (m + 204)) / 1024"
    using of_int_le_iff [THEN iffD2, OF assms(3)] by (intro divide_right_mono) auto
  also have "\<dots> = of_int (m + 204)" by simp
  finally have "of_int k * ?d \<le> 1024 * ?y" using y by linarith
  then have "of_int k \<le> 1024 * (?y / ?d)" using d(2) by (simp add: field_simps)
  then show ?thesis unfolding accuracy_at_def using assms(2,6) by (intro rnd64_ge) auto
qed

lemma accuracy_le:
  assumes "1024 * x \<le> of_int m" "1024 * (m + 205) \<le> k * 408" "0 \<le> m + 205" "m + 205 \<le> 2 ^ 53" "0 \<le> k" "k \<le> 2 ^ 53"
  shows "1024 * accuracy_at x \<le> of_int k"
proof -
  let ?y = "rnd64 (x + ACC_MAX_SPAN)" and ?d = "rnd64 (2 * ACC_MAX_SPAN)"
  have y: "1024 * ?y \<le> of_int (m + 205)"
    using assms(1,3,4) span_bracket(2) by (intro rnd64_le) auto
  note d = double_span_bracket(1)
  have "of_int (m + 205) = of_int (1024 * (m + 205)) / (1024 :: rat)" by simp
  also have "\<dots> \<le> of_int (k * 408) / 1024"
    using of_int_le_iff [THEN iffD2, OF assms(2)] by (intro divide_right_mono) auto
  also have "\<dots> = of_int k * (408 / 1024)" by simp
  also have "\<dots> \<le> of_int k * ?d" using d assms(5) by (intro mult_left_mono) auto
  finally have "1024 * ?y \<le> of_int k * ?d" using y by linarith
  then have "1024 * (?y / ?d) \<le> of_int k" using d by (simp add: field_simps)
  then show ?thesis unfolding accuracy_at_def using assms(5,6) by (intro rnd64_le) auto
qed

lemma threshold_brackets:
  "102 \<le> 1024 * rnd64 (1 / 10)" "1024 * rnd64 (1 / 10) \<le> 103"
  "20 \<le> 1024 * rnd64 (2 / 100)" "1024 * rnd64 (2 / 100) \<le> 21"
  "204 \<le> 1024 * rnd64 (2 / 10)" "1024 * rnd64 (2 / 10) \<le> 205"
  "614 \<le> 1024 * rnd64 (6 / 10)" "1024 * rnd64 (6 / 10) \<le> 615"
  using rnd64_ge [of 102 "1 / 10"] rnd64_le [of "1 / 10" 103] rnd64_ge [of 20 "2 / 100"]
    rnd64_le [of "2 / 100" 21] rnd64_ge [of 204 "2 / 10"] rnd64_le [of "2 / 10" 205]
    rnd64_ge [of 614 "6 / 10"] rnd64_le [of "6 / 10" 615]
  by simp_all

lemma encodeAccuracy_bins:
  assumes "a = accuracy_at (clamp_span x)"
  shows "102 \<le> 1024 * x \<Longrightarrow> encodeAccuracy a = 2"
    "- 103 \<le> 1024 * x \<Longrightarrow> encodeAccuracy a \<noteq> 0"
    "1024 * x \<le> 21 \<Longrightarrow> encodeAccuracy a \<noteq> 2"
proof -
  have b: "205 < 1024 * y \<Longrightarrow> encodeAccuracy y \<noteq> 0" "615 < 1024 * y \<Longrightarrow> encodeAccuracy y = 2"
    "1024 * y \<le> 614 \<Longrightarrow> encodeAccuracy y \<noteq> 2" for y
    using threshold_brackets(5-8) by (auto simp: encodeAccuracy_def)
  show "encodeAccuracy a = 2" if "102 \<le> 1024 * x"
  proof -
    have "of_int 102 \<le> 1024 * clamp_span x" using that span_bracket by (auto simp: clamp_span_def)
    then have "of_int 764 \<le> 1024 * a" unfolding assms by (rule accuracy_ge) auto
    then show ?thesis by (intro b(2)) simp
  qed
  show "encodeAccuracy a \<noteq> 0" if "- 103 \<le> 1024 * x"
  proof -
    have "of_int (- 103) \<le> 1024 * clamp_span x" using that span_bracket by (auto simp: clamp_span_def)
    then have "of_int 252 \<le> 1024 * a" unfolding assms by (rule accuracy_ge) auto
    then show ?thesis by (intro b(1)) simp
  qed
  show "encodeAccuracy a \<noteq> 2" if "1024 * x \<le> 21"
  proof -
    have "1024 * clamp_span x \<le> of_int 21" using that span_bracket by (auto simp: clamp_span_def)
    then have "1024 * a \<le> of_int 568" unfolding assms by (rule accuracy_le) auto
    then show ?thesis by (intro b(3)) simp
  qed
qed

text \<open>The pairs of accuracy and miss-rate bins that one epoch can produce: the accuracy is
  computed from the same difference as the miss-rate bin.\<close>

definition bin_pairs :: "(int \<times> int) list" where
  "bin_pairs = [(2, 0), (1, 1), (2, 1), (1, 2), (1, 3), (0, 4), (1, 4)]"

lemma encodeAccuracy_range: "encodeAccuracy a \<in> {0, 1, 2}"
  by (simp add: encodeAccuracy_def)

lemma bin_pairs_complete:
  "(encodeAccuracy (accuracy_of before after), encodeDeltaMiss (fsub after before)) \<in> set bin_pairs"
proof -
  let ?d = "fsub after before" and ?a = "accuracy_of before after"
  have a: "?a = accuracy_at (clamp_span (- ?d))"
    unfolding accuracy_of_at fsub_def using rnd64_minus [of "after - before"] by simp
  note B = encodeAccuracy_bins [OF a] and T = threshold_brackets(1-4) and R = encodeAccuracy_range [of ?a]
  have M: "encodeDeltaMiss ?d = 0 \<Longrightarrow> 102 \<le> 1024 * (- ?d)"
    "encodeDeltaMiss ?d = 1 \<Longrightarrow> - 103 \<le> 1024 * (- ?d)"
    "encodeDeltaMiss ?d = 2 \<Longrightarrow> - 103 \<le> 1024 * (- ?d) \<and> 1024 * (- ?d) \<le> 21"
    "encodeDeltaMiss ?d = 3 \<Longrightarrow> - 103 \<le> 1024 * (- ?d) \<and> 1024 * (- ?d) \<le> 21"
    "encodeDeltaMiss ?d = 4 \<Longrightarrow> 1024 * (- ?d) \<le> 21"
    using T by (auto simp: encodeDeltaMiss_def split: if_splits)
  have "encodeDeltaMiss ?d \<in> {0, 1, 2, 3, 4}" by (simp add: encodeDeltaMiss_def)
  then consider "encodeDeltaMiss ?d = 0" | "encodeDeltaMiss ?d = 1" | "encodeDeltaMiss ?d = 2"
    | "encodeDeltaMiss ?d = 3" | "encodeDeltaMiss ?d = 4" by auto
  then show ?thesis
  proof cases
    case 1
    then show ?thesis using B(1) M(1) by (simp add: bin_pairs_def)
  next
    case 2
    then show ?thesis using B(2) M(2) R by (auto simp: bin_pairs_def)
  next
    case 3
    then show ?thesis using B(2,3) M(3) R by (auto simp: bin_pairs_def)
  next
    case 4
    then show ?thesis using B(2,3) M(4) R by (auto simp: bin_pairs_def)
  next
    case 5
    then show ?thesis using B(3) M(5) R by (auto simp: bin_pairs_def)
  qed
qed

text \<open>The states: those pairs with an IPC bin, and the state 0 the controller starts in.\<close>

definition epoch_states :: "u64 list" where
  "epoch_states = concat (map (\<lambda>(a, m). map (encode_state a m) [0, 1, 2]) bin_pairs)"

lemma epoch_states_eq:
  "epoch_states = [200, 201, 202, 110, 111, 112, 210, 211, 212, 120, 121, 122, 130, 131, 132,
     40, 41, 42, 140, 141, 142]"
  by (simp add: epoch_states_def bin_pairs_def encode_state_def)

lemma encode_state_mem:
  "encode_state (encodeAccuracy (accuracy_of before after)) (encodeDeltaMiss (fsub after before))
     (encodeDeltaIpc d) \<in> set epoch_states"
proof -
  have "encodeDeltaIpc d \<in> {0, 1, 2}" by (simp add: encodeDeltaIpc_def)
  then show ?thesis using bin_pairs_complete [of before after] by (force simp: epoch_states_def)
qed

lemma shaped_reward_range:
  assumes "\<forall>p \<in> set (actionPenalties s). 0 \<le> p \<and> p \<le> 1" "0 \<le> a" "a \<le> 1"
  shows "- 2 \<le> shaped_reward d a s" "shaped_reward d a s \<le> 1"
proof -
  let ?i = "if d < - rnd64 (1 / 1000000) then - 1 else if d > rnd64 (1 / 1000000) then 1 else 0 :: rat"
  let ?r = "rnd64 (rnd64 (1 / 2 * ?i) + rnd64 (1 / 2 * rnd64 (rnd64 (2 * a) - 1)))"
  have r: "- 1 \<le> ?r" "?r \<le> 1"
    using binary64.centre_unit [OF assms(2,3)] by (intro binary64.halves_sum; simp)+
  have p: "- 2 \<le> rnd64 (?r - p) \<and> rnd64 (?r - p) \<le> 1" if "0 \<le> p" "p \<le> 1" for p
    using that r binary64.lower [of "- 2" "?r - p"] binary64.upper [of 1 "?r - p"]
      rnd64_int [of "- 2"] binary64.rnd_numerals by auto
  have "shaped_reward d a s = ?r \<or> (\<exists>p \<in> set (actionPenalties s). shaped_reward d a s = rnd64 (?r - p))"
    by (auto simp: shaped_reward_def Let_def fsub_def fmul_def fadd_def)
  then show "- 2 \<le> shaped_reward d a s" "shaped_reward d a s \<le> 1" using r p assms(1) by fastforce+
qed

section \<open>The invariant\<close>

definition good_row :: "rat list \<Rightarrow> bool" where
  "good_row row \<longleftrightarrow> length row < 2 ^ 32 \<and> (\<forall>q \<in> set row. is_double q \<and> - 3 \<le> q \<and> q \<le> 2)"

definition good_state :: "u64 \<Rightarrow> bool" where
  "good_state k \<longleftrightarrow> k = 0 \<or> k \<in> set epoch_states"

definition good_table :: "rat list table \<Rightarrow> bool" where
  "good_table t \<longleftrightarrow> table_wf t \<and> (\<forall>k \<in> fst ` set t. good_state k) \<and> (\<forall>row \<in> snd ` set t. good_row row)"

definition actions_wf :: "'c MLPf \<Rightarrow> bool" where
  "actions_wf s \<longleftrightarrow> length (children s) < 2 ^ 31 \<and> numActions s = int (length (children s)) + 1 \<and>
     length (actionPenalties s) = length (children s) + 1 \<and>
     (\<forall>p \<in> set (actionPenalties s). 0 \<le> p \<and> p \<le> 1) \<and>
     0 \<le> lastAction s \<and> lastAction s < numActions s \<and>
     - 1 \<le> currentAction s \<and> currentAction s < max 1 (int (length (children s))) \<and>
     0 \<le> learningRate s \<and> learningRate s \<le> 1"

definition track_wf :: "'c MLPf \<Rightarrow> bool" where
  "track_wf s \<longleftrightarrow> distinct (map fst (childPfTable s)) \<and> length (childPfTable s) \<le> MaxTrackedPrefetches \<and>
     (\<forall>m \<in> snd ` set (childPfTable s). 0 \<le> actionIndex m \<and> actionIndex m < int (length (children s))) \<and>
     length (actionUse s) = 4 \<and> length (childPfIssued s) = 4 \<and> length (childPfUseful s) = 4 \<and>
     length (childPfRedundant s) = 4 \<and>
     (length (children s) \<le> 4 \<longrightarrow>
        sum_list (childPfUseful s) + length (childPfTable s) \<le> sum_list (childPfIssued s))"

definition ml_wf :: "'c MLPf \<Rightarrow> bool" where
  "ml_wf s \<longleftrightarrow> actions_wf s \<and> track_wf s \<and> good_table (qTable s) \<and> good_state (lastState s)"

lemmas ml_defs = ml_wf_def actions_wf_def track_wf_def

lemma good_table_put: "good_table t \<Longrightarrow> good_state k \<Longrightarrow> good_row row \<Longrightarrow> good_table (table_put k row t)"
proof -
  assume a: "good_table t" "good_state k" "good_row row"
  have "good_row r" if "r \<in> snd ` set (table_put k row t)" for r
    using table_put_snd [OF that] a(1,3) unfolding good_table_def by metis
  moreover have "table_wf (table_put k row t)" using a(1) by (simp add: good_table_def table_put_wf)
  moreover have "\<forall>k' \<in> fst ` set (table_put k row t). good_state k'"
    unfolding set_table_put using a(1,2) by (simp add: good_table_def)
  ultimately show ?thesis unfolding good_table_def by blast
qed

lemma good_table_row: "good_table t \<Longrightarrow> map_of t k = Some row \<Longrightarrow> good_row row"
  by (auto simp: good_table_def dest!: map_of_SomeD)

lemma zero_double [simp]: "is_double 0"
  by (simp add: is_double_def)

lemma sized_row_good:
  assumes "good_table (qTable s)" "numActions s < 2 ^ 32"
  shows "good_row (sized_row s k)" "nat (numActions s) \<le> length (sized_row s k)"
proof -
  let ?row = "case map_of (qTable s) k of Some r \<Rightarrow> r | None \<Rightarrow> []"
  have "good_row ?row" using good_table_row [OF assms(1), of k] by (auto simp: good_row_def split: option.split)
  then show "good_row (sized_row s k)" using assms(2) by (auto simp: sized_row_def Let_def good_row_def)
  show "nat (numActions s) \<le> length (sized_row s k)" by (simp add: sized_row_def Let_def)
qed

lemma good_row_update: "good_row row \<Longrightarrow> is_double q \<Longrightarrow> - 3 \<le> q \<Longrightarrow> q \<le> 2 \<Longrightarrow> good_row (row[i := q])"
  unfolding good_row_def using set_update_subset_insert [of row i q] by auto

lemma q_step:
  assumes "- 3 \<le> q" "q \<le> 2" "- 2 \<le> t" "t \<le> 1" "0 \<le> r" "r \<le> 1"
  shows "- 3 \<le> rnd64 (q + rnd64 (r * rnd64 (t - q))) \<and> rnd64 (q + rnd64 (r * rnd64 (t - q))) \<le> 2"
  using binary64.step_range [of "- 3" q 2 t r] assms by simp

lemma credit_good:
  assumes "actions_wf s" "good_table (qTable s)" "good_state (lastState s)" "- 2 \<le> reward" "reward \<le> 1"
  shows "good_table (qTable (credit reward s))"
proof -
  let ?row = "sized_row s (lastState s)" and ?a = "nat (lastAction s)"
  let ?q = "?row ! ?a"
  let ?v = "rnd64 (?q + rnd64 (learningRate s * rnd64 (reward - ?q)))"
  have n: "numActions s < 2 ^ 32" "?a < nat (numActions s)" using assms(1) by (auto simp: actions_wf_def)
  have r: "good_row ?row" "?a < length ?row"
    using sized_row_good [OF assms(2) n(1), of "lastState s"] n(2) by auto
  then have q: "- 3 \<le> ?q" "?q \<le> 2" by (simp_all add: good_row_def)
  have "0 \<le> learningRate s" "learningRate s \<le> 1" using assms(1) by (simp_all add: actions_wf_def)
  from q_step [OF q assms(4,5) this] have "- 3 \<le> ?v" "?v \<le> 2" by blast+
  moreover have "is_double ?v" by (simp add: is_double_def rnd64_idem)
  ultimately have "good_row (?row[?a := ?v])" using r(1) by (intro good_row_update)
  then have "good_table (table_put (lastState s) (?row[?a := ?v]) (qTable s))"
    using assms(2,3) by (intro good_table_put)
  then show ?thesis using assms(1)
    by (simp add: credit_def Let_def fadd_def fmul_def fsub_def actions_wf_def)
qed

lemma credit_frame: "\<exists>t. credit reward s = s\<lparr>qTable := t\<rparr>"
  by (auto simp: credit_def Let_def)

text \<open>The greedy scan returns the first index of a largest value.\<close>

lemma scan_max_spec:
  assumes "i \<ge> 0" "0 \<le> b" "b < i"
  shows "(scan_max vs i b bv = b \<and> (\<forall>v \<in> set vs. v \<le> bv)) \<or>
    (\<exists>k < length vs. scan_max vs i b bv = i + int k \<and> vs ! k > bv \<and>
       (\<forall>j < length vs. vs ! j \<le> vs ! k) \<and> (\<forall>j < k. vs ! j < vs ! k))"
  using assms
proof (induction vs arbitrary: i b bv)
  case (Cons v vs)
  show ?case
  proof (cases "v > bv")
    case True
    from Cons.IH [of "i + 1" i v] Cons.prems
    consider "scan_max vs (i + 1) i v = i" "\<forall>u \<in> set vs. u \<le> v"
      | k where "k < length vs" "scan_max vs (i + 1) i v = i + 1 + int k" "vs ! k > v"
          "\<forall>j < length vs. vs ! j \<le> vs ! k" "\<forall>j < k. vs ! j < vs ! k" by auto
    then show ?thesis
    proof cases
      case 1
      then show ?thesis using True by (intro disjI2 exI [of _ 0]) (auto simp: nth_Cons split: nat.split)
    next
      case 2
      then show ?thesis using True
        by (intro disjI2 exI [of _ "Suc k"]) (auto simp: nth_Cons split: nat.split)
    qed
  next
    case False
    from Cons.IH [of "i + 1" b bv] Cons.prems
    consider "scan_max vs (i + 1) b bv = b" "\<forall>u \<in> set vs. u \<le> bv"
      | k where "k < length vs" "scan_max vs (i + 1) b bv = i + 1 + int k" "vs ! k > bv"
          "\<forall>j < length vs. vs ! j \<le> vs ! k" "\<forall>j < k. vs ! j < vs ! k" by auto
    then show ?thesis
    proof cases
      case 1
      then show ?thesis using False by auto
    next
      case 2
      then show ?thesis using False
        by (intro disjI2 exI [of _ "Suc k"]) (auto simp: nth_Cons split: nat.split)
    qed
  qed
qed simp

lemma greedy_spec:
  assumes "0 < n" "n \<le> length row"
  obtains k where "scan_max (drop 1 (take n row)) 1 0 (row ! 0) = int k" "k < n"
    "\<forall>j < n. row ! j \<le> row ! k" "\<forall>j < k. row ! j < row ! k"
proof -
  let ?vs = "drop 1 (take n row)"
  have l: "length ?vs = n - 1" using assms by simp
  have nt: "?vs ! j = row ! Suc j" if "j < n - 1" for j using that assms by simp
  have all: "(\<forall>j < n. P j) \<longleftrightarrow> P 0 \<and> (\<forall>j < n - 1. P (Suc j))" for P
    using assms(1) by (metis Suc_less_eq Suc_pred' not0_implies_Suc)
  from scan_max_spec [of 1 0 ?vs "row ! 0"]
  consider "scan_max ?vs 1 0 (row ! 0) = 0" "\<forall>v \<in> set ?vs. v \<le> row ! 0"
    | k where "k < n - 1" "scan_max ?vs 1 0 (row ! 0) = 1 + int k" "?vs ! k > row ! 0"
        "\<forall>j < n - 1. ?vs ! j \<le> ?vs ! k" "\<forall>j < k. ?vs ! j < ?vs ! k" unfolding l by auto
  then show thesis
  proof cases
    case 1
    then have "\<forall>j < n - 1. row ! Suc j \<le> row ! 0" using nt l by (metis nth_mem)
    then show thesis using that [of 0] 1(1) assms(1) all [of "\<lambda>j. row ! j \<le> row ! 0"] by simp
  next
    case 2
    then have "\<forall>j < n. row ! j \<le> row ! Suc k" unfolding all using nt by auto
    moreover have "\<forall>j < Suc k. row ! j < row ! Suc k"
      using 2 nt by (auto simp: less_Suc_eq_0_disj)
    ultimately show thesis using that [of "Suc k"] 2(1,2) by simp
  qed
qed

lemma selectAction_facts:
  assumes "selectAction d1 d2 k s = (idx, s')" "actions_wf s" "good_table (qTable s)" "good_state k"
  shows "0 \<le> idx" "idx < numActions s" "good_table (qTable s')" "\<exists>t. s' = s\<lparr>qTable := t\<rparr>"
proof -
  have n: "0 < numActions s" "numActions s < 2 ^ 32" using assms(2) by (auto simp: actions_wf_def)
  note row = sized_row_good [OF assms(3) n(2), of k]
  obtain b where b: "scan_max (drop 1 (take (nat (numActions s)) (sized_row s k))) 1 0 (sized_row s k ! 0) = int b"
    "b < nat (numActions s)"
    by (rule greedy_spec [of "nat (numActions s)" "sized_row s k"]) (use n(1) row(2) in auto)
  have s': "s' = s\<lparr>qTable := table_put k (sized_row s k) (qTable s)\<rparr>"
    and idx: "idx = int d2 mod numActions s \<or> idx = int b"
    using assms(1) b(1) by (auto simp: selectAction_def Let_def split: if_splits)
  show "0 \<le> idx" "idx < numActions s" using idx b(2) n(1) by auto
  show "good_table (qTable s')" using good_table_put [OF assms(3,4) row(1)] by (simp add: s')
  show "\<exists>t. s' = s\<lparr>qTable := t\<rparr>" using s' by blast
qed

section \<open>The end of an epoch\<close>

text \<open>The controller once the measurements are in: nothing but the measurements has changed.\<close>

definition measured ::
  "u64 \<Rightarrow> u64 \<Rightarrow> u64 \<Rightarrow> Tick \<Rightarrow> rat \<Rightarrow> rat \<Rightarrow> rat \<Rightarrow> rat \<Rightarrow> 'c MLPf \<Rightarrow> 'c MLPf" where
  "measured acc mis ops t before after mr ipc s =
     s\<lparr>lastAccesses := acc, lastMisses := mis, lastTotalOps := ops, lastIpcTick := t,
       lastSmoothedMiss := before, smoothedMissRate := after, haveSmoothedMiss := True,
       lastMissRate := mr, lastIpc := ipc\<rparr>"

lemma measured_frame [simp]:
  "children (measured acc mis ops t before after mr ipc s) = children s"
  "numActions (measured acc mis ops t before after mr ipc s) = numActions s"
  "actionPenalties (measured acc mis ops t before after mr ipc s) = actionPenalties s"
  "lastAction (measured acc mis ops t before after mr ipc s) = lastAction s"
  "currentAction (measured acc mis ops t before after mr ipc s) = currentAction s"
  "learningRate (measured acc mis ops t before after mr ipc s) = learningRate s"
  "exploreRate (measured acc mis ops t before after mr ipc s) = exploreRate s"
  "qTable (measured acc mis ops t before after mr ipc s) = qTable s"
  "lastState (measured acc mis ops t before after mr ipc s) = lastState s"
  "childPfTable (measured acc mis ops t before after mr ipc s) = childPfTable s"
  "actionUse (measured acc mis ops t before after mr ipc s) = actionUse s"
  "childPfIssued (measured acc mis ops t before after mr ipc s) = childPfIssued s"
  "childPfUseful (measured acc mis ops t before after mr ipc s) = childPfUseful s"
  "childPfRedundant (measured acc mis ops t before after mr ipc s) = childPfRedundant s"
  "qfileName (measured acc mis ops t before after mr ipc s) = qfileName s"
  "QueuedPf.truncate (measured acc mis ops t before after mr ipc s) = QueuedPf.truncate s"
  by (simp_all add: measured_def QueuedPf.truncate_def)

lemma miss_sample_frame: "\<exists>r a m. miss_sample inp s = (r, s\<lparr>lastAccesses := a, lastMisses := m\<rparr>)"
proof (cases "cachePtr s")
  case True
  then show ?thesis by (auto simp: miss_sample_def Let_def)
next
  case False
  then have "miss_sample inp s = (0, s\<lparr>lastAccesses := lastAccesses s, lastMisses := lastMisses s\<rparr>)"
    by (simp add: miss_sample_def)
  then show ?thesis by blast
qed

lemma ipc_sample_frame: "\<exists>n d ops t. ipc_sample inp s = (n, d, s\<lparr>lastTotalOps := ops, lastIpcTick := t\<rparr>)"
proof (cases "cpuPtr s")
  case True
  then show ?thesis by (auto simp: ipc_sample_def Let_def)
next
  case False
  then have "ipc_sample inp s = (lastIpc s, 0, s\<lparr>lastTotalOps := lastTotalOps s, lastIpcTick := lastIpcTick s\<rparr>)"
    by (simp add: ipc_sample_def)
  then show ?thesis by blast
qed

lemma smooth_sample_frame:
  "\<exists>before after. smooth_sample mr s = (fsub after before,
     s\<lparr>lastSmoothedMiss := before, smoothedMissRate := after, haveSmoothedMiss := True\<rparr>)"
proof (cases "haveSmoothedMiss s")
  case True
  have "s\<lparr>haveSmoothedMiss := haveSmoothedMiss s\<rparr> = s" by simp
  then have h: "s\<lparr>haveSmoothedMiss := True\<rparr> = s" by (simp only: True)
  have "(s\<lparr>haveSmoothedMiss := True\<rparr>)\<lparr>lastSmoothedMiss := x, smoothedMissRate := y\<rparr>
      = s\<lparr>lastSmoothedMiss := x, smoothedMissRate := y, haveSmoothedMiss := True\<rparr>" for x y
    by simp
  then have "s\<lparr>lastSmoothedMiss := x, smoothedMissRate := y\<rparr>
      = s\<lparr>lastSmoothedMiss := x, smoothedMissRate := y, haveSmoothedMiss := True\<rparr>" for x y
    unfolding h .
  then show ?thesis using True unfolding smooth_sample_def Let_def by (simp only: not_True_eq_False if_False) blast
next
  case False
  have "smooth_sample mr s = (fsub mr mr,
     s\<lparr>lastSmoothedMiss := mr, smoothedMissRate := mr, haveSmoothedMiss := True\<rparr>)"
    using False by (simp add: smooth_sample_def fsub_def)
  then show ?thesis by blast
qed

text \<open>An epoch in three steps: measure, credit, choose.\<close>

lemma endEpoch_cases:
  obtains acc mis ops t before after mr ipc d s1 s2 reward idx state where
    "s1 = (measured acc mis ops t before after mr ipc s)\<lparr>lastReward := reward\<rparr>"
    "reward = shaped_reward d (accuracy_of before after) s"
    "state = encode_state (encodeAccuracy (accuracy_of before after)) (encodeDeltaMiss (fsub after before))
       (encodeDeltaIpc d)"
    "selectAction (ei_draw1 inp) (ei_draw2 inp) state (credit reward s1) = (idx, s2)"
    "fst (endEpoch inp s w) = s2\<lparr>actionUse := bump idx (actionUse s2),
       exploreRate := max EXPLORE_MIN (fmul (exploreRate s2) EXPLORE_DECAY),
       currentAction := next_action (numActions s2) idx, lastState := state, lastAction := idx,
       epochAccesses := 0, epochMisses := 0\<rparr>"
proof -
  obtain mr acc mis where 1: "miss_sample inp s = (mr, s\<lparr>lastAccesses := acc, lastMisses := mis\<rparr>)"
    using miss_sample_frame by blast
  obtain ipc d ops t where 2: "ipc_sample inp (s\<lparr>lastAccesses := acc, lastMisses := mis\<rparr>) = (ipc, d,
      s\<lparr>lastAccesses := acc, lastMisses := mis, lastTotalOps := ops, lastIpcTick := t\<rparr>)"
    using ipc_sample_frame by blast
  obtain before after where 3: "smooth_sample mr (s\<lparr>lastAccesses := acc, lastMisses := mis,
      lastTotalOps := ops, lastIpcTick := t\<rparr>) = (fsub after before, s\<lparr>lastAccesses := acc, lastMisses := mis,
      lastTotalOps := ops, lastIpcTick := t, lastSmoothedMiss := before, smoothedMissRate := after,
      haveSmoothedMiss := True\<rparr>)"
    using smooth_sample_frame by blast
  let ?m = "measured acc mis ops t before after mr ipc s" and ?a = "accuracy_of before after"
  define state where "state = encode_state (encodeAccuracy ?a) (encodeDeltaMiss (fsub after before)) (encodeDeltaIpc d)"
  define reward where "reward = shaped_reward d ?a s"
  have rw: "shaped_reward d ?a ?m = reward"
    unfolding reward_def shaped_reward_def Let_def measured_frame ..
  obtain idx s2 where 4: "selectAction (ei_draw1 inp) (ei_draw2 inp) state (credit reward (?m\<lparr>lastReward := reward\<rparr>)) = (idx, s2)"
    by fastforce
  show thesis
  proof (rule that [OF refl reward_def state_def 4])
    show "fst (endEpoch inp s w) = s2\<lparr>actionUse := bump idx (actionUse s2),
       exploreRate := max EXPLORE_MIN (fmul (exploreRate s2) EXPLORE_DECAY),
       currentAction := next_action (numActions s2) idx, lastState := state, lastAction := idx,
       epochAccesses := 0, epochMisses := 0\<rparr>"
      using rw 4 unfolding measured_def state_def
      by (simp add: endEpoch_def 1 2 3 Let_def switchTo_def)
  qed
qed

lemma length_bump [simp]: "length (bump i xs) = length xs"
  by (simp add: bump_def)

lemma endEpoch_facts:
  assumes "ml_wf s"
  obtains acc mis ops t before after mr ipc reward tab idx state where
    "fst (endEpoch inp s w) = (measured acc mis ops t before after mr ipc s)\<lparr>lastReward := reward,
       qTable := tab, actionUse := bump idx (actionUse s),
       exploreRate := max EXPLORE_MIN (fmul (exploreRate s) EXPLORE_DECAY),
       currentAction := next_action (numActions s) idx, lastState := state, lastAction := idx,
       epochAccesses := 0, epochMisses := 0\<rparr>"
    "good_table tab" "state \<in> set epoch_states" "0 \<le> idx" "idx < numActions s"
    "- 2 \<le> reward" "reward \<le> 1"
proof -
  obtain acc mis ops t before after mr ipc d s1 s2 reward idx state where
    s1: "s1 = (measured acc mis ops t before after mr ipc s)\<lparr>lastReward := reward\<rparr>"
    and r: "reward = shaped_reward d (accuracy_of before after) s"
    and st: "state = encode_state (encodeAccuracy (accuracy_of before after)) (encodeDeltaMiss (fsub after before))
       (encodeDeltaIpc d)"
    and sel: "selectAction (ei_draw1 inp) (ei_draw2 inp) state (credit reward s1) = (idx, s2)"
    and e: "fst (endEpoch inp s w) = s2\<lparr>actionUse := bump idx (actionUse s2),
       exploreRate := max EXPLORE_MIN (fmul (exploreRate s2) EXPLORE_DECAY),
       currentAction := next_action (numActions s2) idx, lastState := state, lastAction := idx,
       epochAccesses := 0, epochMisses := 0\<rparr>"
    by (rule endEpoch_cases [where inp = inp and s = s and w = w])
  have wf: "actions_wf s" "good_table (qTable s)" "good_state (lastState s)" using assms by (simp_all add: ml_wf_def)
  have rw: "- 2 \<le> reward" "reward \<le> 1"
    unfolding r using wf(1) accuracy_unit by (intro shaped_reward_range; simp add: actions_wf_def)+
  have a1: "actions_wf s1" "good_table (qTable s1)" "good_state (lastState s1)"
    using wf by (simp_all add: s1 actions_wf_def)
  obtain t1 where c: "credit reward s1 = s1\<lparr>qTable := t1\<rparr>" using credit_frame by blast
  have g1: "good_table t1" using credit_good [OF a1 rw] by (simp add: c)
  have k: "state \<in> set epoch_states" unfolding st by (rule encode_state_mem)
  then have gk: "good_state state" by (simp add: good_state_def)
  have a2: "actions_wf (credit reward s1)" using a1(1) by (simp add: c actions_wf_def)
  have g2: "good_table (qTable (credit reward s1))" using g1 by (simp add: c)
  note f = selectAction_facts [OF sel a2 g2 gk]
  obtain tab where s2: "s2 = s1\<lparr>qTable := tab\<rparr>" using f(4) by (auto simp: c)
  have "numActions (credit reward s1) = numActions s" by (subst c) (simp add: s1)
  then have "0 \<le> idx" "idx < numActions s" "good_table tab" using f(1-3) by (simp_all add: s2)
  moreover have "fst (endEpoch inp s w) = (measured acc mis ops t before after mr ipc s)\<lparr>lastReward := reward,
       qTable := tab, actionUse := bump idx (actionUse s),
       exploreRate := max EXPLORE_MIN (fmul (exploreRate s) EXPLORE_DECAY),
       currentAction := next_action (numActions s) idx, lastState := state, lastAction := idx,
       epochAccesses := 0, epochMisses := 0\<rparr>"
    unfolding e s2 s1 by simp
  ultimately show thesis using that k rw by blast
qed

lemma endEpoch_wf:
  assumes "ml_wf s"
  shows "ml_wf (fst (endEpoch inp s w))" "QueuedPf.truncate (fst (endEpoch inp s w)) = QueuedPf.truncate s"
    "children (fst (endEpoch inp s w)) = children s"
proof -
  obtain acc mis ops t before after mr ipc reward tab idx state where
    e: "fst (endEpoch inp s w) = (measured acc mis ops t before after mr ipc s)\<lparr>lastReward := reward,
       qTable := tab, actionUse := bump idx (actionUse s),
       exploreRate := max EXPLORE_MIN (fmul (exploreRate s) EXPLORE_DECAY),
       currentAction := next_action (numActions s) idx, lastState := state, lastAction := idx,
       epochAccesses := 0, epochMisses := 0\<rparr>"
    and f: "good_table tab" "state \<in> set epoch_states" "0 \<le> idx" "idx < numActions s"
    by (rule endEpoch_facts [OF assms, where inp = inp and w = w])
  show "ml_wf (fst (endEpoch inp s w))"
    unfolding e using assms f by (auto simp: ml_defs good_state_def next_action_def)
  show "QueuedPf.truncate (fst (endEpoch inp s w)) = QueuedPf.truncate s"
    unfolding e by (simp add: measured_def QueuedPf.truncate_def)
  show "children (fst (endEpoch inp s w)) = children s" unfolding e by simp
qed

section \<open>Attribution\<close>

lemma update_length:
  "length (AList.update k v xs) = (if k \<in> fst ` set xs then length xs else Suc (length xs))"
  by (induction xs) (auto simp: image_iff)

lemma set_alist_update: "set (AList.update k v xs) \<subseteq> insert (k, v) (set xs)"
  by (induction xs) auto

lemma delete_facts: "distinct (map fst xs) \<Longrightarrow> distinct (map fst (AList.delete k xs))"
  "set (AList.delete k xs) \<subseteq> set xs" "length (AList.delete k xs) \<le> length xs"
  by (auto simp: distinct_delete) (auto simp: AList.delete_eq)

lemma sum_bump:
  assumes "length xs = 4" "0 \<le> i" "i < 4"
  shows "sum_list (bump i xs) = Suc (sum_list xs)"
proof -
  have i: "nat i < length xs" using assms by simp
  then have "sum_list (xs[nat i := Suc (xs ! nat i)]) + xs ! nat i = sum_list xs + Suc (xs ! nat i)"
    using sum_list_update [OF i, of "Suc (xs ! nat i)"] elem_le_sum_list [OF i] by simp
  then show ?thesis using assms by (simp add: bump_def)
qed

lemma trackIssued_eq:
  fixes s :: "'c MLPf"
  assumes "\<not> i < 0"
  defines "t \<equiv> if length (childPfTable s) \<ge> MaxTrackedPrefetches then [] else childPfTable s"
  shows "trackIssuedForChild now i addr s = s\<lparr>
      childPfTable := AList.update addr \<lparr>actionIndex = i, issueTick = now\<rparr> t,
      childPfIssued := (if map_of t addr = None then bump i (childPfIssued s) else childPfIssued s),
      childPfRedundant := (if map_of t addr = None then childPfRedundant s else bump i (childPfRedundant s))\<rparr>"
proof -
  have "(if length (childPfTable s) \<ge> MaxTrackedPrefetches then s\<lparr>childPfTable := []\<rparr> else s) = s\<lparr>childPfTable := t\<rparr>"
    by (simp add: t_def)
  then show ?thesis using assms(1) by (simp add: trackIssuedForChild_def Let_def split: option.split)
qed

lemma trackIssued_wf:
  assumes "track_wf s" "i < int (length (children s))"
  shows "track_wf (trackIssuedForChild now i addr s)"
proof (cases "i < 0")
  case True
  then show ?thesis using assms(1) by (simp add: trackIssuedForChild_def)
next
  case False
  define t where "t = (if length (childPfTable s) \<ge> MaxTrackedPrefetches then [] else childPfTable s)"
  define u where "u = AList.update addr \<lparr>actionIndex = i, issueTick = now\<rparr> t"
  have t: "distinct (map fst t)" "length t < MaxTrackedPrefetches" "length t \<le> length (childPfTable s)"
    "\<forall>m \<in> snd ` set t. 0 \<le> actionIndex m \<and> actionIndex m < int (length (children s))"
    using assms(1) by (auto simp: t_def track_wf_def MaxTrackedPrefetches_def)
  have l: "length u = (if map_of t addr = None then Suc (length t) else length t)"
    by (simp add: u_def update_length map_of_eq_None_iff)
  have "distinct (map fst u)" unfolding u_def using t(1) by (rule distinct_update)
  moreover have "\<forall>m \<in> snd ` set u. 0 \<le> actionIndex m \<and> actionIndex m < int (length (children s))"
    using t(4) False assms(2) set_alist_update [of addr "\<lparr>actionIndex = i, issueTick = now\<rparr>" t]
    unfolding u_def by fastforce
  moreover have "sum_list (childPfUseful s) + length u
      \<le> sum_list (if map_of t addr = None then bump i (childPfIssued s) else childPfIssued s)"
    if "length (children s) \<le> 4"
    using assms that t(3) sum_bump [of "childPfIssued s" i] False by (auto simp: l track_wf_def)
  ultimately show ?thesis
    using assms(1) t(2) l unfolding trackIssued_eq [OF False, where s = s and now = now and addr = addr, folded t_def, folded u_def]
    by (auto simp: track_wf_def)
qed

lemma delete_length:
  "distinct (map fst xs) \<Longrightarrow> map_of xs k = Some v \<Longrightarrow> Suc (length (AList.delete k xs)) = length xs"
proof (induction xs)
  case (Cons e xs)
  show ?case
  proof (cases "fst e = k")
    case True
    then have "AList.delete k xs = xs" using Cons.prems(1) by (auto simp: AList.delete_eq image_iff intro!: filter_True)
    then show ?thesis using True by (cases e) simp
  next
    case False
    then show ?thesis using Cons by (cases e) auto
  qed
qed simp

lemma trackUseful_wf:
  assumes "track_wf s"
  shows "track_wf (trackUsefulForAddr addr s)"
proof (cases "map_of (childPfTable s) addr")
  case None
  then show ?thesis using assms by (simp add: trackUsefulForAddr_def)
next
  case (Some m)
  let ?t = "AList.delete addr (childPfTable s)"
  have d: "distinct (map fst (childPfTable s))" using assms by (simp add: track_wf_def)
  have "m \<in> snd ` set (childPfTable s)" using map_of_SomeD [OF Some] by force
  then have i: "0 \<le> actionIndex m" "actionIndex m < int (length (children s))"
    using assms unfolding track_wf_def by blast+
  have "sum_list (bump (actionIndex m) (childPfUseful s)) + length ?t \<le> sum_list (childPfIssued s)"
    if "length (children s) \<le> 4"
    using assms that i delete_length [OF d Some] sum_bump [of "childPfUseful s" "actionIndex m"]
    by (auto simp: track_wf_def)
  moreover have "\<forall>m \<in> snd ` set ?t. 0 \<le> actionIndex m \<and> actionIndex m < int (length (children s))"
    using assms delete_facts(2) [of addr "childPfTable s"] unfolding track_wf_def by (meson image_mono subsetD)
  ultimately show ?thesis
    using assms Some delete_facts(1) [OF d, of addr] delete_facts(3) [of addr "childPfTable s"]
    by (auto simp: track_wf_def trackUsefulForAddr_def)
qed

lemma trackUseful_frame:
  "\<exists>t u. trackUsefulForAddr addr s = s\<lparr>childPfTable := t, childPfUseful := u\<rparr>"
proof (cases "map_of (childPfTable s) addr")
  case None
  then have "trackUsefulForAddr addr s = s\<lparr>childPfTable := childPfTable s, childPfUseful := childPfUseful s\<rparr>"
    by (simp add: trackUsefulForAddr_def)
  then show ?thesis by blast
next
  case (Some m)
  then have "trackUsefulForAddr addr s = s\<lparr>childPfTable := AList.delete addr (childPfTable s),
      childPfUseful := bump (actionIndex m) (childPfUseful s)\<rparr>"
    by (simp add: trackUsefulForAddr_def)
  then show ?thesis by blast
qed

lemma count_access_facts:
  "QueuedPf.truncate (count_access pfi s) = QueuedPf.truncate s" "children (count_access pfi s) = children s"
  "ml_wf s \<Longrightarrow> ml_wf (count_access pfi s)"
proof -
  let ?s = "s\<lparr>epochAccesses := epochAccesses s + 1\<rparr>"
  obtain t u where f: "trackUsefulForAddr (pf_address pfi) ?s = ?s\<lparr>childPfTable := t, childPfUseful := u\<rparr>"
    using trackUseful_frame by blast
  show "QueuedPf.truncate (count_access pfi s) = QueuedPf.truncate s" "children (count_access pfi s) = children s"
    by (simp_all add: count_access_def Let_def f QueuedPf.truncate_def)
  show "ml_wf (count_access pfi s)" if "ml_wf s"
  proof -
    have w: "track_wf ?s" using that by (simp add: ml_defs)
    show ?thesis using that trackUseful_wf [OF w, of "pf_address pfi"]
      by (simp add: count_access_def Let_def f ml_defs)
  qed
qed

text \<open>Training touches the attribution alone.\<close>

definition tracked :: "'c MLPf \<Rightarrow> 'c MLPf \<Rightarrow> bool" where
  "tracked s s' \<longleftrightarrow> (\<exists>t i r. s' = s\<lparr>childPfTable := t, childPfIssued := i, childPfRedundant := r\<rparr>)"

lemma tracked_refl [simp]: "tracked s s"
proof -
  have "s = s\<lparr>childPfTable := childPfTable s, childPfIssued := childPfIssued s,
      childPfRedundant := childPfRedundant s\<rparr>" by simp
  then show ?thesis unfolding tracked_def by blast
qed

lemma tracked_trans: "tracked s s' \<Longrightarrow> tracked s' s'' \<Longrightarrow> tracked s s''"
  by (fastforce simp: tracked_def)

lemma trackedD:
  assumes "tracked s s'"
  shows "children s' = children s" "currentAction s' = currentAction s" "qTable s' = qTable s"
    "QueuedPf.truncate s' = QueuedPf.truncate s" "actions_wf s' = actions_wf s" "lastState s' = lastState s"
    "childPfUseful s' = childPfUseful s"
  using assms by (auto simp: tracked_def QueuedPf.truncate_def actions_wf_def)

lemma trackIssued_tracked: "tracked s (trackIssuedForChild now i addr s)"
proof (cases "i < 0")
  case True
  then show ?thesis by (simp add: trackIssuedForChild_def)
next
  case False
  show ?thesis unfolding tracked_def trackIssued_eq [OF False] by (intro exI) (rule refl)
qed

lemma track_all_facts:
  "i < int (length (children s)) \<Longrightarrow>
   tracked s (track_all now i aps s) \<and> (track_wf s \<longrightarrow> track_wf (track_all now i aps s))"
proof (induction aps arbitrary: s)
  case (Cons ap aps)
  let ?s = "trackIssuedForChild now i (fst ap) s"
  have t: "tracked s ?s" by (rule trackIssued_tracked)
  have "i < int (length (children ?s))" using Cons.prems trackedD(1) [OF t] by simp
  from Cons.IH [OF this] show ?case
    using tracked_trans [OF t] trackIssued_wf [OF _ Cons.prems] by auto
qed simp

lemma train_children_facts:
  assumes "train_children ops now pfi cache active i cs s = Inr (as, cs', s')"
    "i + int (length cs) \<le> int (length (children s))"
  shows "tracked s s' \<and> length cs' = length cs \<and> (track_wf s \<longrightarrow> track_wf s')"
  using assms
proof (induction cs arbitrary: i s as cs' s')
  case (Cons c cs)
  show ?case
  proof (cases "child_queued ops c")
    case True
    with Cons.prems(1) obtain tmp c' as2 cs2 where r: "train_children ops now pfi cache active (i + 1) cs
        (if i = active then track_all now i tmp s else s) = Inr (as2, cs2, s')" "cs' = c' # cs2" by auto
    let ?s = "if i = active then track_all now i tmp s else s"
    have t: "tracked s ?s" "track_wf s \<longrightarrow> track_wf ?s" using track_all_facts [of i s now tmp] Cons.prems(2) by auto
    have "i + 1 + int (length cs) \<le> int (length (children ?s))"
      using Cons.prems(2) trackedD(1) [OF t(1)] by simp
    from Cons.IH [OF r(1) this] t(2) r(2) show ?thesis using tracked_trans [OF t(1)] by auto
  next
    case False
    with Cons.prems(1) obtain cs2 where r: "train_children ops now pfi cache active (i + 1) cs s = Inr (as, cs2, s')"
      "cs' = c # cs2" by auto
    from Cons.IH [OF r(1)] Cons.prems(2) r(2) show ?thesis by auto
  qed
qed simp

lemma more_fields:
  assumes "QueuedPf.more (s' :: 'c MLPf) = QueuedPf.more s"
  shows "ml_wf s' = ml_wf s" "children s' = children s"
  using assms by (cases s; cases s'; simp add: ml_defs)+

end
