(* ===== verification/MLRuns.thy ===== *)
theory MLRuns
  imports MLInvariants
begin

text \<open>
  The controller among its neighbours: what it needs of its child prefetchers (the locale
  \<open>child_prefetchers\<close>) makes it a prefetch generator itself, so the queue above it keeps its
  invariant; and the runs of a system with one controller, restarts included, in which the
  file on disk carries the Q-table from one life to the next.
\<close>

section \<open>Children\<close>

definition children_ok :: "('c \<Rightarrow> bool) \<Rightarrow> 'c MLPf \<Rightarrow> bool" where
  "children_ok cinv s \<longleftrightarrow> ml_wf s \<and> list_all cinv (children s)"

locale child_prefetchers =
  fixes ops :: "'c ChildOps"
    and cinv :: "'c \<Rightarrow> bool"
    and ok :: "PrefetchInfo \<Rightarrow> bool"
  assumes child_inv: "cinv c \<Longrightarrow> child_calc ops pfi cache c = Inr (as, c') \<Longrightarrow> cinv c'"
    and child_ok: "cinv c \<Longrightarrow> ok pfi \<Longrightarrow> child_queued ops c \<Longrightarrow> \<exists>r. child_calc ops pfi cache c = Inr r"
    and child_same: "child_calc ops pfi cache c = Inr (as, c') \<Longrightarrow>
      child_name ops c' = child_name ops c \<and> child_queued ops c' = child_queued ops c"
begin

lemma train_children_cinv:
  "train_children ops now pfi cache active i cs s = Inr (as, cs', s') \<Longrightarrow> list_all cinv cs \<Longrightarrow>
   list_all cinv cs' \<and> map (child_name ops) cs' = map (child_name ops) cs"
proof (induction cs arbitrary: i s as cs' s')
  case (Cons c cs)
  show ?case
  proof (cases "child_queued ops c")
    case True
    with Cons.prems(1) obtain tmp c' as2 cs2 where c: "child_calc ops pfi cache c = Inr (tmp, c')"
      and r: "train_children ops now pfi cache active (i + 1) cs
        (if i = active then track_all now i tmp s else s) = Inr (as2, cs2, s')" "cs' = c' # cs2" by auto
    then show ?thesis using Cons.IH [OF r(1)] Cons.prems(2) child_inv [OF _ c] child_same [OF c] by auto
  next
    case False
    with Cons.prems(1) obtain cs2 where r: "train_children ops now pfi cache active (i + 1) cs s = Inr (as, cs2, s')"
      "cs' = c # cs2" by auto
    then show ?thesis using Cons.IH [OF r(1)] Cons.prems(2) by auto
  qed
qed simp

lemma train_children_ok:
  "list_all cinv cs \<Longrightarrow> ok pfi \<Longrightarrow> \<exists>r. train_children ops now pfi cache active i cs s = Inr r"
proof (induction cs arbitrary: i s)
  case (Cons c cs)
  show ?case
  proof (cases "child_queued ops c")
    case True
    then obtain tmp c' where "child_calc ops pfi cache c = Inr (tmp, c')"
      using child_ok [of c pfi cache] Cons.prems by auto
    moreover obtain r where "train_children ops now pfi cache active (i + 1) cs
        (if i = active then track_all now i tmp s else s) = Inr r"
      using Cons.IH Cons.prems by fastforce
    ultimately show ?thesis using True by (cases r) auto
  next
    case False
    moreover obtain r where "train_children ops now pfi cache active (i + 1) cs s = Inr r"
      using Cons.IH Cons.prems by fastforce
    ultimately show ?thesis by (cases r) auto
  qed
qed simp

lemma calculatePrefetch_ML_facts:
  assumes "calculatePrefetch_ML ops now pfi cache s = Inr (as, s')"
  shows "QueuedPf.truncate s' = QueuedPf.truncate s" "children_ok cinv s \<Longrightarrow> children_ok cinv s'"
    "children_ok cinv s \<Longrightarrow> map (child_name ops) (children s') = map (child_name ops) (children s)"
proof -
  from assms obtain cs s1 where t: "train_children ops now pfi cache (currentAction s) 0 (children s) s = Inr (as, cs, s1)"
    and s': "s' = s1\<lparr>children := cs\<rparr>" by (auto simp: calculatePrefetch_ML_def)
  have f: "tracked s s1" "length cs = length (children s)" "track_wf s \<longrightarrow> track_wf s1"
    using train_children_facts [OF t] by auto
  note d = trackedD [OF f(1)]
  show "QueuedPf.truncate s' = QueuedPf.truncate s"
    using d(4) by (simp add: s' QueuedPf.truncate_def)
  show "children_ok cinv s'" if "children_ok cinv s"
  proof -
    have "ml_wf s1" using that d(3,5,6) f(3) by (simp add: children_ok_def ml_wf_def)
    then have "ml_wf s'" using f(2) d(1) by (simp add: s' ml_defs)
    moreover have "list_all cinv cs" using train_children_cinv [OF t] that by (simp add: children_ok_def)
    ultimately show ?thesis by (simp add: children_ok_def s')
  qed
  show "map (child_name ops) (children s') = map (child_name ops) (children s)" if "children_ok cinv s"
    using train_children_cinv [OF t] that by (simp add: children_ok_def s')
qed

lemma calculatePrefetch_ML_ok:
  "children_ok cinv s \<Longrightarrow> ok pfi \<Longrightarrow> \<exists>r. calculatePrefetch_ML ops now pfi cache s = Inr r"
  using train_children_ok [of "children s" pfi now cache "currentAction s" 0 s]
  by (auto simp: calculatePrefetch_ML_def children_ok_def)

end

sublocale child_prefetchers \<subseteq> ml: prefetch_generator "calculatePrefetch_ML ops now" "children_ok cinv" ok for now
proof unfold_locales
  fix pfi c as and s s' :: "'c MLPf"
  assume "calculatePrefetch_ML ops now pfi c s = Inr (as, s')"
  then show "QueuedPf.truncate s' = QueuedPf.truncate s" by (rule calculatePrefetch_ML_facts)
next
  fix pfi c as and s s' :: "'c MLPf"
  assume "children_ok cinv s" "calculatePrefetch_ML ops now pfi c s = Inr (as, s')"
  then show "children_ok cinv s'" using calculatePrefetch_ML_facts(2) by blast
next
  fix s s' :: "'c MLPf"
  assume "same_config s s'" "children_ok cinv s"
  then show "children_ok cinv s'" using more_fields [of s' s] by (simp add: same_config_def children_ok_def)
next
  fix pfi c and s :: "'c MLPf"
  assume "children_ok cinv s" "ok pfi"
  then show "\<exists>r. calculatePrefetch_ML ops now pfi c s = Inr r" by (rule calculatePrefetch_ML_ok)
qed

context child_prefetchers
begin

lemma count_access_good: "good (children_ok cinv) s \<Longrightarrow> good (children_ok cinv) (count_access pfi s)"
  using truncate_frame [OF count_access_facts(1) [of pfi s]] by (simp add: good_def children_ok_def count_access_facts)

lemma notify_ML_good:
  "good (children_ok cinv) s \<Longrightarrow> notify_ML ops env pkt pfi s = Inr s' \<Longrightarrow> good (children_ok cinv) s'"
  unfolding notify_ML_def by (rule ml.notify_good [OF count_access_good])

lemma notify_ML_total:
  "good (children_ok cinv) s \<Longrightarrow> ok pfi \<Longrightarrow> usable s pkt pfi \<Longrightarrow> \<exists>s'. notify_ML ops env pkt pfi s = Inr s'"
  unfolding notify_ML_def
  by (rule ml.notify_total [OF count_access_good]) (simp_all add: truncate_frame(4) [OF count_access_facts(1)])

lemma probe_ML_total:
  assumes g: "good (children_ok cinv) s" and "\<And>pfi. ok pfi" and pkt: "pkt_addr pkt \<noteq> None" "req_paddr (req pkt) \<noteq> None"
    "request_wf (req pkt)"
  shows "\<exists>s'. probeNotify (\<lambda>pkt cache pfi. notify_ML ops env pkt pfi) pkt c miss s = Inr s' \<and> True"
proof (rule probeNotify_total [OF pkt])
  fix t pfi
  assume t: "t = s \<or> t = countUseful miss s" and u: "usable t pkt pfi"
  have "good (children_ok cinv) t" using t g ml.useful_good [OF g] by auto
  from notify_ML_total [OF this assms(2) u] show "\<exists>s'. notify_ML ops env pkt pfi t = Inr s' \<and> True" by simp
qed simp_all

end

section \<open>The file carries the table\<close>

lemma good_finite: "good_row row \<Longrightarrow> q \<in> set row \<Longrightarrow> finite_double q"
proof -
  assume a: "good_row row" "q \<in> set row"
  have "(2::rat) powi 2 \<le> 2 powi 1024" by (rule powi_mono) simp
  moreover have "\<bar>q\<bar> < 2 powi 2" using a by (auto simp: good_row_def)
  ultimately have "\<bar>q\<bar> < 2 powi 1024" by (rule less_le_trans [rotated])
  then show ?thesis using a by (simp add: finite_double_def good_row_def)
qed

lemma row_doubles_bits: "\<forall>q \<in> set row. finite_double q \<Longrightarrow> row_doubles (map encode_double row) = Some row"
  by (induction row) (simp_all add: decode_encode)

lemma table_doubles_bits:
  assumes "\<forall>row \<in> snd ` set t. good_row row"
  shows "table_doubles (table_bits t) = Some t"
  using assms
proof (induction t)
  case (Cons e t)
  obtain k row where e: "e = (k, row)" by fastforce
  have "row_doubles (map encode_double row) = Some row"
    using Cons.prems good_finite [of row] by (intro row_doubles_bits) (auto simp: e)
  then show ?case using Cons by (simp add: e table_bits_def)
qed (simp add: table_bits_def)

lemma good_table_length: "good_table t \<Longrightarrow> length t \<le> 22"
proof -
  assume g: "good_table t"
  then have "sorted_wrt (<) (map fst t)" by (simp add: good_table_def table_wf_def)
  then have d: "distinct (map fst t)" by (simp add: strict_sorted_iff)
  have "set (map fst t) \<subseteq> set (0 # epoch_states)" using g by (auto simp: good_table_def good_state_def)
  then have "card (set (map fst t)) \<le> card (set (0 # epoch_states))" by (intro card_mono) simp_all
  also have "\<dots> \<le> length (0 # epoch_states)" by (rule card_length)
  finally show ?thesis using distinct_card [OF d] by (simp add: epoch_states_eq)
qed

lemma good_table_fits:
  assumes "good_table t" "length sig < 2 ^ 32"
  shows "fits sig (table_bits t)" "table_wf (table_bits t)"
proof -
  have "map fst (table_bits t) = map fst t" by (simp add: table_bits_def comp_def case_prod_beta)
  then show "table_wf (table_bits t)" using assms(1) by (simp add: good_table_def table_wf_def)
  have "length (snd e) < 2 ^ 32" if "e \<in> set (table_bits t)" for e
    using that assms(1) by (auto simp: table_bits_def good_table_def good_row_def)
  then show "fits sig (table_bits t)"
    using assms(2) good_table_length [OF assms(1)] by (simp add: fits_def) (simp add: table_bits_def)
qed

text \<open>A signature too long for its length field is written cut off.\<close>

definition cut_sig :: "u8 list \<Rightarrow> u8 list" where
  "cut_sig sig = take (unat (of_nat (length sig) :: u32)) sig"

lemma write_table_cut: "write_table sig t = write_table (cut_sig sig) t" "length (cut_sig sig) < 2 ^ 32"
proof -
  let ?n = "unat (of_nat (length sig) :: u32)"
  have n: "?n \<le> length sig" by (simp add: unat_of_nat)
  have "unat (of_nat ?n :: u32) = ?n" by simp
  then show "write_table sig t = write_table (cut_sig sig) t"
    using n by (simp add: write_table_def cut_sig_def min_absorb2)
  show "length (cut_sig sig) < 2 ^ 32" using unat_less32 [of "of_nat (length sig)"] n by (simp add: cut_sig_def)
qed

lemma read_written:
  assumes "good_table t"
  shows "read_table sig' (take m (write_table sig (table_bits t))) =
    (if m < 12 + length (cut_sig sig) \<or> sig' \<noteq> cut_sig sig then KeepTable
     else if m < length (write_table sig (table_bits t)) then ClearTable else NewTable (table_bits t))"
  unfolding write_table_cut(1) [of sig]
  by (rule read_table_prefix [OF good_table_fits(2,1)]) (use assms write_table_cut(2) in auto)

text \<open>A disk on which every file that reads as a table holds a good one.\<close>

definition world_ok :: "MLWorld \<Rightarrow> bool" where
  "world_ok w \<longleftrightarrow> (\<forall>f inp sig t. fileData w f = Some inp \<longrightarrow> read_table sig inp = NewTable t \<longrightarrow>
     (\<exists>t'. table_doubles t = Some t' \<and> good_table t'))"

lemma good_table_bits: "good_table t \<Longrightarrow> table_doubles (table_bits t) = Some t"
  by (rule table_doubles_bits) (simp add: good_table_def)

lemma saveQTable_ok:
  assumes "good_table (qTable s)" "world_ok w"
  shows "world_ok (saveQTable ops s w)"
proof -
  let ?b = "write_table (map byte_of (childrenSignature ops s)) (table_bits (qTable s))"
  have new: "\<exists>t'. table_doubles t = Some t' \<and> good_table t'" if "read_table sig ?b = NewTable t" for sig t
    using that read_written [OF assms(1), of sig "length ?b" "map byte_of (childrenSignature ops s)"] good_table_bits [OF assms(1)] assms(1)
    by (auto split: if_splits)
  show ?thesis using assms(2) new by (auto simp: world_ok_def saveQTable_def)
qed

lemma loadQTable_ok:
  assumes "ml_wf s" "world_ok w"
  shows "\<exists>s'. loadQTable ops w s = Inr s' \<and> ml_wf s' \<and> QueuedPf.truncate s' = QueuedPf.truncate s \<and>
    children s' = children s"
proof (cases "fileData w (qfileName s)")
  case None
  then show ?thesis using assms(1) by (simp add: loadQTable_def)
next
  case (Some inp)
  show ?thesis
  proof (cases "read_table (map byte_of (childrenSignature ops s)) inp")
    case KeepTable
    then show ?thesis using assms(1) Some by (simp add: loadQTable_def)
  next
    case ClearTable
    then show ?thesis using assms(1) Some
      by (simp add: loadQTable_def ml_defs good_table_def table_wf_def QueuedPf.truncate_def)
  next
    case (NewTable t)
    then obtain t' where "table_doubles t = Some t'" "good_table t'"
      using assms(2) Some unfolding world_ok_def by blast
    then show ?thesis using assms(1) Some NewTable
      by (simp add: loadQTable_def ml_defs QueuedPf.truncate_def)
  qed
qed

section \<open>Construction and start\<close>

text \<open>Parameters the configuration has to respect: fewer than 2 ^ 31 children, a learning rate in
  the unit interval, a queue of at least two entries and block and page sizes that are powers of
  two.\<close>

definition boot_ok :: "('c \<Rightarrow> bool) \<Rightarrow> 'c list \<Rightarrow> rat \<Rightarrow> QueuedPf \<Rightarrow> bool" where
  "boot_ok cinv cs lr q \<longleftrightarrow> length cs < 2 ^ 31 \<and> 0 \<le> lr \<and> lr \<le> 1 \<and> list_all cinv cs \<and> queued_wf q \<and> roomy q"

lemma init_penalties_facts:
  "length (init_penalties n) = n" "\<forall>p \<in> set (init_penalties n). 0 \<le> p \<and> p \<le> 1"
proof -
  show "length (init_penalties n) = n" by (simp add: init_penalties_def Let_def)
  have b: "0 \<le> rnd64 (2 / 100) \<and> rnd64 (2 / 100) \<le> 1" "0 \<le> rnd64 (3 / 100) \<and> rnd64 (3 / 100) \<le> 1"
    using rnd64_ge [of 0 "2 / 100"] rnd64_le [of "2 / 100" 1024] rnd64_ge [of 0 "3 / 100"]
      rnd64_le [of "3 / 100" 1024] by simp_all
  have "set (init_penalties n) \<subseteq> {0, rnd64 (2 / 100), rnd64 (3 / 100)}"
    using set_update_subset_insert [of "replicate n 0" 1 "rnd64 (2 / 100)"]
      set_update_subset_insert [of "(replicate n 0)[1 := rnd64 (2 / 100)]" 2 "rnd64 (3 / 100)"]
    by (auto simp: init_penalties_def Let_def)
  then show "\<forall>p \<in> set (init_penalties n). 0 \<le> p \<and> p \<le> 1" using b by auto
qed

lemma newMLPf_good:
  assumes "boot_ok cinv cs lr q" "newMLPf nm cn cs act ticks lr er dbg cpu now q w = (s, w')"
  shows "good (children_ok cinv) s" "fileData w' = fileData w"
proof -
  have t: "QueuedPf.truncate s = q" using assms(2) by (auto simp: newMLPf_def QueuedPf.defs)
  have "ml_wf s" using assms init_penalties_facts [of "length cs + 1"]
    by (auto simp: newMLPf_def ml_defs boot_ok_def QueuedPf.defs good_state_def good_table_def table_wf_def)
  moreover have "children s = cs" using assms(2) by (auto simp: newMLPf_def QueuedPf.defs)
  ultimately show "good (children_ok cinv) s"
    using assms(1) truncate_wf [of s] by (simp add: good_def children_ok_def boot_ok_def t)
  show "fileData w' = fileData w" using assms(2) by (auto simp: newMLPf_def open_csv_def)
qed

lemma schedule_frame:
  assumes "schedule now when s = Inr s'"
  shows "QueuedPf.truncate s' = QueuedPf.truncate s" "children s' = children s" "ml_wf s' = ml_wf s"
proof -
  have "s' = s\<lparr>update_event := Some when\<rparr>" using assms by (simp add: schedule_def split: if_splits)
  then show "QueuedPf.truncate s' = QueuedPf.truncate s" "children s' = children s" "ml_wf s' = ml_wf s"
    by (simp_all add: ml_defs QueuedPf.truncate_def)
qed

lemma good_frame:
  assumes "good (children_ok cinv) s" "QueuedPf.truncate s' = QueuedPf.truncate s"
    "children s' = children s" "ml_wf s'"
  shows "good (children_ok cinv) s'"
  using assms(1,3,4) truncate_frame [OF assms(2)] by (simp add: good_def children_ok_def)

lemma startup_good:
  assumes "good (children_ok cinv) s" "world_ok w" "startup ops now found w s = Inr s'"
  shows "good (children_ok cinv) s'"
proof -
  have "ml_wf s" using assms(1) by (simp add: good_def children_ok_def)
  then obtain s1 where l: "loadQTable ops w s = Inr s1" "ml_wf s1" "QueuedPf.truncate s1 = QueuedPf.truncate s"
    "children s1 = children s" using loadQTable_ok [OF _ assms(2), of s ops] by blast
  let ?s2 = "if cacheName s1 = [] then s1
                else (case found of
                        None \<Rightarrow> s1\<lparr>cachePtr := False\<rparr>
                      | Some (acc, mis) \<Rightarrow> s1\<lparr>cachePtr := True, lastAccesses := acc, lastMisses := mis\<rparr>)"
  have f: "QueuedPf.truncate ?s2 = QueuedPf.truncate s1" "children ?s2 = children s1" "ml_wf ?s2 = ml_wf s1"
    by (simp_all add: QueuedPf.truncate_def ml_defs split: option.split)
  have "schedule now (now + epoch_ticks ?s2) ?s2 = Inr s'"
    using assms(3) l(1) by (simp add: startup_def Let_def)
  from schedule_frame [OF this] f l show ?thesis by (intro good_frame [OF assms(1)]) simp_all
qed

section \<open>Runs\<close>

text \<open>
  The states a controller and the disk can reach: a first start on an empty disk, then accesses,
  requests for a packet, replies of the MMU, ends of epochs, and restarts of the simulation with
  a new controller on the disk the old one left.
\<close>

inductive ml_run :: "'c ChildOps \<Rightarrow> ('c \<Rightarrow> bool) \<Rightarrow> 'c MLPf \<Rightarrow> MLWorld \<Rightarrow> bool" for ops cinv where
  boot: "fileData w = (\<lambda>_. None) \<Longrightarrow> boot_ok cinv cs lr q \<Longrightarrow>
    newMLPf nm cn cs act ticks lr er dbg cpu t q w = (s, w') \<Longrightarrow> startup ops now found w' s = Inr s' \<Longrightarrow>
    ml_run ops cinv s' w'"
| access: "ml_run ops cinv s w \<Longrightarrow> notify_ML ops env pkt pfi s = Inr s' \<Longrightarrow> ml_run ops cinv s' w"
| probe: "ml_run ops cinv s w \<Longrightarrow>
    probeNotify (\<lambda>pkt cache pfi. notify_ML ops env pkt pfi) pkt cache miss s = Inr s' \<Longrightarrow> ml_run ops cinv s' w"
| issue: "ml_run ops cinv s w \<Longrightarrow> getPacket env s = Inr (po, s') \<Longrightarrow> ml_run ops cinv s' w"
| reply: "ml_run ops cinv s w \<Longrightarrow> finish env i r s = Inr s' \<Longrightarrow> ml_run ops cinv s' w"
| epoch: "ml_run ops cinv s w \<Longrightarrow> updateModel ops inp s w = Inr (s', w') \<Longrightarrow> ml_run ops cinv s' w'"
| restart: "ml_run ops cinv s0 w \<Longrightarrow> boot_ok cinv cs lr q \<Longrightarrow>
    newMLPf nm cn cs act ticks lr er dbg cpu t q w = (s, w') \<Longrightarrow> startup ops now found w' s = Inr s' \<Longrightarrow>
    ml_run ops cinv s' w'"

lemma world_ok_files: "fileData w' = fileData w \<Longrightarrow> world_ok w' = world_ok w"
  by (simp add: world_ok_def)

lemma log_epoch_files [simp]: "fileData (log_epoch dbg line w) = fileData w"
  by (simp add: log_epoch_def Let_def)

lemma endEpoch_files: "fileData (snd (endEpoch inp s w)) = fileData w"
  by (simp add: endEpoch_def Let_def case_prod_beta)

lemma updateModel_good:
  assumes "good (children_ok cinv) s" "world_ok w" "updateModel ops inp s w = Inr (s', w')"
  shows "good (children_ok cinv) s' \<and> world_ok w'"
proof -
  obtain s1 w1 where e: "endEpoch inp s w = (s1, w1)" by fastforce
  have wf: "ml_wf s" using assms(1) by (simp add: good_def children_ok_def)
  note f = endEpoch_wf [OF wf, of inp w, unfolded e fst_conv]
  have g1: "good (children_ok cinv) s1" by (rule good_frame [OF assms(1) f(2,3,1)])
  have w1: "world_ok w1" using endEpoch_files [of inp s w] assms(2) world_ok_files by (metis e snd_conv)
  from assms(3) have s': "schedule (ei_now inp) (ei_now inp + epoch_ticks s1) s1 = Inr s'"
    and w': "w' = saveQTable ops s1 w1"
    by (auto simp: updateModel_def e Let_def)
  have "good_table (qTable s1)" using f(1) by (simp add: ml_wf_def)
  then have "world_ok w'" unfolding w' using w1 by (rule saveQTable_ok)
  moreover have "good (children_ok cinv) s'"
    by (rule good_frame [OF g1 schedule_frame(1,2) [OF s']]) (simp add: schedule_frame(3) [OF s'] f(1))
  ultimately show ?thesis by blast
qed

context child_prefetchers
begin

lemma run_good: "ml_run ops cinv s w \<Longrightarrow> good (children_ok cinv) s \<and> world_ok w"
proof (induction rule: ml_run.induct)
  case (boot w cs lr q nm cn act ticks er dbg cpu t s w' now found s')
  have "world_ok w'" using boot(1) newMLPf_good(2) [OF boot(2,3)] by (simp add: world_ok_def)
  then show ?case using startup_good [OF newMLPf_good(1) [OF boot(2,3)] _ boot(4)] by blast
next
  case (access s w env pkt pfi s')
  then show ?case using notify_ML_good by blast
next
  case (probe s w env pkt cache miss s')
  obtain t where "t = s \<or> t = countUseful miss s" "s' = t \<or> (\<exists>pfi. notify_ML ops env pkt pfi t = Inr s')"
    by (rule probeNotify_cases [OF probe(2)])
  moreover have g: "good (children_ok cinv) s" "world_ok w" using probe.IH by simp_all
  ultimately have "good (children_ok cinv) t" using ml.useful_good [OF g(1)] by auto
  then show ?case using \<open>s' = t \<or> _\<close> notify_ML_good [of t] g(2) by auto
next
  case (issue s w env po s')
  then have "kept s s'" using getPacket_kept [of env s po s'] by (auto simp: good_def roomy_def)
  then show ?case using issue ml.good_kept by blast
next
  case (reply s w env i r s')
  then have "kept s s'" using finish_kept [of env i r s s'] by (auto simp: good_def roomy_def)
  then show ?case using reply ml.good_kept by blast
next
  case (epoch s w inp s' w')
  then show ?case using updateModel_good by blast
next
  case (restart s0 w cs lr q nm cn act ticks er dbg cpu t s w' now found s')
  have "world_ok w'" using restart.IH newMLPf_good(2) [OF restart(2,3)] by (simp add: world_ok_def)
  then show ?case using startup_good [OF newMLPf_good(1) [OF restart(2,3)] _ restart(4)] by blast
qed

end

end
