(* ===== verification/Indexing.thy ===== *)
theory Indexing
  imports BaseUtil
begin

text \<open>
  Indexing policies of set-associative tables (\<open>mem/cache/tags/indexing_policies/base.hh\<close>,
  \<open>mem/cache/tags/tagged_entry.hh\<close>, and the hashed policy of \<open>mem/cache/prefetch/stride.cc\<close>).
  A policy holds, per set and way, a pointer to an entry; pointers are positions in a store of
  entries and the null pointer is \<open>None\<close>. The virtual functions are selected by a tag.
\<close>

unbundle bit_operations_syntax

record TaggedKey =
  key_address :: Addr
  key_secure :: bool

record IndexingPolicy =
  ip_assoc :: u32
  numSets :: u32
  setShift :: nat
  setMask :: u32
  ip_sets :: "nat option list list"
  tagShift :: nat

definition newIndexingPolicy :: "u32 \<Rightarrow> u32 \<Rightarrow> nat \<Rightarrow> IndexingPolicy result" where
  "newIndexingPolicy assoc num_entries set_shift =
     (if assoc = 0 then Inl (NotFinite ''num_entries / assoc'')
      else
        let n = num_entries div assoc in
        bindR (floorLog2 4 (ucast n)) (\<lambda>l.
          if \<not> isPowerOf2 (ucast n) then Inl (Fatal ''# of sets must be non-zero and a power of 2'')
          else Inr \<lparr>ip_assoc = assoc, numSets = n, setShift = set_shift, setMask = n - 1,
                    ip_sets = replicate (unat n) (replicate (unat assoc) None),
                    tagShift = set_shift + l\<rparr>))"

definition newTaggedSetAssociative :: "u32 \<Rightarrow> u64 \<Rightarrow> u32 \<Rightarrow> IndexingPolicy result" where
  "newTaggedSetAssociative assoc sz entry_size =
     (if entry_size = 0 then Inl (NotFinite ''size / entry_size'')
      else bindR (floorLog2 4 (ucast entry_size)) (\<lambda>l.
             newIndexingPolicy assoc (ucast (sz div ucast entry_size)) l))"

definition setEntry :: "nat \<Rightarrow> nat \<Rightarrow> IndexingPolicy \<Rightarrow> ((u32 \<times> u32) \<times> IndexingPolicy) result" where
  "setEntry entry index ip =
     (let st = index div unat (ip_assoc ip); way = index mod unat (ip_assoc ip)
      in if \<not> (of_nat st :: u32) < numSets ip then Inl (AssertFailed ''set < numSets'')
         else Inr ((of_nat st, of_nat way),
                   ip\<lparr>ip_sets := (ip_sets ip)[unat (of_nat st :: u32) :=
                        (ip_sets ip ! unat (of_nat st :: u32))[unat (of_nat way :: u32) := Some entry]]\<rparr>))"

definition getEntry :: "u32 \<Rightarrow> u32 \<Rightarrow> IndexingPolicy \<Rightarrow> nat option result" where
  "getEntry st way ip =
     (if unat st < length (ip_sets ip) \<and> unat way < length (ip_sets ip ! unat st)
      then Inr (ip_sets ip ! unat st ! unat way) else Inl (OutOfRange ''sets''))"

datatype IndexKind = TaggedSetAssociative | StrideHashed

definition setassoc_extractSet :: "IndexingPolicy \<Rightarrow> Addr \<Rightarrow> u32" where
  "setassoc_extractSet ip a = ucast (drop_bit (setShift ip) a AND ucast (setMask ip))"

definition hashed_extractSet :: "IndexingPolicy \<Rightarrow> Addr \<Rightarrow> u32" where
  "hashed_extractSet ip pc =
     (let hash1 = drop_bit 1 pc; hash2 = drop_bit (tagShift ip) hash1
      in ucast ((hash1 XOR hash2) AND ucast (setMask ip)))"

definition extractSet :: "IndexKind \<Rightarrow> IndexingPolicy \<Rightarrow> Addr \<Rightarrow> u32" where
  "extractSet k ip a =
     (case k of TaggedSetAssociative \<Rightarrow> setassoc_extractSet ip a | StrideHashed \<Rightarrow> hashed_extractSet ip a)"

lemmas extractSet_defs = extractSet_def setassoc_extractSet_def hashed_extractSet_def

definition extractTag :: "IndexKind \<Rightarrow> IndexingPolicy \<Rightarrow> Addr \<Rightarrow> Addr" where
  "extractTag k ip a =
     (case k of TaggedSetAssociative \<Rightarrow> drop_bit (tagShift ip) a | StrideHashed \<Rightarrow> a)"

text \<open>The set number is shifted as a 32-bit integer.\<close>

definition regenerateAddr :: "IndexingPolicy \<Rightarrow> Addr \<Rightarrow> u32 \<Rightarrow> Addr" where
  "regenerateAddr ip tag st = push_bit (tagShift ip) tag OR ucast (push_bit (setShift ip) st)"

definition getPossibleEntries :: "IndexKind \<Rightarrow> IndexingPolicy \<Rightarrow> TaggedKey \<Rightarrow> nat option list result" where
  "getPossibleEntries k ip key =
     (let s = unat (extractSet k ip (key_address key))
      in if s < length (ip_sets ip) then Inr (ip_sets ip ! s) else Inl (OutOfRange ''sets''))"

section \<open>Shape\<close>

definition ip_wf :: "IndexingPolicy \<Rightarrow> bool" where
  "ip_wf ip \<longleftrightarrow> numSets ip \<noteq> 0 \<and> ip_assoc ip \<noteq> 0 \<and> setMask ip = numSets ip - 1 \<and>
     length (ip_sets ip) = unat (numSets ip) \<and> list_all (\<lambda>ps. length ps = unat (ip_assoc ip)) (ip_sets ip)"

lemma extractSet_less:
  assumes "ip_wf ip"
  shows "unat (extractSet k ip a) < length (ip_sets ip)"
proof -
  have n: "numSets ip \<noteq> 0" "setMask ip = numSets ip - 1" "length (ip_sets ip) = unat (numSets ip)"
    using assms by (simp_all add: ip_wf_def)
  have m: "unat (setMask ip) < unat (numSets ip)"
    unfolding n(2) using n(1) by (simp add: unat_minus_one unat_gt_0)
  have "unat (ucast (x AND ucast (setMask ip)) :: u32) \<le> unat (setMask ip)" for x :: u64
  proof -
    have le: "unat (x AND ucast (setMask ip)) \<le> unat (setMask ip)"
      using unat_and_mask_le [of x "ucast (setMask ip)"] by simp
    then have "unat (x AND ucast (setMask ip)) < 2 ^ 32" using unat_less32 [of "setMask ip"] by linarith
    then show ?thesis using le by (simp add: unsigned_ucast_eq take_bit_nat_eq_self)
  qed
  then have "unat (ucast (x AND ucast (setMask ip)) :: u32) < unat (numSets ip)" for x :: u64
    using m le_less_trans by blast
  then show ?thesis by (cases k) (simp_all add: extractSet_defs Let_def n(3))
qed

lemma getPossibleEntries_ok:
  assumes "ip_wf ip"
  shows "getPossibleEntries k ip key = Inr (ip_sets ip ! unat (extractSet k ip (key_address key)))"
  using extractSet_less [OF assms, of k "key_address key"] by (simp add: getPossibleEntries_def Let_def)

lemma newIndexingPolicy_wf:
  assumes "newIndexingPolicy assoc n sh = Inr ip"
  shows "ip_wf ip"
  using assms by (auto simp: newIndexingPolicy_def ip_wf_def Let_def isPowerOf2_def list_all_length split: if_splits)

section \<open>Addresses from tags\<close>

lemma power_of_two_32:
  assumes "isPowerOf2 (ucast (b :: u32))" "floorLog2 4 (ucast b) = Inr l"
  shows "unat b = 2 ^ l \<and> l < 32"
proof -
  obtain k where k: "k < 64" "ucast b = (2 :: u64) ^ k" using assms(1) by (auto simp: isPowerOf2_iff)
  then have b: "unat b = 2 ^ k" using unat_ucast32 [of b] by (simp only: unat_exp)
  have l32: "(2::nat) ^ k < 2 ^ 32" using unat_less32 [of b] by (simp only: b)
  then have "unat (2 ^ k :: u64) < 2 ^ 32" "(2 ^ k :: u64) \<noteq> 0"
    using k unat_exp [of k] by auto
  then have "floorLog2 4 (2 ^ k) = Inr k" using k floorLog2_32 [of "2 ^ k"] by (simp add: findMsbSet_exp)
  then have "l = k" using assms(2) k(2) by simp
  moreover have "k < 32" using l32 by (rule power_less_imp_less_exp [rotated]) simp
  ultimately show ?thesis using b by simp
qed

lemma newIndexingPolicy_mask:
  assumes "newIndexingPolicy assoc n sh = Inr ip"
  shows "setMask ip = mask (tagShift ip - sh) \<and> setShift ip = sh \<and> sh \<le> tagShift ip \<and> tagShift ip - sh < 32"
proof -
  let ?n = "n div assoc"
  obtain l where l: "floorLog2 4 (ucast ?n) = Inr l" "isPowerOf2 (ucast ?n)" "ip = \<lparr>ip_assoc = assoc, numSets = ?n,
      setShift = sh, setMask = ?n - 1, ip_sets = replicate (unat ?n) (replicate (unat assoc) None), tagShift = sh + l\<rparr>"
    using assms by (auto simp: newIndexingPolicy_def Let_def split: if_splits)
  have p: "unat ?n = 2 ^ l" "l < 32" using power_of_two_32 [OF l(2,1)] by auto
  have "of_nat (unat ?n) = ?n" by simp
  then have "?n = 2 ^ l" unfolding p(1) by simp
  then have "?n - 1 = mask l" by (simp add: mask_eq_decr_exp)
  then show ?thesis using l(3) p(2) by simp
qed

text \<open>The address of an entry is regenerated from its tag and its set. Compared with the
  address that was inserted, the offset bits are cleared, and the bits of the set number that lie
  above bit 31 of the address are lost, because the set number is shifted as a 32-bit integer;
  with a tag shift of at most 32 the regenerated address is the one of the block.\<close>

theorem regenerate_bits:
  assumes "newIndexingPolicy assoc n sh = Inr ip"
  shows "bit (regenerateAddr ip (extractTag TaggedSetAssociative ip a) (extractSet TaggedSetAssociative ip a)) i
    \<longleftrightarrow> bit a i \<and> sh \<le> i \<and> (i < 32 \<or> tagShift ip \<le> i)"
proof -
  note m = newIndexingPolicy_mask [OF assms]
  then have "setMask ip = mask (tagShift ip - sh)" "setShift ip = sh" by auto
  then show ?thesis using m
    by (cases "i < 64"; cases "tagShift ip \<le> i") (auto simp: regenerateAddr_def extractTag_def extractSet_defs bit_simps dest: bit_imp_le_length)
qed

theorem regenerate_bits_witness:
  "\<exists>ip. newIndexingPolicy 4 64 6 = Inr ip \<and>
    (\<forall>i. bit (regenerateAddr ip (extractTag TaggedSetAssociative ip 0x12345)
        (extractSet TaggedSetAssociative ip 0x12345)) i \<longleftrightarrow> bit (0x12345 :: Addr) i \<and> 6 \<le> i \<and> (i < 32 \<or> tagShift ip \<le> i))"
proof -
  have n: "(64 :: u32) div 4 = 16" by simp
  have "isPowerOf2 16" by (simp add: isPowerOf2_def)
  moreover obtain l where "floorLog2 4 16 = Inr l" using floorLog2_32 [of 16] by auto
  ultimately obtain ip where ip: "newIndexingPolicy 4 64 6 = Inr ip" by (auto simp: newIndexingPolicy_def n)
  show ?thesis using ip regenerate_bits [OF ip, of "0x12345"] by blast
qed

end
