(* ===== verification/Replacement.thy ===== *)
theory Replacement
  imports Prelude SatCounter
begin

text \<open>
  The replacement policies (\<open>mem/cache/replacement_policies\<close>) that keep their data per entry:
  LRU, BIP, MRU, FIFO, LFU, Random, weighted LRU, second chance and BRRIP. A policy is a record
  of its virtual functions over the data of one entry and the state of the policy object; the
  current tick and the draws of the random generator are an argument. \<open>getVictim\<close> sees the
  data of the candidates and returns the position of the victim; it may also change the data.
  The locale \<open>replacement_policy\<close> is what a table relies on, \<open>invalid_first\<close> adds that an
  invalidated entry is the next victim.
\<close>

section \<open>Policies\<close>

record RpInput =
  rp_tick :: Tick
  rp_draw :: nat

record ('g, 'd) ReplPolicy =
  instantiateEntry :: "'g \<Rightarrow> ('d \<times> 'g) result"
  rp_touch :: "RpInput \<Rightarrow> 'd \<Rightarrow> 'g \<Rightarrow> ('d \<times> 'g) result"
  rp_reset :: "RpInput \<Rightarrow> 'd \<Rightarrow> 'g \<Rightarrow> ('d \<times> 'g) result"
  rp_invalidate :: "'d \<Rightarrow> 'g \<Rightarrow> ('d \<times> 'g) result"
  getVictim :: "RpInput \<Rightarrow> 'd list \<Rightarrow> 'g \<Rightarrow> (nat \<times> 'd list \<times> 'g) result"

text \<open>A draw of \<open>random(lo, hi)\<close>.\<close>

definition rand_range :: "nat \<Rightarrow> nat \<Rightarrow> RpInput \<Rightarrow> nat" where
  "rand_range lo hi inp = lo + rp_draw inp mod (hi - lo + 1)"

text \<open>The search over the candidates that most policies share.\<close>

definition best_index :: "('d \<Rightarrow> 'd \<Rightarrow> bool) \<Rightarrow> 'd list \<Rightarrow> nat" where
  "best_index better ds =
     fst (scan_best (\<lambda>c v. better (snd c) (snd v)) (0, hd ds) (zip [0..<length ds] ds))"

definition pick :: "('d list \<Rightarrow> nat) \<Rightarrow> 'd list \<Rightarrow> 'g \<Rightarrow> (nat \<times> 'd list \<times> 'g) result" where
  "pick f ds g = (if ds = [] then Inl (AssertFailed ''getVictim'') else Inr (f ds, ds, g))"

definition lru :: "(unit, Tick) ReplPolicy" where
  "lru = \<lparr>instantiateEntry = (\<lambda>g. Inr (0, g)),
     rp_touch = (\<lambda>inp d g. Inr (rp_tick inp, g)),
     rp_reset = (\<lambda>inp d g. Inr (rp_tick inp, g)),
     rp_invalidate = (\<lambda>d g. Inr (0, g)),
     getVictim = (\<lambda>inp. pick (best_index (<)))\<rparr>"

text \<open>BIP inserts at the MRU position with a probability of \<open>btp\<close> percent.\<close>

definition bip :: "nat \<Rightarrow> (unit, Tick) ReplPolicy" where
  "bip btp = lru\<lparr>rp_reset := (\<lambda>inp d g. Inr (if rand_range 1 100 inp \<le> btp then rp_tick inp else 1, g))\<rparr>"

fun mru_scan :: "Tick list \<Rightarrow> nat \<Rightarrow> nat \<Rightarrow> Tick \<Rightarrow> nat" where
  "mru_scan [] i victim vt = victim"
| "mru_scan (d # ds) i victim vt =
     (if d = 0 then i else if d > vt then mru_scan ds (i + 1) i d else mru_scan ds (i + 1) victim vt)"

definition mru :: "(unit, Tick) ReplPolicy" where
  "mru = lru\<lparr>getVictim := (\<lambda>inp. pick (\<lambda>ds. mru_scan ds 0 0 (hd ds)))\<rparr>"

text \<open>FIFO stamps with a counter of its own.\<close>

definition fifo_reset :: "Tick \<times> Tick \<Rightarrow> Tick \<times> Tick" where
  "fifo_reset p = (snd p + 1, snd p + 1)"

definition fifo :: "(Tick, Tick) ReplPolicy" where
  "fifo = \<lparr>instantiateEntry = (\<lambda>g. Inr (0, g)),
     rp_touch = (\<lambda>inp d g. Inr (d, g)),
     rp_reset = (\<lambda>inp d g. Inr (fifo_reset (d, g))),
     rp_invalidate = (\<lambda>d g. Inr (0, g)),
     getVictim = (\<lambda>inp. pick (best_index (<)))\<rparr>"

definition lfu :: "(unit, u32) ReplPolicy" where
  "lfu = \<lparr>instantiateEntry = (\<lambda>g. Inr (0, g)),
     rp_touch = (\<lambda>inp d g. Inr (d + 1, g)),
     rp_reset = (\<lambda>inp d g. Inr (1, g)),
     rp_invalidate = (\<lambda>d g. Inr (0, g)),
     getVictim = (\<lambda>inp. pick (best_index (<)))\<rparr>"

text \<open>The position of the first candidate with a property, or a default.\<close>

definition first_index :: "('d \<Rightarrow> bool) \<Rightarrow> nat \<Rightarrow> 'd list \<Rightarrow> nat" where
  "first_index P k ds = (if list_ex P ds then length (takeWhile (\<lambda>d. \<not> P d) ds) else k)"

definition random_rp :: "(unit, bool) ReplPolicy" where
  "random_rp = \<lparr>instantiateEntry = (\<lambda>g. Inr (False, g)),
     rp_touch = (\<lambda>inp d g. Inr (d, g)),
     rp_reset = (\<lambda>inp d g. Inr (True, g)),
     rp_invalidate = (\<lambda>d g. Inr (False, g)),
     getVictim = (\<lambda>inp. pick (\<lambda>ds. first_index (\<lambda>d. \<not> d) (rand_range 0 (length ds - 1) inp) ds))\<rparr>"

text \<open>Weighted LRU: the smallest occupancy, the older one among equals.\<close>

record WeightedData =
  w_tick :: Tick
  last_occ_ptr :: int

definition weighted_touch :: "RpInput \<Rightarrow> int \<Rightarrow> WeightedData \<Rightarrow> WeightedData" where
  "weighted_touch inp occupancy d = d\<lparr>w_tick := rp_tick inp, last_occ_ptr := occupancy\<rparr>"

definition weighted_better :: "WeightedData \<Rightarrow> WeightedData \<Rightarrow> bool" where
  "weighted_better c v \<longleftrightarrow> last_occ_ptr c < last_occ_ptr v \<or>
     (last_occ_ptr c = last_occ_ptr v \<and> w_tick c < w_tick v)"

definition weighted_lru :: "(unit, WeightedData) ReplPolicy" where
  "weighted_lru = \<lparr>instantiateEntry = (\<lambda>g. Inr (\<lparr>w_tick = 0, last_occ_ptr = 0\<rparr>, g)),
     rp_touch = (\<lambda>inp d g. Inr (d\<lparr>w_tick := rp_tick inp\<rparr>, g)),
     rp_reset = (\<lambda>inp d g. Inr (d\<lparr>w_tick := rp_tick inp\<rparr>, g)),
     rp_invalidate = (\<lambda>d g. Inr (d\<lparr>w_tick := 0\<rparr>, g)),
     getVictim = (\<lambda>inp. pick (best_index weighted_better))\<rparr>"

text \<open>Second chance on top of FIFO.\<close>

record SecondChanceData =
  tickInserted :: Tick
  hasSecondChance :: bool

definition useSecondChance :: "SecondChanceData \<Rightarrow> Tick \<Rightarrow> SecondChanceData \<times> Tick" where
  "useSecondChance d g =
     (let (t, g') = fifo_reset (tickInserted d, g) in (d\<lparr>tickInserted := t, hasSecondChance := False\<rparr>, g'))"

definition oldest :: "SecondChanceData list \<Rightarrow> nat" where
  "oldest ds = best_index (<) (map tickInserted ds)"

lemma best_index_cases:
  assumes "ds \<noteq> []"
  shows "best_index better ds < length ds \<and>
    scan_best (\<lambda>c v. better (snd c) (snd v)) (0, hd ds) (zip [0..<length ds] ds)
      = (best_index better ds, ds ! best_index better ds)"
proof -
  let ?r = "scan_best (\<lambda>c v. better (snd c) (snd v)) (0, hd ds) (zip [0..<length ds] ds)"
  have "?r \<in> insert (0, hd ds) (set (zip [0..<length ds] ds))" by (rule scan_best_in)
  moreover have "(0, hd ds) \<in> set (zip [0..<length ds] ds)"
    using assms by (force simp: in_set_zip hd_conv_nth)
  ultimately obtain k where "k < length ds" "?r = (k, ds ! k)" by (auto simp: in_set_zip)
  then show ?thesis by (simp add: best_index_def)
qed

lemma best_index_less: "ds \<noteq> [] \<Longrightarrow> best_index better ds < length ds"
  using best_index_cases by blast

lemma best_index_min:
  fixes key :: "'d \<Rightarrow> 'k::linorder"
  assumes "d \<in> set ds"
  shows "key (ds ! best_index (\<lambda>a b. key a < key b) ds) \<le> key d"
proof -
  let ?z = "zip [0..<length ds] ds"
  have ne: "ds \<noteq> []" using assms by auto
  obtain k where "k < length ds" "d = ds ! k" using assms by (auto simp: in_set_conv_nth)
  then have "(k, d) \<in> set ?z" by (force simp: in_set_zip)
  with scan_best_key_min [of "(0, hd ds)" ?z "key \<circ> snd"] best_index_cases [OF ne, of "\<lambda>a b. key a < key b"]
  show ?thesis by (auto simp: comp_def)
qed

lemma oldest_less: "ds \<noteq> [] \<Longrightarrow> oldest ds < length ds"
  using best_index_less [of "map tickInserted ds"] by (simp add: oldest_def)

function (sequential) second_chance_search ::
  "SecondChanceData list \<Rightarrow> Tick \<Rightarrow> nat \<times> SecondChanceData list \<times> Tick" where
  "second_chance_search [] g = (0, [], g)"
| "second_chance_search (d # ds) g =
     (if hasSecondChance ((d # ds) ! oldest (d # ds))
      then second_chance_search
             ((d # ds)[oldest (d # ds) := fst (useSecondChance ((d # ds) ! oldest (d # ds)) g)])
             (snd (useSecondChance ((d # ds) ! oldest (d # ds)) g))
      else (oldest (d # ds), d # ds, g))"
  by pat_completeness auto

text \<open>Each round takes a second chance away, so the search ends.\<close>

abbreviation chances :: "SecondChanceData list \<Rightarrow> nat" where
  "chances ds \<equiv> length (filter hasSecondChance ds)"

lemma chances_update:
  assumes "i < length ds" "hasSecondChance (ds ! i)" "\<not> hasSecondChance d"
  shows "Suc (chances (ds[i := d])) = chances ds"
proof -
  have "chances ds = chances (take i ds @ ds ! i # drop (Suc i) ds)"
    by (rule arg_cong [OF id_take_nth_drop [OF assms(1)]])
  also have "\<dots> = Suc (chances (take i ds) + chances (drop (Suc i) ds))"
    using assms(2) by simp
  finally show ?thesis using assms(1,3) by (simp add: upd_conv_take_nth_drop)
qed

lemma useSecondChance_flag: "\<not> hasSecondChance (fst (useSecondChance d g))"
  by (simp add: useSecondChance_def case_prod_beta)

termination second_chance_search
proof (relation "measure (\<lambda>(ds, g). length (filter hasSecondChance ds))")
  fix d :: SecondChanceData and ds g
  assume h: "hasSecondChance ((d # ds) ! oldest (d # ds))"
  show "(((d # ds)[oldest (d # ds) := fst (useSecondChance ((d # ds) ! oldest (d # ds)) g)],
      snd (useSecondChance ((d # ds) ! oldest (d # ds)) g)), (d # ds, g))
      \<in> measure (\<lambda>(ds, g). length (filter hasSecondChance ds))"
    using chances_update [OF oldest_less h useSecondChance_flag [of "(d # ds) ! oldest (d # ds)" g]]
    by (simp del: filter.simps list_update.simps)
qed simp

definition second_chance :: "(Tick, SecondChanceData) ReplPolicy" where
  "second_chance = \<lparr>instantiateEntry = (\<lambda>g. Inr (\<lparr>tickInserted = 0, hasSecondChance = False\<rparr>, g)),
     rp_touch = (\<lambda>inp d g. Inr (d\<lparr>hasSecondChance := True\<rparr>, g)),
     rp_reset = (\<lambda>inp d g. let (t, g') = fifo_reset (tickInserted d, g)
                           in Inr (d\<lparr>tickInserted := t, hasSecondChance := False\<rparr>, g')),
     rp_invalidate = (\<lambda>d g. Inr (d\<lparr>tickInserted := 0, hasSecondChance := False\<rparr>, g)),
     getVictim = (\<lambda>inp ds g.
       if ds = [] then Inl (AssertFailed ''getVictim'')
       else if list_ex (\<lambda>d. tickInserted d = 0 \<and> \<not> hasSecondChance d) ds
       then Inr (first_index (\<lambda>d. tickInserted d = 0 \<and> \<not> hasSecondChance d) 0 ds, ds, g)
       else Inr (second_chance_search ds g))\<rparr>"

section \<open>The contract\<close>

locale replacement_policy =
  fixes rp :: "('g, 'd) ReplPolicy"
    and dinv :: "'d \<Rightarrow> bool"
  assumes new_inv: "instantiateEntry rp g = Inr (d, g') \<Longrightarrow> dinv d"
    and touch_ok: "dinv d \<Longrightarrow> \<exists>d' g'. rp_touch rp inp d g = Inr (d', g') \<and> dinv d'"
    and reset_ok: "dinv d \<Longrightarrow> \<exists>d' g'. rp_reset rp inp d g = Inr (d', g') \<and> dinv d'"
    and invalidate_ok: "dinv d \<Longrightarrow> \<exists>d' g'. rp_invalidate rp d g = Inr (d', g') \<and> dinv d'"
    and victim_ok: "ds \<noteq> [] \<Longrightarrow> list_all dinv ds \<Longrightarrow>
      \<exists>i ds' g'. getVictim rp inp ds g = Inr (i, ds', g') \<and> i < length ds \<and>
        length ds' = length ds \<and> list_all dinv ds'"

locale invalid_first = replacement_policy rp dinv
  for rp :: "('g, 'd) ReplPolicy" and dinv :: "'d \<Rightarrow> bool" +
  fixes isinv :: "'d \<Rightarrow> bool"
  assumes invalidate_isinv: "rp_invalidate rp d g = Inr (d', g') \<Longrightarrow> isinv d'"
    and victim_isinv: "d \<in> set ds \<Longrightarrow> isinv d \<Longrightarrow> getVictim rp inp ds g = Inr (i, ds', g') \<Longrightarrow> isinv (ds ! i)"
begin

text \<open>After an invalidation the next victim is an invalid entry, and the invalidated one when the
  others are valid.\<close>

lemma invalidated_is_victim:
  assumes "k < length ds" "\<forall>j < length ds. j \<noteq> k \<longrightarrow> \<not> isinv (ds ! j)" "list_all dinv ds"
  shows "\<exists>d g' ds' g''. rp_invalidate rp (ds ! k) g = Inr (d, g') \<and>
    getVictim rp inp (ds[k := d]) g' = Inr (k, ds', g'')"
proof -
  have dk: "dinv (ds ! k)" using assms(1,3) by (simp add: list_all_length)
  then obtain d g' where d: "rp_invalidate rp (ds ! k) g = Inr (d, g')" "dinv d"
    using invalidate_ok by blast
  let ?ds = "ds[k := d]"
  have "list_all dinv ?ds" using assms(1,3) d(2)
    by (metis list_all_length length_list_update nth_list_update)
  moreover have "?ds \<noteq> []" using assms(1) by auto
  ultimately obtain i ds' g'' where v: "getVictim rp inp ?ds g' = Inr (i, ds', g'')" "i < length ds"
    using victim_ok [of ?ds inp g'] by auto
  have "d \<in> set ?ds" using assms(1) by (rule set_update_memI)
  then have "isinv (?ds ! i)" using victim_isinv [OF _ invalidate_isinv [OF d(1)] v(1)] by blast
  then have "i = k" using assms(2) v(2) by (metis nth_list_update_neq)
  then show ?thesis using d(1) v(1) by blast
qed

end

section \<open>The policies meet the contract\<close>

named_theorems rp_defs
declare lru_def [rp_defs] bip_def [rp_defs] mru_def [rp_defs] fifo_def [rp_defs] lfu_def [rp_defs]
  random_rp_def [rp_defs] weighted_lru_def [rp_defs] second_chance_def [rp_defs]

lemma pick_ok [simp]: "ds \<noteq> [] \<Longrightarrow> pick f ds g = Inr (f ds, ds, g)"
  by (simp add: pick_def)

lemma pick_result: "pick f ds g = Inr (i, ds', g') \<Longrightarrow> ds \<noteq> [] \<and> i = f ds \<and> ds' = ds \<and> g' = g"
  by (auto simp: pick_def split: if_splits)

lemma least_is_zero:
  fixes d :: "'a::len word"
  assumes "d \<in> set ds" "d = 0"
  shows "ds ! best_index (<) ds = 0"
  using best_index_min [of d ds "\<lambda>x. x"] assms by simp

lemma mru_scan_less: "victim < i + length ds \<Longrightarrow> mru_scan ds i victim vt < i + length ds"
proof (induction ds arbitrary: i victim vt)
  case (Cons d ds)
  then show ?case using Cons.IH [of i "i + 1" d] Cons.IH [of victim "i + 1" vt] by simp
qed simp

lemma mru_scan_zero:
  "0 \<in> set ds \<Longrightarrow> \<exists>k < length ds. mru_scan ds i victim vt = i + k \<and> ds ! k = 0"
proof (induction ds arbitrary: i victim vt)
  case (Cons d ds)
  show ?case
  proof (cases "d = 0")
    case False
    then have "0 \<in> set ds" using Cons.prems by simp
    from Cons.IH [OF this, of "i + 1" "if d > vt then i else victim" "if d > vt then d else vt"]
    obtain k where "k < length ds" "mru_scan (d # ds) i victim vt = i + Suc k" "ds ! k = 0"
      using False by (auto split: if_splits)
    then show ?thesis by (intro exI [of _ "Suc k"]) simp
  qed (intro exI [of _ 0], simp)
qed simp

lemma first_position:
  "d \<in> set ds \<Longrightarrow> P d \<Longrightarrow>
    length (takeWhile (\<lambda>d. \<not> P d) ds) < length ds \<and> P (ds ! length (takeWhile (\<lambda>d. \<not> P d) ds))"
  by (induction ds) auto

lemma first_index_less: "k < length ds \<Longrightarrow> first_index P k ds < length ds"
  using first_position [of _ ds P] by (auto simp: first_index_def list_ex_iff)

lemma first_index_holds: "d \<in> set ds \<Longrightarrow> P d \<Longrightarrow> P (ds ! first_index P k ds)"
  using first_position [of d ds P] by (auto simp: first_index_def list_ex_iff)

interpretation lru_rp: invalid_first lru "\<lambda>_. True" "\<lambda>d. d = 0"
  by unfold_locales (auto simp: rp_defs intro!: best_index_less least_is_zero dest!: pick_result)

interpretation bip_rp: invalid_first "bip btp" "\<lambda>_. True" "\<lambda>d. d = 0" for btp
  by unfold_locales (auto simp: rp_defs intro!: best_index_less least_is_zero dest!: pick_result)

interpretation fifo_rp: invalid_first fifo "\<lambda>_. True" "\<lambda>d. d = 0"
  by unfold_locales (auto simp: rp_defs fifo_reset_def intro!: best_index_less least_is_zero dest!: pick_result)

interpretation lfu_rp: invalid_first lfu "\<lambda>_. True" "\<lambda>d. d = 0"
  by unfold_locales (auto simp: rp_defs intro!: best_index_less least_is_zero dest!: pick_result)

lemma mru_index_less: "ds \<noteq> [] \<Longrightarrow> mru_scan ds 0 0 (hd ds) < length ds"
  using mru_scan_less [of 0 0 ds] by simp

lemma mru_index_zero: "d \<in> set ds \<Longrightarrow> d = 0 \<Longrightarrow> ds ! mru_scan ds 0 0 (hd ds) = 0"
  using mru_scan_zero [of ds 0 0 "hd ds"] by auto

interpretation mru_rp: invalid_first mru "\<lambda>_. True" "\<lambda>d. d = 0"
  by unfold_locales (auto simp: rp_defs intro!: mru_index_less mru_index_zero dest!: pick_result)

lemma rand_index_less: "ds \<noteq> [] \<Longrightarrow> rand_range 0 (length ds - Suc 0) inp < length ds"
  by (simp add: rand_range_def)

interpretation rand_rp: invalid_first random_rp "\<lambda>_. True" "\<lambda>d. \<not> d"
proof (unfold_locales, goal_cases)
  case (7 d ds inp g i ds' g')
  then show ?case
    using first_index_holds [of d ds "\<lambda>d. \<not> d"] by (auto simp: rp_defs dest!: pick_result)
qed (auto simp: rp_defs intro!: first_index_less rand_index_less)

interpretation wlru_rp: replacement_policy weighted_lru "\<lambda>_. True"
  by unfold_locales (auto simp: rp_defs intro!: best_index_less)

section \<open>The second-chance search\<close>

lemma second_chance_search_result:
  assumes "ds \<noteq> []" "second_chance_search ds g = (i, ds', g')"
  shows "i < length ds \<and> length ds' = length ds \<and> i = oldest ds' \<and> \<not> hasSecondChance (ds' ! i) \<and>
    (\<exists>n. g' = g + of_nat n \<and> chances ds = chances ds' + n)"
  using assms
proof (induction ds g arbitrary: i ds' g' rule: second_chance_search.induct)
  case (2 d ds g)
  let ?o = "oldest (d # ds)" and ?u = "useSecondChance ((d # ds) ! oldest (d # ds)) g"
  let ?ds = "(d # ds)[?o := fst ?u]"
  show ?case
  proof (cases "hasSecondChance ((d # ds) ! ?o)")
    case True
    have ne: "?ds \<noteq> []" using oldest_less [of "d # ds"] by (metis length_0_conv length_list_update list.distinct(1))
    have "second_chance_search ?ds (snd ?u) = (i, ds', g')" using "2.prems"(2) True by simp
    note IH = "2.IH" [OF True ne this]
    have "Suc (chances ?ds) = chances (d # ds)"
      using chances_update [OF oldest_less True useSecondChance_flag] by (simp del: filter.simps list_update.simps)
    moreover have "snd ?u = g + 1" by (simp add: useSecondChance_def fifo_reset_def)
    moreover obtain n where "g' = snd ?u + of_nat n" "chances ?ds = chances ds' + n" using IH by blast
    ultimately have "g' = g + of_nat (Suc n) \<and> chances (d # ds) = chances ds' + Suc n"
      by (simp del: filter.simps)
    with IH show ?thesis by (metis length_list_update)
  next
    case False
    then show ?thesis using "2.prems"(2) oldest_less [of "d # ds"] by auto
  qed
qed simp

interpretation second_rp: invalid_first second_chance "\<lambda>_. True"
  "\<lambda>d. tickInserted d = 0 \<and> \<not> hasSecondChance d"
proof (unfold_locales, goal_cases)
  case (5 ds inp g)
  then have "first_index (\<lambda>d. tickInserted d = 0 \<and> \<not> hasSecondChance d) 0 ds < length ds"
    by (intro first_index_less) simp
  with 5 show ?case
    by (cases "second_chance_search ds g")
       (auto simp: second_chance_def list_all_iff dest: second_chance_search_result)
next
  case (7 d ds inp g i ds' g')
  then show ?case
    using first_index_holds [of d ds "\<lambda>d. tickInserted d = 0 \<and> \<not> hasSecondChance d"]
    by (auto simp: second_chance_def list_ex_iff split: if_splits)
qed (auto simp: second_chance_def fifo_reset_def)

section \<open>Properties\<close>

text \<open>C24: The victim search of the second-chance policy ends for every non-empty candidate list and
  returns one of the candidates without a second chance. Each round of the loop takes one second
  chance away and one stamp from the insertion counter, so there are at most as many rounds as
  there were candidates with a second chance.\<close>

theorem second_chance_ends:
  assumes "ds \<noteq> []"
  shows "\<exists>i ds' g' n. getVictim second_chance inp ds g = Inr (i, ds', g') \<and>
    i < length ds \<and> length ds' = length ds \<and> \<not> hasSecondChance (ds' ! i) \<and>
    g' = g + of_nat n \<and> length (filter hasSecondChance ds) = length (filter hasSecondChance ds') + n"
proof (cases "list_ex (\<lambda>d. tickInserted d = 0 \<and> \<not> hasSecondChance d) ds")
  case True
  then obtain d where d: "d \<in> set ds" "tickInserted d = 0 \<and> \<not> hasSecondChance d" by (auto simp: list_ex_iff)
  let ?i = "first_index (\<lambda>d. tickInserted d = 0 \<and> \<not> hasSecondChance d) 0 ds"
  have "?i < length ds" using assms by (intro first_index_less) simp
  moreover have "\<not> hasSecondChance (ds ! ?i)" using first_index_holds [of d ds "\<lambda>d. tickInserted d = 0 \<and> \<not> hasSecondChance d"] d by simp
  ultimately show ?thesis using assms True
    by (intro exI [of _ ?i] exI [of _ ds] exI [of _ g] exI [of _ 0]) (simp add: second_chance_def)
next
  case False
  obtain i ds' g' where s: "second_chance_search ds g = (i, ds', g')" by (cases "second_chance_search ds g")
  from second_chance_search_result [OF assms s] obtain n
    where "i < length ds" "length ds' = length ds" "\<not> hasSecondChance (ds' ! i)"
      "g' = g + of_nat n" "chances ds = chances ds' + n" by blast
  then show ?thesis using assms False s
    by (intro exI [of _ i] exI [of _ ds'] exI [of _ g'] exI [of _ n]) (simp add: second_chance_def)
qed

theorem second_chance_ends_witness:
  "\<exists>i ds' g' n. getVictim second_chance \<lparr>rp_tick = 0, rp_draw = 0\<rparr>
      [\<lparr>tickInserted = 1, hasSecondChance = True\<rparr>, \<lparr>tickInserted = 2, hasSecondChance = True\<rparr>] 2
        = Inr (i, ds', g') \<and>
    i < 2 \<and> length ds' = 2 \<and> \<not> hasSecondChance (ds' ! i) \<and> g' = 2 + of_nat n \<and>
    2 = length (filter hasSecondChance ds') + n"
  using second_chance_ends [of "[\<lparr>tickInserted = 1, hasSecondChance = True\<rparr>,
    \<lparr>tickInserted = 2, hasSecondChance = True\<rparr>]" "\<lparr>rp_tick = 0, rp_draw = 0\<rparr>" 2]
  by (simp add: numeral_2_eq_2)

text \<open>LRU keeps its promise. When every other candidate was last used strictly before the
  current tick, an entry that is touched now is not the next victim, and after an invalidation of
  an entry, with every other entry used at a later tick than 0, that entry is the next victim.\<close>

theorem lru_touch_and_invalidate:
  assumes "k < length ds" "1 < length ds" "\<forall>j < length ds. j \<noteq> k \<longrightarrow> ds ! j < rp_tick inp \<and> ds ! j \<noteq> 0"
  shows "(\<exists>d i. rp_touch lru inp (ds ! k) () = Inr (d, ()) \<and>
      getVictim lru inp (ds[k := d]) () = Inr (i, ds[k := d], ()) \<and> i < length ds \<and> i \<noteq> k \<and>
      (\<forall>j < length ds. (ds[k := d]) ! i \<le> (ds[k := d]) ! j)) \<and>
    (\<exists>d. rp_invalidate lru (ds ! k) () = Inr (d, ()) \<and>
      getVictim lru inp (ds[k := d]) () = Inr (k, ds[k := d], ()))"
proof
  let ?ds = "ds[k := rp_tick inp]"
  let ?i = "best_index (<) ?ds"
  have ne: "?ds \<noteq> []" using assms(1) by auto
  have i: "?i < length ds" using best_index_less [OF ne] by simp
  have least: "?ds ! ?i \<le> ?ds ! j" if "j < length ds" for j
    using best_index_min [of "?ds ! j" ?ds "\<lambda>x. x"] that by simp
  obtain j where "j < length ds" "j \<noteq> k" using assms(2) by (metis less_trans nat_neq_iff zero_less_one)
  with least [of j] assms(1,3) have "?i \<noteq> k" by (metis leD nth_list_update_eq nth_list_update_neq)
  then show "\<exists>d i. rp_touch lru inp (ds ! k) () = Inr (d, ()) \<and>
      getVictim lru inp (ds[k := d]) () = Inr (i, ds[k := d], ()) \<and> i < length ds \<and> i \<noteq> k \<and>
      (\<forall>j < length ds. (ds[k := d]) ! i \<le> (ds[k := d]) ! j)"
    using ne i least by (intro exI [of _ "rp_tick inp"] exI [of _ ?i]) (simp add: lru_def)
  show "\<exists>d. rp_invalidate lru (ds ! k) () = Inr (d, ()) \<and>
      getVictim lru inp (ds[k := d]) () = Inr (k, ds[k := d], ())"
    using lru_rp.invalidated_is_victim [of k ds "()" inp] assms
    by (auto simp: list_all_iff lru_def dest: pick_result)
qed

theorem lru_touch_and_invalidate_witness:
  "\<exists>d i. rp_touch lru \<lparr>rp_tick = 9, rp_draw = 0\<rparr> 3 () = Inr (d, ()) \<and>
      getVictim lru \<lparr>rp_tick = 9, rp_draw = 0\<rparr> [d, 5] () = Inr (i, [d, 5], ()) \<and> i < 2 \<and> i \<noteq> 0"
proof -
  have "\<forall>j < length [3, 5 :: Tick]. j \<noteq> 0 \<longrightarrow>
      [3, 5] ! j < rp_tick \<lparr>rp_tick = 9, rp_draw = 0\<rparr> \<and> [3, 5 :: Tick] ! j \<noteq> 0"
    by (simp add: All_less_Suc2)
  from lru_touch_and_invalidate [OF _ _ this] show ?thesis by fastforce
qed

text \<open>Weighted LRU ranks by weight before age and its invalidation resets only the age: an
  invalidated entry is not the next victim as long as a valid entry with a smaller weight is among
  the candidates.\<close>

theorem weighted_lru_keeps_invalid:
  assumes "last_occ_ptr e < last_occ_ptr d"
  shows "\<exists>d'. rp_invalidate weighted_lru d () = Inr (d', ()) \<and>
    getVictim weighted_lru inp [d', e] () = Inr (1, [d', e], ())"
  using assms by (simp add: weighted_lru_def best_index_def weighted_better_def)

theorem weighted_lru_keeps_invalid_witness:
  "\<exists>d'. rp_invalidate weighted_lru \<lparr>w_tick = 7, last_occ_ptr = 4\<rparr> () = Inr (d', ()) \<and>
    getVictim weighted_lru \<lparr>rp_tick = 9, rp_draw = 0\<rparr> [d', \<lparr>w_tick = 8, last_occ_ptr = 2\<rparr>] ()
      = Inr (1, [d', \<lparr>w_tick = 8, last_occ_ptr = 2\<rparr>], ())"
  by (rule weighted_lru_keeps_invalid) simp

end
