(* ===== verification/AssocCache.thy ===== *)
theory AssocCache
  imports Indexing Replacement
begin

text \<open>
  The associative table of \<open>base/cache/associative_cache.hh\<close> over the tagged entries of
  \<open>mem/cache/tags/tagged_entry.hh\<close>. A table does not own its index: the indexing policy and the
  replacement policy are objects that tables may share, and the pointers of the index lead into a
  store of entries, where every table has a range. The virtual function of an entry,
  \<open>invalidate\<close>, is an argument.
\<close>

section \<open>Entries\<close>

record 'd TaggedEntry =
  e_set :: u32
  e_way :: u32
  replacementData :: "'d option"
  te_valid :: bool
  te_secure :: bool
  te_tag :: Addr

definition MaxAddr :: Addr where "MaxAddr = - 1"

definition entry_match :: "IndexKind \<Rightarrow> IndexingPolicy \<Rightarrow> TaggedKey \<Rightarrow> ('d, 'a) TaggedEntry_scheme \<Rightarrow> bool" where
  "entry_match k ip key e \<longleftrightarrow> te_valid e \<and> te_tag e = extractTag k ip (key_address key) \<and>
     te_secure e = key_secure key"

definition entry_insert :: "IndexKind \<Rightarrow> IndexingPolicy \<Rightarrow> TaggedKey \<Rightarrow> ('d, 'a) TaggedEntry_scheme \<Rightarrow>
    ('d, 'a) TaggedEntry_scheme result" where
  "entry_insert k ip key e =
     (if te_valid e then Inl (AssertFailed ''!isValid()'')
      else Inr (e\<lparr>te_valid := True, te_tag := extractTag k ip (key_address key),
                  te_secure := (key_secure key \<or> te_secure e)\<rparr>))"

definition TaggedEntry_invalidate :: "('d, 'a) TaggedEntry_scheme \<Rightarrow> ('d, 'a) TaggedEntry_scheme" where
  "TaggedEntry_invalidate e = e\<lparr>te_valid := False, te_tag := MaxAddr, te_secure := False\<rparr>"

section \<open>Tables\<close>

record ('e, 'g) Tables =
  store :: "'e list"
  indexing :: IndexingPolicy
  rp_state :: 'g

fun initParams :: "('g, 'd) ReplPolicy \<Rightarrow> nat \<Rightarrow> nat \<Rightarrow> nat \<Rightarrow> (('d, 'a) TaggedEntry_scheme, 'g) Tables \<Rightarrow>
    (('d, 'a) TaggedEntry_scheme, 'g) Tables result" where
  "initParams rp start 0 idx t = Inr t"
| "initParams rp start (Suc n) idx t =
     bindR (setEntry (start + idx) idx (indexing t)) (\<lambda>((st, way), ip).
     bindR (instantiateEntry rp (rp_state t)) (\<lambda>(d, g).
       initParams rp start n (idx + 1)
         (t\<lparr>store := (store t)[start + idx := (store t ! (start + idx))
                \<lparr>e_set := st, e_way := way, replacementData := Some d\<rparr>],
            indexing := ip, rp_state := g\<rparr>)))"

definition newAssociativeCache :: "('g, 'd) ReplPolicy \<Rightarrow> nat \<Rightarrow> nat \<Rightarrow> ('d, 'a) TaggedEntry_scheme \<Rightarrow>
    (('d, 'a) TaggedEntry_scheme, 'g) Tables \<Rightarrow> (('d, 'a) TaggedEntry_scheme, 'g) Tables result" where
  "newAssociativeCache rp num_entries assoc init_val t =
     (if assoc = 0 then Inl (NotFinite ''num_entries % assoc'')
      else if num_entries mod assoc \<noteq> 0
      then Inl (Fatal ''The number of entries must be a multiple of the associativity'')
      else initParams rp (length (store t)) num_entries 0
             (t\<lparr>store := store t @ replicate num_entries init_val\<rparr>))"

fun first_match :: "('e \<Rightarrow> bool) \<Rightarrow> 'e list \<Rightarrow> nat option list \<Rightarrow> nat option result" where
  "first_match P es [] = Inr None"
| "first_match P es (None # ps) = Inl (NullDeref ''entry'')"
| "first_match P es (Some p # ps) =
     (if \<not> p < length es then Inl (NullDeref ''entry'')
      else if P (es ! p) then Inr (Some p) else first_match P es ps)"

definition findEntry :: "IndexKind \<Rightarrow> TaggedKey \<Rightarrow> (('d, 'a) TaggedEntry_scheme, 'g) Tables \<Rightarrow> nat option result" where
  "findEntry k key t =
     bindR (getPossibleEntries k (indexing t) key) (\<lambda>ps.
       first_match (entry_match k (indexing t) key) (store t) ps)"

text \<open>The replacement data of the candidates, and their update by the policy.\<close>

fun candidate_data :: "('d, 'a) TaggedEntry_scheme list \<Rightarrow> nat option list \<Rightarrow> (nat \<times> 'd) list result" where
  "candidate_data es [] = Inr []"
| "candidate_data es (None # ps) = Inl (NullDeref ''entry'')"
| "candidate_data es (Some p # ps) =
     (if \<not> p < length es then Inl (NullDeref ''entry'')
      else case replacementData (es ! p) of
             None \<Rightarrow> Inl (NullDeref ''replacementData'')
           | Some d \<Rightarrow> bindR (candidate_data es ps) (\<lambda>r. Inr ((p, d) # r)))"

definition with_data :: "('d \<Rightarrow> 'g \<Rightarrow> ('d \<times> 'g) result) \<Rightarrow> nat \<Rightarrow>
    (('d, 'a) TaggedEntry_scheme, 'g) Tables \<Rightarrow> (('d, 'a) TaggedEntry_scheme, 'g) Tables result" where
  "with_data f p t =
     (if \<not> p < length (store t) then Inl (NullDeref ''entry'')
      else case replacementData (store t ! p) of
             None \<Rightarrow> Inl (NullDeref ''replacementData'')
           | Some d \<Rightarrow> bindR (f d (rp_state t)) (\<lambda>(d', g).
               Inr (t\<lparr>store := (store t)[p := (store t ! p)\<lparr>replacementData := Some d'\<rparr>], rp_state := g\<rparr>)))"

definition accessEntry :: "('g, 'd) ReplPolicy \<Rightarrow> RpInput \<Rightarrow> nat \<Rightarrow>
    (('d, 'a) TaggedEntry_scheme, 'g) Tables \<Rightarrow> (('d, 'a) TaggedEntry_scheme, 'g) Tables result" where
  "accessEntry rp inp p t = with_data (rp_touch rp inp) p t"

definition accessKey :: "('g, 'd) ReplPolicy \<Rightarrow> IndexKind \<Rightarrow> RpInput \<Rightarrow> TaggedKey \<Rightarrow>
    (('d, 'a) TaggedEntry_scheme, 'g) Tables \<Rightarrow> (nat option \<times> (('d, 'a) TaggedEntry_scheme, 'g) Tables) result" where
  "accessKey rp k inp key t =
     bindR (findEntry k key t) (\<lambda>r.
       case r of None \<Rightarrow> Inr (None, t) | Some p \<Rightarrow> bindR (accessEntry rp inp p t) (\<lambda>t'. Inr (Some p, t')))"

definition invalidateEntry :: "('g, 'd) ReplPolicy \<Rightarrow> (('d, 'a) TaggedEntry_scheme \<Rightarrow> ('d, 'a) TaggedEntry_scheme) \<Rightarrow>
    nat \<Rightarrow> (('d, 'a) TaggedEntry_scheme, 'g) Tables \<Rightarrow> (('d, 'a) TaggedEntry_scheme, 'g) Tables result" where
  "invalidateEntry rp inval p t =
     (if \<not> p < length (store t) then Inl (NullDeref ''entry'')
      else with_data (rp_invalidate rp) p (t\<lparr>store := (store t)[p := inval (store t ! p)]\<rparr>))"

fun clear_range :: "('g, 'd) ReplPolicy \<Rightarrow> (('d, 'a) TaggedEntry_scheme \<Rightarrow> ('d, 'a) TaggedEntry_scheme) \<Rightarrow>
    nat list \<Rightarrow> (('d, 'a) TaggedEntry_scheme, 'g) Tables \<Rightarrow> (('d, 'a) TaggedEntry_scheme, 'g) Tables result" where
  "clear_range rp inval [] t = Inr t"
| "clear_range rp inval (p # ps) t = bindR (invalidateEntry rp inval p t) (clear_range rp inval ps)"

definition write_data :: "(nat \<times> 'd) list \<Rightarrow> ('d, 'a) TaggedEntry_scheme list \<Rightarrow> ('d, 'a) TaggedEntry_scheme list" where
  "write_data = fold (\<lambda>(p, d) es. es[p := (es ! p)\<lparr>replacementData := Some d\<rparr>])"

definition findVictim :: "('g, 'd) ReplPolicy \<Rightarrow> IndexKind \<Rightarrow>
    (('d, 'a) TaggedEntry_scheme \<Rightarrow> ('d, 'a) TaggedEntry_scheme) \<Rightarrow> RpInput \<Rightarrow> TaggedKey \<Rightarrow>
    (('d, 'a) TaggedEntry_scheme, 'g) Tables \<Rightarrow> (nat \<times> (('d, 'a) TaggedEntry_scheme, 'g) Tables) result" where
  "findVictim rp k inval inp key t =
     bindR (getPossibleEntries k (indexing t) key) (\<lambda>ps.
     bindR (candidate_data (store t) ps) (\<lambda>cs.
     bindR (getVictim rp inp (map snd cs) (rp_state t)) (\<lambda>(i, ds, g).
       let p = fst (cs ! i);
           t' = t\<lparr>store := write_data (zip (map fst cs) ds) (store t), rp_state := g\<rparr>
       in bindR (invalidateEntry rp inval p t') (\<lambda>t''. Inr (p, t'')))))"

definition insertEntry :: "('g, 'd) ReplPolicy \<Rightarrow> IndexKind \<Rightarrow> RpInput \<Rightarrow> TaggedKey \<Rightarrow> nat \<Rightarrow>
    (('d, 'a) TaggedEntry_scheme, 'g) Tables \<Rightarrow> (('d, 'a) TaggedEntry_scheme, 'g) Tables result" where
  "insertEntry rp k inp key p t =
     (if \<not> p < length (store t) then Inl (NullDeref ''entry'')
      else bindR (entry_insert k (indexing t) key (store t ! p)) (\<lambda>e.
             with_data (rp_reset rp inp) p (t\<lparr>store := (store t)[p := e]\<rparr>)))"

section \<open>The invariant of a table\<close>

text \<open>The part of an entry that a lookup reads.\<close>

definition label :: "('d, 'a) TaggedEntry_scheme \<Rightarrow> bool \<times> bool \<times> Addr" where
  "label e = (te_valid e, te_secure e, te_tag e)"

definition entry_ok :: "('d \<Rightarrow> bool) \<Rightarrow> ('d, 'a) TaggedEntry_scheme \<Rightarrow> bool" where
  "entry_ok dinv e \<longleftrightarrow> (\<exists>d. replacementData e = Some d \<and> dinv d) \<and> (\<not> te_valid e \<longrightarrow> \<not> te_secure e)"

definition set_ok :: "('d \<Rightarrow> bool) \<Rightarrow> ('d, 'a) TaggedEntry_scheme list \<Rightarrow> nat option list \<Rightarrow> bool" where
  "set_ok dinv es ps \<longleftrightarrow>
     (\<forall>q \<in> set ps. \<exists>p. q = Some p \<and> p < length es \<and> entry_ok dinv (es ! p)) \<and>
     (\<forall>p p'. Some p \<in> set ps \<longrightarrow> Some p' \<in> set ps \<longrightarrow> te_valid (es ! p) \<longrightarrow> label (es ! p) = label (es ! p') \<longrightarrow> p = p')"

definition assoc_wf :: "('d \<Rightarrow> bool) \<Rightarrow> (('d, 'a) TaggedEntry_scheme, 'g) Tables \<Rightarrow> bool" where
  "assoc_wf dinv t \<longleftrightarrow> ip_wf (indexing t) \<and> distinct (concat (ip_sets (indexing t))) \<and>
     (\<forall>ps \<in> set (ip_sets (indexing t)). set_ok dinv (store t) ps)"

definition candidates :: "IndexKind \<Rightarrow> TaggedKey \<Rightarrow> ('e, 'g) Tables \<Rightarrow> nat option list" where
  "candidates k key t = ip_sets (indexing t) ! unat (extractSet k (indexing t) (key_address key))"

definition same_block :: "IndexKind \<Rightarrow> IndexingPolicy \<Rightarrow> TaggedKey \<Rightarrow> TaggedKey \<Rightarrow> bool" where
  "same_block k ip a b \<longleftrightarrow> extractSet k ip (key_address a) = extractSet k ip (key_address b) \<and>
     extractTag k ip (key_address a) = extractTag k ip (key_address b) \<and> key_secure a = key_secure b"

lemma candidates_in: "assoc_wf dinv t \<Longrightarrow> candidates k key t \<in> set (ip_sets (indexing t))"
  by (simp add: candidates_def assoc_wf_def extractSet_less)

lemma candidates_ok: "assoc_wf dinv t \<Longrightarrow> set_ok dinv (store t) (candidates k key t)"
  using candidates_in [of dinv t k key] by (simp add: assoc_wf_def)

lemma candidates_nonempty:
  assumes "assoc_wf dinv t"
  shows "candidates k key t \<noteq> []"
proof -
  have "length (candidates k key t) = unat (ip_assoc (indexing t))" "ip_assoc (indexing t) \<noteq> 0"
    using assms candidates_in [OF assms, of k key] by (auto simp: assoc_wf_def ip_wf_def list_all_iff)
  then show ?thesis by (auto simp: unat_eq_zero)
qed

lemma match_label: "label e = label e' \<Longrightarrow> entry_match k ip key e = entry_match k ip key e'"
  by (simp add: label_def entry_match_def)

lemma match_unique:
  "entry_match k ip key e \<Longrightarrow> entry_match k ip key e' \<Longrightarrow> te_valid e \<and> label e = label e'"
  by (simp add: label_def entry_match_def)

lemma first_match_find:
  assumes "\<forall>q \<in> set ps. \<exists>p. q = Some p \<and> p < length es"
  shows "first_match P es ps = Inr (Option.bind (find (\<lambda>q. case q of Some p \<Rightarrow> P (es ! p) | None \<Rightarrow> False) ps) id)"
  using assms by (induction P es ps rule: first_match.induct) auto

text \<open>A lookup finds the one entry of the set that matches.\<close>

lemma findEntry_iff:
  assumes "assoc_wf dinv t"
  shows "\<exists>r. findEntry k key t = Inr r \<and>
    (\<forall>p. r = Some p \<longleftrightarrow> Some p \<in> set (candidates k key t) \<and> entry_match k (indexing t) key (store t ! p))"
proof -
  let ?ps = "candidates k key t"
  let ?P = "\<lambda>q. case q of Some p \<Rightarrow> entry_match k (indexing t) key (store t ! p) | None \<Rightarrow> False"
  have ok: "set_ok dinv (store t) ?ps" using assms by (rule candidates_ok)
  have f: "findEntry k key t = Inr (Option.bind (find ?P ?ps) id)"
  proof -
    have "\<forall>q \<in> set ?ps. \<exists>p. q = Some p \<and> p < length (store t)" using ok unfolding set_ok_def by blast
    moreover have "getPossibleEntries k (indexing t) key = Inr ?ps"
      using assms by (simp add: assoc_wf_def getPossibleEntries_ok candidates_def)
    ultimately show ?thesis by (simp add: findEntry_def first_match_find)
  qed
  have "Option.bind (find ?P ?ps) id = Some p \<longleftrightarrow>
      Some p \<in> set ?ps \<and> entry_match k (indexing t) key (store t ! p)" (is "?L = ?R") for p
  proof
    assume ?L
    then obtain q where q: "find ?P ?ps = Some q" "q = Some p" by (cases "find ?P ?ps") auto
    then show ?R using find_result [of ?P ?ps q] by simp
  next
    assume R: ?R
    then have "find ?P ?ps \<noteq> None" by (auto simp: find_None_iff)
    then obtain q where q: "find ?P ?ps = Some q" by blast
    then have "q \<in> set ?ps" "?P q" using find_result by metis+
    then obtain p' where p': "q = Some p'" "Some p' \<in> set ?ps" "entry_match k (indexing t) key (store t ! p')"
      by (auto split: option.splits)
    then have "p' = p" using ok R match_unique unfolding set_ok_def by metis
    then show ?L using q p'(1) by simp
  qed
  then show ?thesis using f by blast
qed

section \<open>Updates\<close>

text \<open>A change of replacement data only: labels and the fields of derived entries are kept.\<close>

definition data_step :: "('d \<Rightarrow> bool) \<Rightarrow> ('d, 'a) TaggedEntry_scheme list \<Rightarrow> ('d, 'a) TaggedEntry_scheme list \<Rightarrow> bool" where
  "data_step dinv es es' \<longleftrightarrow> length es' = length es \<and>
     (\<forall>q < length es. label (es' ! q) = label (es ! q) \<and> TaggedEntry.more (es' ! q) = TaggedEntry.more (es ! q) \<and>
        (entry_ok dinv (es ! q) \<longrightarrow> entry_ok dinv (es' ! q)))"

lemma data_step_refl: "data_step dinv es es"
  by (simp add: data_step_def)

lemma data_step_trans: "data_step dinv es es' \<Longrightarrow> data_step dinv es' es'' \<Longrightarrow> data_step dinv es es''"
  by (simp add: data_step_def)

lemma data_step_update: "dinv d \<Longrightarrow> data_step dinv es (es[p := (es ! p)\<lparr>replacementData := Some d\<rparr>])"
  by (auto simp: data_step_def nth_update_cases label_def entry_ok_def)

lemma write_data_step: "\<forall>d \<in> snd ` set xs. dinv d \<Longrightarrow> data_step dinv es (write_data xs es)"
proof (induction xs arbitrary: es)
  case (Cons x xs)
  obtain p d where x: "x = (p, d)" by (cases x)
  have "data_step dinv (es[p := (es ! p)\<lparr>replacementData := Some d\<rparr>])
      (write_data xs (es[p := (es ! p)\<lparr>replacementData := Some d\<rparr>]))"
    using Cons by simp
  moreover have "data_step dinv es (es[p := (es ! p)\<lparr>replacementData := Some d\<rparr>])"
    using Cons.prems x by (intro data_step_update) simp
  ultimately show ?case using data_step_trans by (fastforce simp: write_data_def x)
qed (simp add: write_data_def data_step_refl)

lemma candidate_data_ok:
  "\<forall>q \<in> set ps. \<exists>p. q = Some p \<and> p < length es \<and> entry_ok dinv (es ! p) \<Longrightarrow>
    \<exists>cs. candidate_data es ps = Inr cs \<and> map (\<lambda>c. Some (fst c)) cs = ps \<and> list_all dinv (map snd cs)"
proof (induction es ps rule: candidate_data.induct)
  case (3 es p ps)
  then obtain d where d: "p < length es" "replacementData (es ! p) = Some d" "dinv d" by (auto simp: entry_ok_def)
  then show ?case using 3 by fastforce
qed auto

lemma with_data_ok:
  assumes "p < length (store t)" "entry_ok dinv (store t ! p)"
    and f: "\<And>d g. dinv d \<Longrightarrow> \<exists>d' g'. f d g = Inr (d', g') \<and> dinv d'"
  shows "\<exists>t'. with_data f p t = Inr t' \<and> indexing t' = indexing t \<and> data_step dinv (store t) (store t')"
proof -
  obtain d where d: "replacementData (store t ! p) = Some d" "dinv d" using assms(2) by (auto simp: entry_ok_def)
  obtain d' g' where "f d (rp_state t) = Inr (d', g')" "dinv d'" using f [OF d(2)] by blast
  then show ?thesis using assms(1) d(1) by (simp add: with_data_def data_step_update)
qed

text \<open>Changing the label of one entry of a set keeps the table well formed when the new label is
  invalid or new in its set.\<close>

lemma table_sets_disjoint:
  assumes "assoc_wf dinv t" "Some v \<in> set ps" "ps \<in> set (ip_sets (indexing t))"
    "Some v \<in> set ps'" "ps' \<in> set (ip_sets (indexing t))"
  shows "ps = ps'"
  using assms by (auto simp: assoc_wf_def distinct_concat_iff)

lemma assoc_wf_update:
  assumes wf: "assoc_wf dinv t" and t': "indexing t' = indexing t" "length (store t') = length (store t)"
    and v: "Some v \<in> set ps" "ps \<in> set (ip_sets (indexing t))"
    and ok: "\<And>q. q < length (store t) \<Longrightarrow> entry_ok dinv (store t ! q) \<Longrightarrow> entry_ok dinv (store t' ! q)"
    and lab: "\<And>q. q < length (store t) \<Longrightarrow> q \<noteq> v \<Longrightarrow> label (store t' ! q) = label (store t ! q)"
    and new: "te_valid (store t' ! v) \<Longrightarrow> \<forall>p. Some p \<in> set ps \<longrightarrow> p \<noteq> v \<longrightarrow> label (store t ! p) \<noteq> label (store t' ! v)"
  shows "assoc_wf dinv t'"
proof -
  have "set_ok dinv (store t') qs" if qs: "qs \<in> set (ip_sets (indexing t))" for qs
  proof -
    have old: "set_ok dinv (store t) qs" using wf qs by (simp add: assoc_wf_def)
    have less: "p < length (store t)" if "Some p \<in> set qs" for p using old that by (auto simp: set_ok_def)
    have vq: "qs = ps" if "Some v \<in> set qs" using table_sets_disjoint [OF wf that qs v] .
    have uni: "p = p'" if p: "Some p \<in> set qs" "Some p' \<in> set qs" "te_valid (store t' ! p)"
        "label (store t' ! p) = label (store t' ! p')" for p p'
    proof -
      have val: "te_valid (store t' ! p')" using p(3,4) by (simp add: label_def)
      consider "p = p'" | "p = v" "p' \<noteq> v" | "p \<noteq> v" "p' = v" | "p \<noteq> v" "p' \<noteq> v" by blast
      then show ?thesis
      proof cases
        case 2
        then show ?thesis using new p vq lab [OF less [OF p(2)]] by metis
      next
        case 3
        then show ?thesis using new val p vq lab [OF less [OF p(1)]] by metis
      next
        case 4
        then have l: "label (store t' ! p) = label (store t ! p)" "label (store t' ! p') = label (store t ! p')"
          using lab less p by blast+
        then have "te_valid (store t ! p)" using p(3) by (simp add: label_def)
        then show ?thesis using old p l unfolding set_ok_def by metis
      qed
    qed
    have "\<forall>q \<in> set qs. \<exists>p. q = Some p \<and> p < length (store t') \<and> entry_ok dinv (store t' ! p)"
      using old ok t'(2) unfolding set_ok_def by metis
    then show ?thesis using uni unfolding set_ok_def by blast
  qed
  then show ?thesis using wf t' by (simp add: assoc_wf_def)
qed

lemma assoc_wf_labels:
  assumes "assoc_wf dinv t" "indexing t' = indexing t" "length (store t') = length (store t)"
    and lab: "\<And>q. q < length (store t) \<Longrightarrow> label (store t' ! q) = label (store t ! q)"
    and ok: "\<And>q. q < length (store t) \<Longrightarrow> entry_ok dinv (store t ! q) \<Longrightarrow> entry_ok dinv (store t' ! q)"
  shows "assoc_wf dinv t'"
proof -
  let ?ps = "candidates TaggedSetAssociative \<lparr>key_address = 0, key_secure = False\<rparr> t"
  have ps: "?ps \<in> set (ip_sets (indexing t))" "set_ok dinv (store t) ?ps"
    using candidates_in [OF assms(1)] candidates_ok [OF assms(1)] by blast+
  then obtain v where v: "Some v \<in> set ?ps" "v < length (store t)"
    using candidates_nonempty [OF assms(1)] last_in_set unfolding set_ok_def by metis
  show ?thesis
  proof (rule assoc_wf_update [OF assms(1,2,3) v(1) ps(1)])
    show "\<forall>p. Some p \<in> set ?ps \<longrightarrow> p \<noteq> v \<longrightarrow> label (store t ! p) \<noteq> label (store t' ! v)"
      if "te_valid (store t' ! v)"
    proof (intro allI impI notI)
      fix p
      assume p: "Some p \<in> set ?ps" "p \<noteq> v" "label (store t ! p) = label (store t' ! v)"
      then have "label (store t ! v) = label (store t ! p)" "te_valid (store t ! v)"
        using lab [OF v(2)] that by (simp_all add: label_def)
      then show False using ps(2) p v(1) unfolding set_ok_def by metis
    qed
  qed (use lab ok in auto)
qed

lemma assoc_wf_data_step:
  assumes "assoc_wf dinv t" "indexing t' = indexing t" "data_step dinv (store t) (store t')"
  shows "assoc_wf dinv t'"
  by (rule assoc_wf_labels [OF assms(1,2)]) (use assms(3) in \<open>auto simp: data_step_def\<close>)

text \<open>Changing the fields of a derived entry keeps the table well formed and all lookups.\<close>

lemma payload_update:
  assumes wf: "assoc_wf dinv t" and e: "label e = label (store t ! p)" "replacementData e = replacementData (store t ! p)"
  shows "assoc_wf dinv (t\<lparr>store := (store t)[p := e]\<rparr>)"
proof (rule assoc_wf_labels [OF wf])
  fix q
  assume q: "q < length (store t)"
  then show "label (store (t\<lparr>store := (store t)[p := e]\<rparr>) ! q) = label (store t ! q)"
    using e(1) by (simp add: nth_update_cases)
  assume "entry_ok dinv (store t ! q)"
  then show "entry_ok dinv (store (t\<lparr>store := (store t)[p := e]\<rparr>) ! q)"
    using q e by (auto simp: nth_update_cases entry_ok_def label_def)
qed simp_all

section \<open>Construction\<close>

text \<open>The pointer at a position of the index, sets one after the other.\<close>

definition slot :: "IndexingPolicy \<Rightarrow> nat \<Rightarrow> nat option" where
  "slot ip j = ip_sets ip ! (j div unat (ip_assoc ip)) ! (j mod unat (ip_assoc ip))"

abbreviation slots :: "IndexingPolicy \<Rightarrow> nat" where
  "slots ip \<equiv> unat (numSets ip) * unat (ip_assoc ip)"

definition geometry :: "IndexingPolicy \<Rightarrow> IndexingPolicy" where
  "geometry ip = ip\<lparr>ip_sets := []\<rparr>"

lemma geometry_fields:
  "geometry ip' = geometry ip \<Longrightarrow> numSets ip' = numSets ip \<and> ip_assoc ip' = ip_assoc ip"
  by (cases ip; cases ip') (simp add: geometry_def)

lemma concat_slots:
  assumes "list_all (\<lambda>ps. length ps = A) xss" "0 < A"
  shows "concat xss = map (\<lambda>j. xss ! (j div A) ! (j mod A)) [0..<length xss * A]"
  using assms(1)
proof (induction xss)
  case (Cons xs xss)
  have u: "[0..<length (xs # xss) * A] = [0..<A] @ map (\<lambda>j. j + A) [0..<length xss * A]"
    using upt_add_eq_append [of 0 A "length xss * A"] by (simp add: map_add_upt add.commute)
  have "xs = map (\<lambda>j. (xs # xss) ! (j div A) ! (j mod A)) [0..<A]"
    using Cons.prems assms(2) by (intro nth_equalityI) auto
  moreover have "map (\<lambda>j. xss ! (j div A) ! (j mod A)) [0..<length xss * A]
      = map (\<lambda>j. (xs # xss) ! (j div A) ! (j mod A)) (map (\<lambda>j. j + A) [0..<length xss * A])"
    using assms(2) by simp
  ultimately show ?case using Cons u by simp
qed simp

lemma setEntry_slot:
  assumes wf: "ip_wf ip" and i: "i < slots ip"
  shows "\<exists>pos ip'. setEntry e i ip = Inr (pos, ip') \<and> ip_wf ip' \<and> geometry ip' = geometry ip \<and>
    (\<forall>j < slots ip. slot ip' j = (if j = i then Some e else slot ip j))"
proof -
  let ?A = "unat (ip_assoc ip)"
  have A: "0 < ?A" "length (ip_sets ip) = unat (numSets ip)" "list_all (\<lambda>ps. length ps = ?A) (ip_sets ip)"
    using wf by (auto simp: ip_wf_def unat_gt_0)
  have q: "i div ?A < unat (numSets ip)" using i A(1) by (simp add: div_less_iff_less_mult)
  have r: "i mod ?A < ?A" using A(1) by simp
  have u: "unat (of_nat (i div ?A) :: u32) = i div ?A" "unat (of_nat (i mod ?A) :: u32) = i mod ?A"
    using q r unat_less32 [of "numSets ip"] unat_less32 [of "ip_assoc ip"]
    by (simp_all add: unat_of_nat32)
  have lt: "(of_nat (i div ?A) :: u32) < numSets ip" using q u(1) by (simp add: word_less_nat_alt)
  let ?ip = "ip\<lparr>ip_sets := (ip_sets ip)[i div ?A := (ip_sets ip ! (i div ?A))[i mod ?A := Some e]]\<rparr>"
  have e: "setEntry e i ip = Inr ((of_nat (i div ?A), of_nat (i mod ?A)), ?ip)"
    using lt by (simp add: setEntry_def Let_def u)
  have wf': "ip_wf ?ip" using wf q A by (auto simp: ip_wf_def list_all_length nth_list_update)
  have "slot ?ip j = (if j = i then Some e else slot ip j)" if j: "j < slots ip" for j
  proof -
    have jq: "j div ?A < unat (numSets ip)" using j A(1) by (simp add: div_less_iff_less_mult)
    have "j = i" if "j div ?A = i div ?A" "j mod ?A = i mod ?A" using that by (metis div_mult_mod_eq)
    then show ?thesis using q jq A r by (auto simp: slot_def nth_list_update list_all_length)
  qed
  then show ?thesis using e wf' by (auto simp: geometry_def)
qed

section \<open>Tables over any replacement policy\<close>

text \<open>What the operations change: nothing but entry \<open>v\<close> as far as lookups and derived fields go.\<close>

definition touches_only :: "('d \<Rightarrow> bool) \<Rightarrow> nat \<Rightarrow> (('d, 'a) TaggedEntry_scheme, 'g) Tables \<Rightarrow>
    (('d, 'a) TaggedEntry_scheme, 'g) Tables \<Rightarrow> bool" where
  "touches_only dinv v t t' \<longleftrightarrow> indexing t' = indexing t \<and> length (store t') = length (store t) \<and>
     (\<forall>q < length (store t). (entry_ok dinv (store t ! q) \<longrightarrow> entry_ok dinv (store t' ! q)) \<and>
        (q \<noteq> v \<longrightarrow> label (store t' ! q) = label (store t ! q) \<and>
                    TaggedEntry.more (store t' ! q) = TaggedEntry.more (store t ! q)))"

lemma touches_only_update:
  assumes "data_step dinv ((store t)[v := e]) (store t')" "indexing t' = indexing t"
    "entry_ok dinv (store t ! v) \<Longrightarrow> entry_ok dinv e"
  shows "touches_only dinv v t t'"
  using assms unfolding touches_only_def data_step_def
  by (metis length_list_update nth_update_cases)

lemma touches_only_wf:
  assumes wf: "assoc_wf dinv t" and s: "touches_only dinv v t t'"
    and v: "Some v \<in> set ps" "ps \<in> set (ip_sets (indexing t))"
    and new: "te_valid (store t' ! v) \<Longrightarrow> \<forall>p. Some p \<in> set ps \<longrightarrow> p \<noteq> v \<longrightarrow> label (store t ! p) \<noteq> label (store t' ! v)"
  shows "assoc_wf dinv t'"
  by (rule assoc_wf_update [OF wf _ _ v _ _ new]) (use s in \<open>auto simp: touches_only_def\<close>)

text \<open>Lookups after a change of one entry.\<close>

lemma candidate_set_eq:
  assumes wf: "assoc_wf dinv t" and v: "Some v \<in> set (candidates k key t)"
  shows "Some v \<in> set (candidates k key' t) \<longleftrightarrow>
    extractSet k (indexing t) (key_address key') = extractSet k (indexing t) (key_address key)"
proof
  let ?ip = "indexing t"
  assume v': "Some v \<in> set (candidates k key' t)"
  have eq: "candidates k key' t = candidates k key t"
    using table_sets_disjoint [OF wf v' candidates_in [OF wf] v candidates_in [OF wf]] .
  have ne: "[] \<notin> set (ip_sets ?ip)"
    using wf by (force simp: assoc_wf_def ip_wf_def list_all_iff unat_eq_zero)
  have "distinct (ip_sets ?ip)"
    using wf removeAll_id [OF ne] by (auto simp: assoc_wf_def distinct_concat_iff)
  moreover have "unat (extractSet k ?ip (key_address x)) < length (ip_sets ?ip)" for x
    using wf by (simp add: assoc_wf_def extractSet_less)
  ultimately have "unat (extractSet k ?ip (key_address key')) = unat (extractSet k ?ip (key_address key))"
    using eq nth_eq_iff_index_eq [of "ip_sets ?ip"] unfolding candidates_def by blast
  then show "extractSet k ?ip (key_address key') = extractSet k ?ip (key_address key)"
    by (rule unsigned_word_eqI)
qed (use v in \<open>simp add: candidates_def\<close>)

lemma touches_only_match:
  assumes "touches_only dinv v t t'" "q < length (store t)" "q \<noteq> v"
  shows "entry_match k ip key (store t' ! q) = entry_match k ip key (store t ! q)"
  using assms by (intro match_label) (simp add: touches_only_def)

lemma candidates_keep: "touches_only dinv v t t' \<Longrightarrow> candidates k key t' = candidates k key t"
  by (simp add: touches_only_def candidates_def)

lemma findEntry_rest:
  assumes wf: "assoc_wf dinv t" "assoc_wf dinv t'" and s: "touches_only dinv v t t'"
    and f: "findEntry k key t = Inr r" "findEntry k key t' = Inr r'" and p: "p \<noteq> v"
  shows "r' = Some p \<longleftrightarrow> r = Some p"
proof -
  have ip: "indexing t' = indexing t" using s by (simp add: touches_only_def)
  have less: "p < length (store t)" if "Some p \<in> set (candidates k key t)"
    using candidates_ok [OF wf(1), of k key] that by (auto simp: set_ok_def)
  show ?thesis
    using findEntry_iff [OF wf(1), of k key] findEntry_iff [OF wf(2), of k key] f less
      touches_only_match [OF s _ p] by (auto simp: candidates_keep [OF s] ip)
qed

lemma findEntry_removed:
  assumes wf: "assoc_wf dinv t" "assoc_wf dinv t'" and s: "touches_only dinv v t t'"
    and inv: "label (store t' ! v) = (False, False, MaxAddr)" and f: "findEntry k key t = Inr r"
  shows "findEntry k key t' = Inr (if r = Some v then None else r)"
proof -
  obtain r' where r': "findEntry k key t' = Inr r'" using findEntry_iff [OF wf(2)] by blast
  have "r' \<noteq> Some v"
    using findEntry_iff [OF wf(2), of k key] r' inv by (auto simp: entry_match_def label_def)
  then have "r' = Some p \<longleftrightarrow> (if r = Some v then None else r) = Some p" for p
    using findEntry_rest [OF wf s f r', of p] by (cases "p = v") auto
  then have "r' = (if r = Some v then None else r)" by (rule option_eqI)
  then show ?thesis using r' by simp
qed

lemma findEntry_inserted:
  assumes wf: "assoc_wf dinv t" "assoc_wf dinv t'" and s: "touches_only dinv v t t'"
    and v: "Some v \<in> set (candidates k key t)"
    and lab: "label (store t' ! v) = (True, key_secure key, extractTag k (indexing t) (key_address key))"
    and miss: "findEntry k key t = Inr None" and f: "findEntry k key' t = Inr r"
  shows "findEntry k key' t' = Inr (if same_block k (indexing t) key' key then Some v
    else if r = Some v then None else r)"
proof -
  have ip: "indexing t' = indexing t" using s by (simp add: touches_only_def)
  obtain r' where r': "findEntry k key' t' = Inr r'" using findEntry_iff [OF wf(2)] by blast
  have "r' = Some v \<longleftrightarrow> same_block k (indexing t) key' key"
    using findEntry_iff [OF wf(2), of k key'] r' lab candidate_set_eq [OF wf(1) v, of key']
    by (auto simp: candidates_keep [OF s] ip entry_match_def label_def same_block_def)
  moreover have "r = None" if "same_block k (indexing t) key' key"
  proof -
    have "findEntry k key' t = findEntry k key t"
      using that wf(1) by (simp add: findEntry_def same_block_def assoc_wf_def getPossibleEntries_ok entry_match_def [abs_def])
    then show ?thesis using miss f by simp
  qed
  ultimately have "r' = Some p \<longleftrightarrow> (if same_block k (indexing t) key' key then Some v
      else if r = Some v then None else r) = Some p" for p
    using findEntry_rest [OF wf s f r', of p] by (cases "p = v") auto
  then have "r' = (if same_block k (indexing t) key' key then Some v else if r = Some v then None else r)"
    by (rule option_eqI)
  then show ?thesis using r' by simp
qed

locale associative_table = replacement_policy rp dinv
  for rp :: "('g, 'd) ReplPolicy" and dinv :: "'d \<Rightarrow> bool" +
  fixes inval :: "('d, 'a) TaggedEntry_scheme \<Rightarrow> ('d, 'a) TaggedEntry_scheme"
  assumes new_total: "\<exists>d g'. instantiateEntry rp g = Inr (d, g')"
    and inval_label: "label (inval e) = (False, False, MaxAddr)"
    and inval_data: "replacementData (inval e) = replacementData e"
    and inval_more: "TaggedEntry.more e = TaggedEntry.more e' \<Longrightarrow>
      TaggedEntry.more (inval e) = TaggedEntry.more (inval e')"
begin

lemma inval_ok: "entry_ok dinv e \<Longrightarrow> entry_ok dinv (inval e)"
  using inval_label [of e] by (simp add: entry_ok_def inval_data label_def)

lemma accessEntry_total:
  assumes "p < length (store t)" "entry_ok dinv (store t ! p)"
  shows "\<exists>t'. accessEntry rp inp p t = Inr t' \<and> indexing t' = indexing t \<and> data_step dinv (store t) (store t')"
  unfolding accessEntry_def by (rule with_data_ok [OF assms touch_ok])

lemma invalidateEntry_total:
  assumes "p < length (store t)" "entry_ok dinv (store t ! p)"
  shows "\<exists>t'. invalidateEntry rp inval p t = Inr t' \<and> touches_only dinv p t t' \<and>
    label (store t' ! p) = (False, False, MaxAddr) \<and>
    TaggedEntry.more (store t' ! p) = TaggedEntry.more (inval (store t ! p))"
proof -
  let ?t = "t\<lparr>store := (store t)[p := inval (store t ! p)]\<rparr>"
  obtain t' where t': "with_data (rp_invalidate rp) p ?t = Inr t'" "indexing t' = indexing ?t"
      "data_step dinv (store ?t) (store t')"
    using with_data_ok [of p ?t dinv "rp_invalidate rp"] assms inval_ok invalidate_ok by auto
  then show ?thesis
    using assms touches_only_update [of dinv t p "inval (store t ! p)" t'] inval_ok inval_label
    by (auto simp: invalidateEntry_def data_step_def)
qed

lemma findVictim_total:
  assumes wf: "assoc_wf dinv t"
  shows "\<exists>v t'. findVictim rp k inval inp key t = Inr (v, t') \<and> Some v \<in> set (candidates k key t) \<and>
    v < length (store t) \<and> touches_only dinv v t t' \<and> assoc_wf dinv t' \<and>
    label (store t' ! v) = (False, False, MaxAddr) \<and>
    TaggedEntry.more (store t' ! v) = TaggedEntry.more (inval (store t ! v))"
proof -
  let ?ps = "candidates k key t"
  have ok: "set_ok dinv (store t) ?ps" using wf by (rule candidates_ok)
  have g: "getPossibleEntries k (indexing t) key = Inr ?ps"
    using wf by (simp add: assoc_wf_def getPossibleEntries_ok candidates_def)
  obtain cs where cs: "candidate_data (store t) ?ps = Inr cs" "map (\<lambda>c. Some (fst c)) cs = ?ps"
      "list_all dinv (map snd cs)"
    using candidate_data_ok [of ?ps "store t" dinv] ok unfolding set_ok_def by blast
  have "cs \<noteq> []" using cs(2) candidates_nonempty [OF wf, of k key] by auto
  then obtain i ds g' where vic: "getVictim rp inp (map snd cs) (rp_state t) = Inr (i, ds, g')" "i < length cs"
      "length ds = length cs" "list_all dinv ds"
    using victim_ok [OF _ cs(3), of inp "rp_state t"] by auto
  let ?v = "fst (cs ! i)"
  let ?t = "t\<lparr>store := write_data (zip (map fst cs) ds) (store t), rp_state := g'\<rparr>"
  have v: "Some ?v \<in> set ?ps" unfolding cs(2) [symmetric] using nth_mem [OF vic(2)] by (simp add: image_iff) blast
  then have vl: "?v < length (store t)" "entry_ok dinv (store t ! ?v)" using ok by (auto simp: set_ok_def)
  have "\<forall>d \<in> snd ` set (zip (map fst cs) ds). dinv d"
    using vic(4) by (auto simp: list_all_iff dest: set_zip_rightD)
  then have ds: "data_step dinv (store t) (store ?t)" by (simp add: write_data_step)
  then have v2: "?v < length (store ?t)" "entry_ok dinv (store ?t ! ?v)"
    using vl by (auto simp: data_step_def)
  obtain t' where t': "invalidateEntry rp inval ?v ?t = Inr t'" "touches_only dinv ?v ?t t'"
      "label (store t' ! ?v) = (False, False, MaxAddr)"
      "TaggedEntry.more (store t' ! ?v) = TaggedEntry.more (inval (store ?t ! ?v))"
    using invalidateEntry_total [OF v2] by blast
  have to: "touches_only dinv ?v t t'" using t'(2) ds by (auto simp: touches_only_def data_step_def)
  moreover have "assoc_wf dinv t'"
    using touches_only_wf [OF wf to v candidates_in [OF wf]] t'(3) by (simp add: label_def)
  moreover have "TaggedEntry.more (inval (store ?t ! ?v)) = TaggedEntry.more (inval (store t ! ?v))"
    using ds vl by (intro inval_more) (simp add: data_step_def)
  moreover have "findVictim rp k inval inp key t = Inr (?v, t')"
    using g cs(1) vic(1) t'(1) by (simp add: findVictim_def Let_def)
  ultimately show ?thesis using v vl t'(3,4) by auto
qed

lemma insertEntry_total:
  assumes wf: "assoc_wf dinv t" and v: "Some v \<in> set (candidates k key t)" and inv: "\<not> te_valid (store t ! v)"
    and miss: "findEntry k key t = Inr None"
  shows "\<exists>t'. insertEntry rp k inp key v t = Inr t' \<and> touches_only dinv v t t' \<and> assoc_wf dinv t' \<and>
    label (store t' ! v) = (True, key_secure key, extractTag k (indexing t) (key_address key)) \<and>
    TaggedEntry.more (store t' ! v) = TaggedEntry.more (store t ! v)"
proof -
  let ?tag = "extractTag k (indexing t) (key_address key)"
  let ?e = "(store t ! v)\<lparr>te_valid := True, te_tag := ?tag, te_secure := key_secure key\<rparr>"
  let ?t = "t\<lparr>store := (store t)[v := ?e]\<rparr>"
  have vl: "v < length (store t)" "entry_ok dinv (store t ! v)"
    using candidates_ok [OF wf, of k key] v by (auto simp: set_ok_def)
  then have ns: "\<not> te_secure (store t ! v)" using inv by (simp add: entry_ok_def)
  have e: "entry_ok dinv ?e" using vl(2) by (simp add: entry_ok_def)
  obtain t' where t': "with_data (rp_reset rp inp) v ?t = Inr t'" "indexing t' = indexing ?t"
      "data_step dinv (store ?t) (store t')"
    using with_data_ok [of v ?t dinv "rp_reset rp inp"] vl e reset_ok by auto
  have ins: "insertEntry rp k inp key v t = Inr t'"
    using vl inv ns t'(1) by (simp add: insertEntry_def entry_insert_def)
  have s: "touches_only dinv v t t'" using touches_only_update [of dinv t v ?e t'] t'(2,3) e by simp
  have lab: "label (store t' ! v) = (True, key_secure key, ?tag)"
      "TaggedEntry.more (store t' ! v) = TaggedEntry.more (store t ! v)"
    using t'(3) vl(1) by (simp_all add: data_step_def label_def)
  have "label (store t ! p) \<noteq> label (store t' ! v)" if "Some p \<in> set (candidates k key t)" for p
    using findEntry_iff [OF wf, of k key] miss that lab(1) by (auto simp: entry_match_def label_def)
  then have "assoc_wf dinv t'" using touches_only_wf [OF wf s v candidates_in [OF wf]] by blast
  then show ?thesis using ins s lab by blast
qed

text \<open>The table implements a finite map from blocks to entries that forgets one block per insertion.\<close>

lemma replace_refines:
  assumes wf: "assoc_wf dinv t" and miss: "findEntry k key t = Inr None"
  shows "\<exists>v t1 t2. findVictim rp k inval inp key t = Inr (v, t1) \<and> insertEntry rp k inp' key v t1 = Inr t2 \<and>
    assoc_wf dinv t2 \<and> Some v \<in> set (candidates k key t) \<and>
    (\<forall>key' r. findEntry k key' t = Inr r \<longrightarrow>
       findEntry k key' t2 = Inr (if same_block k (indexing t) key' key then Some v else if r = Some v then None else r))"
proof -
  obtain v t1 where v: "findVictim rp k inval inp key t = Inr (v, t1)" "Some v \<in> set (candidates k key t)"
      "touches_only dinv v t t1" "assoc_wf dinv t1" "label (store t1 ! v) = (False, False, MaxAddr)"
    using findVictim_total [OF wf, of k inp key] by blast
  have ip: "indexing t1 = indexing t" using v(3) by (simp add: touches_only_def)
  have c: "Some v \<in> set (candidates k key t1)" using v(2) by (simp add: candidates_keep [OF v(3)])
  note rem = findEntry_removed [OF wf v(4,3,5)]
  have miss1: "findEntry k key t1 = Inr None" using rem [OF miss] by simp
  obtain t2 where t2: "insertEntry rp k inp' key v t1 = Inr t2" "touches_only dinv v t1 t2" "assoc_wf dinv t2"
      "label (store t2 ! v) = (True, key_secure key, extractTag k (indexing t1) (key_address key))"
    using insertEntry_total [OF v(4) c _ miss1] v(5) by (auto simp: label_def)
  have "findEntry k key' t2 = Inr (if same_block k (indexing t) key' key then Some v else if r = Some v then None else r)"
    if "findEntry k key' t = Inr r" for key' r
    using findEntry_inserted [OF v(4) t2(3,2) c t2(4) miss1 rem [OF that]] by (simp add: ip)
  then show ?thesis using v(1,2) t2(1,3) by blast
qed

text \<open>A new table takes over the whole index.\<close>

lemma initParams_total:
  assumes "ip_wf (indexing t)" "idx + n = slots (indexing t)" "start + slots (indexing t) \<le> length (store t)"
  shows "\<exists>t'. initParams rp start n idx t = Inr t' \<and> ip_wf (indexing t') \<and> geometry (indexing t') = geometry (indexing t) \<and>
    length (store t') = length (store t) \<and>
    (\<forall>j < slots (indexing t). slot (indexing t') j = (if idx \<le> j then Some (start + j) else slot (indexing t) j)) \<and>
    (\<forall>q < length (store t). label (store t' ! q) = label (store t ! q) \<and>
       TaggedEntry.more (store t' ! q) = TaggedEntry.more (store t ! q) \<and>
       (q < start + idx \<longrightarrow> store t' ! q = store t ! q)) \<and>
    (\<forall>j < slots (indexing t). idx \<le> j \<longrightarrow> (\<exists>d. replacementData (store t' ! (start + j)) = Some d \<and> dinv d))"
  using assms
proof (induction n arbitrary: idx t)
  case (Suc n)
  let ?ip = "indexing t" and ?p = "start + idx"
  have i: "idx < slots ?ip" using Suc.prems(2) by linarith
  obtain st way ip' where ip': "setEntry ?p idx ?ip = Inr ((st, way), ip')" "ip_wf ip'" "geometry ip' = geometry ?ip"
      "\<forall>j < slots ?ip. slot ip' j = (if j = idx then Some ?p else slot ?ip j)"
    using setEntry_slot [OF Suc.prems(1) i, of ?p] by auto
  obtain d g where d: "instantiateEntry rp (rp_state t) = Inr (d, g)" "dinv d"
    using new_total new_inv by blast
  let ?e = "(store t ! ?p)\<lparr>e_set := st, e_way := way, replacementData := Some d\<rparr>"
  let ?t = "t\<lparr>store := (store t)[?p := ?e], indexing := ip', rp_state := g\<rparr>"
  have sl: "slots ip' = slots ?ip" using geometry_fields [OF ip'(3)] by simp
  have pl: "?p < length (store t)" using Suc.prems(3) i by linarith
  have "ip_wf (indexing ?t)" "Suc idx + n = slots (indexing ?t)" "start + slots (indexing ?t) \<le> length (store ?t)"
    using ip'(2) Suc.prems(2,3) sl by simp_all
  from Suc.IH [OF this] obtain t' where t': "initParams rp start n (Suc idx) ?t = Inr t'" "ip_wf (indexing t')"
      "geometry (indexing t') = geometry ip'" "length (store t') = length (store t)"
      "\<forall>j < slots ?ip. slot (indexing t') j = (if Suc idx \<le> j then Some (start + j) else slot ip' j)"
      "\<forall>q < length (store t). label (store t' ! q) = label (store ?t ! q) \<and>
         TaggedEntry.more (store t' ! q) = TaggedEntry.more (store ?t ! q) \<and>
         (q < start + Suc idx \<longrightarrow> store t' ! q = store ?t ! q)"
      "\<forall>j < slots ?ip. Suc idx \<le> j \<longrightarrow> (\<exists>d. replacementData (store t' ! (start + j)) = Some d \<and> dinv d)"
    by (auto simp: sl)
  have "initParams rp start (Suc n) idx t = Inr t'" using ip'(1) d(1) t'(1) by simp
  moreover have "\<forall>j < slots ?ip. slot (indexing t') j = (if idx \<le> j then Some (start + j) else slot ?ip j)"
    using t'(5) ip'(4) by (auto simp: le_eq_less_or_eq)
  moreover have "\<forall>q < length (store t). label (store t' ! q) = label (store t ! q) \<and>
       TaggedEntry.more (store t' ! q) = TaggedEntry.more (store t ! q) \<and>
       (q < start + idx \<longrightarrow> store t' ! q = store t ! q)"
    using t'(6) by (auto simp: nth_update_cases label_def)
  moreover have "\<exists>d. replacementData (store t' ! (start + j)) = Some d \<and> dinv d" if "j < slots ?ip" "idx \<le> j" for j
  proof (cases "j = idx")
    case True
    then have "store t' ! (start + j) = ?e" using t'(6) pl by simp
    then show ?thesis using d(2) by simp
  qed (use t'(7) that in simp)
  ultimately show ?case using t'(2,3,4) ip'(3) by auto
qed auto

lemma newAssociativeCache_total:
  assumes wf: "ip_wf (indexing t)" and n: "n = slots (indexing t)" and a: "a = unat (ip_assoc (indexing t))"
    and init: "\<not> te_valid e" "\<not> te_secure e"
  shows "\<exists>t'. newAssociativeCache rp n a e t = Inr t' \<and> assoc_wf dinv t' \<and>
    geometry (indexing t') = geometry (indexing t) \<and> length (store t') = length (store t) + n \<and>
    (\<forall>k key. findEntry k key t' = Inr None) \<and>
    (\<forall>q < n. TaggedEntry.more (store t' ! (length (store t) + q)) = TaggedEntry.more e) \<and>
    (\<forall>j < n. slot (indexing t') j = Some (length (store t) + j)) \<and>
    (\<forall>q < length (store t). store t' ! q = store t ! q)"
proof -
  let ?t = "t\<lparr>store := store t @ replicate n e\<rparr>" and ?s = "length (store t)"
  obtain t' where t': "initParams rp ?s n 0 ?t = Inr t'" "ip_wf (indexing t')"
      "geometry (indexing t') = geometry (indexing t)" "length (store t') = ?s + n"
      "\<forall>j < n. slot (indexing t') j = Some (?s + j)"
      "\<forall>q < ?s + n. label (store t' ! q) = label (store ?t ! q) \<and>
         TaggedEntry.more (store t' ! q) = TaggedEntry.more (store ?t ! q) \<and> (q < ?s \<longrightarrow> store t' ! q = store ?t ! q)"
      "\<forall>j < n. \<exists>d. replacementData (store t' ! (?s + j)) = Some d \<and> dinv d"
    using initParams_total [of ?t 0 n ?s] wf n by auto
  have A: "list_all (\<lambda>ps. length ps = a) (ip_sets (indexing t'))" "0 < a" "length (ip_sets (indexing t')) * a = n"
    using t'(2) geometry_fields [OF t'(3)] a n by (auto simp: ip_wf_def unat_gt_0)
  have c: "concat (ip_sets (indexing t')) = map (\<lambda>j. Some (?s + j)) [0..<n]"
    unfolding concat_slots [OF A(1,2)] A(3)
    using t'(5) geometry_fields [OF t'(3)] a by (auto simp: slot_def)
  have in_range: "\<exists>j < n. q = Some (?s + j)" if "ps \<in> set (ip_sets (indexing t'))" "q \<in> set ps" for ps q
  proof -
    have "q \<in> set (concat (ip_sets (indexing t')))" using that by auto
    then show ?thesis unfolding c by auto
  qed
  have lab: "label (store t' ! (?s + j)) = label e" "TaggedEntry.more (store t' ! (?s + j)) = TaggedEntry.more e"
    if "j < n" for j using t'(6) that by (simp_all add: nth_append)
  have ok: "entry_ok dinv (store t' ! (?s + j))" "\<not> te_valid (store t' ! (?s + j))" if "j < n" for j
    using lab(1) [OF that] t'(7) that init by (auto simp: entry_ok_def label_def)
  have "distinct (concat (ip_sets (indexing t')))" unfolding c by (simp add: distinct_map inj_on_def)
  moreover have "set_ok dinv (store t') ps" if "ps \<in> set (ip_sets (indexing t'))" for ps
    using in_range [OF that] ok t'(4) unfolding set_ok_def by (metis nat_add_left_cancel_less option.inject)
  ultimately have wf': "assoc_wf dinv t'" using t'(2) by (simp add: assoc_wf_def)
  have "findEntry k key t' = Inr None" for k key
  proof -
    obtain r where r: "findEntry k key t' = Inr r" "\<forall>p. r = Some p \<longleftrightarrow> Some p \<in> set (candidates k key t') \<and>
        entry_match k (indexing t') key (store t' ! p)" using findEntry_iff [OF wf', of k key] by blast
    have "r \<noteq> Some p" for p
      using r(2) in_range [OF candidates_in [OF wf']] ok(2) by (metis entry_match_def option.inject)
    then show ?thesis using r(1) by (cases r) auto
  qed
  moreover have "newAssociativeCache rp n a e t = Inr t'"
    using A t'(1) by (auto simp: newAssociativeCache_def)
  ultimately show ?thesis using wf' t'(3,4,5,6) lab(2) by (auto simp: nth_append)
qed

end

interpretation lru_table: associative_table lru "\<lambda>_. True" "TaggedEntry_invalidate :: (Tick, 'a) TaggedEntry_scheme \<Rightarrow> _"
  by unfold_locales (auto simp: lru_def TaggedEntry_invalidate_def label_def)

section \<open>Properties\<close>

text \<open>C6: The associative table refines a map from blocks to entries that drops one block per
  insertion. Over any replacement policy that meets its contract, inserting a block that is not
  in a well-formed table succeeds, keeps the table well formed, and afterwards a lookup of the
  block finds the victim's entry, a lookup of any other block finds what it found before, and
  only the block that held the victim's entry is gone.\<close>

theorem table_refines_map:
  assumes "associative_table rp dinv inval" "assoc_wf dinv t" "findEntry k key t = Inr None"
  shows "\<exists>v t1 t2. findVictim rp k inval inp key t = Inr (v, t1) \<and> insertEntry rp k inp' key v t1 = Inr t2 \<and>
    assoc_wf dinv t2 \<and> Some v \<in> set (candidates k key t) \<and>
    (\<forall>key' r. findEntry k key' t = Inr r \<longrightarrow>
       findEntry k key' t2 = Inr (if same_block k (indexing t) key' key then Some v else if r = Some v then None else r))"
  by (rule associative_table.replace_refines [OF assms])

abbreviation sample_index :: IndexingPolicy where
  "sample_index \<equiv> \<lparr>ip_assoc = 1, numSets = 1, setShift = 0, setMask = 0, ip_sets = [[None]], tagShift = 0\<rparr>"

abbreviation sample_entry :: "Tick TaggedEntry" where
  "sample_entry \<equiv> \<lparr>e_set = 0, e_way = 0, replacementData = None, te_valid = False, te_secure = False, te_tag = 0\<rparr>"

theorem table_refines_map_witness:
  "\<exists>t v t1 t2. newAssociativeCache lru 1 1 sample_entry \<lparr>store = [], indexing = sample_index, rp_state = ()\<rparr> = Inr t \<and>
    findVictim lru TaggedSetAssociative TaggedEntry_invalidate \<lparr>rp_tick = 5, rp_draw = 0\<rparr>
      \<lparr>key_address = 64, key_secure = True\<rparr> t = Inr (v, t1) \<and>
    insertEntry lru TaggedSetAssociative \<lparr>rp_tick = 5, rp_draw = 0\<rparr> \<lparr>key_address = 64, key_secure = True\<rparr> v t1 = Inr t2 \<and>
    findEntry TaggedSetAssociative \<lparr>key_address = 64, key_secure = True\<rparr> t2 = Inr (Some v)"
proof -
  let ?t = "\<lparr>store = [], indexing = sample_index, rp_state = ()\<rparr> :: (Tick TaggedEntry, unit) Tables"
  have "ip_wf (indexing ?t)" by (simp add: ip_wf_def)
  then obtain t where t: "newAssociativeCache lru 1 1 sample_entry ?t = Inr t" "assoc_wf (\<lambda>_. True) t"
      "\<forall>k key. findEntry k key t = Inr None"
    using lru_table.newAssociativeCache_total [of ?t 1 1 sample_entry] by auto
  have m: "findEntry TaggedSetAssociative \<lparr>key_address = 64, key_secure = True\<rparr> t = Inr None" using t(3) by blast
  from table_refines_map [OF lru_table.associative_table_axioms t(2) m,
      of "\<lparr>rp_tick = 5, rp_draw = 0\<rparr>" "\<lparr>rp_tick = 5, rp_draw = 0\<rparr>"] m
  show ?thesis using t(1) by (fastforce simp: same_block_def)
qed

end
