(* ===== verification/StridePf.thy ===== *)
theory StridePf
  imports AssocCache QueuedProps
begin

text \<open>
  The stride prefetcher (\<open>mem/cache/prefetch/stride.cc\<close>). Strides are 32-bit integers: the
  difference of two addresses is truncated to one, and a stride is sign-extended when it is added
  to an address. All tables of the prefetcher, one per requestor, are built over one indexing
  policy and one replacement policy, the ones of its parameters.
\<close>

section \<open>Entries and state\<close>

record 'd StrideEntry = "'d TaggedEntry" +
  lastAddr :: Addr
  se_stride :: cint
  confidence :: SatCounter8

definition StrideEntry_invalidate :: "('d, 'a) StrideEntry_scheme \<Rightarrow> ('d, 'a) StrideEntry_scheme" where
  "StrideEntry_invalidate e =
     (TaggedEntry_invalidate e)\<lparr>lastAddr := 0, se_stride := 0, confidence := sc_reset (confidence e)\<rparr>"

definition newStrideEntry :: "SatCounter8 \<Rightarrow> 'd StrideEntry" where
  "newStrideEntry init_confidence = StrideEntry_invalidate
     \<lparr>e_set = 0, e_way = 0, replacementData = None, te_valid = False, te_secure = False, te_tag = MaxAddr,
      lastAddr = 0, se_stride = 0, confidence = init_confidence\<rparr>"

record ('d, 'g) StridePf = QueuedPf +
  initConfidence :: SatCounter8
  threshConf :: rat
  useRequestorId :: bool
  st_degree :: cint
  st_distance :: cint
  table_assoc :: nat
  table_entries :: nat
  useCachelineAddr :: bool
  pcTables :: "16 word \<rightharpoonup> nat"
  tables :: "('d StrideEntry, 'g) Tables"

section \<open>Operations\<close>

definition allocateNewContext :: "('g, 'd) ReplPolicy \<Rightarrow> 16 word \<Rightarrow> ('d, 'g) StridePf \<Rightarrow> ('d, 'g) StridePf result" where
  "allocateNewContext rp context s =
     bindR (newAssociativeCache rp (table_entries s) (table_assoc s) (newStrideEntry (initConfidence s)) (tables s))
       (\<lambda>t. Inr (s\<lparr>pcTables := (pcTables s)(context \<mapsto> length (store (tables s))), tables := t\<rparr>))"

definition findTable :: "('g, 'd) ReplPolicy \<Rightarrow> 16 word \<Rightarrow> ('d, 'g) StridePf \<Rightarrow> ('d, 'g) StridePf result" where
  "findTable rp context s =
     (case pcTables s context of Some start \<Rightarrow> Inr s | None \<Rightarrow> allocateNewContext rp context s)"

text \<open>The training of an entry on a hit.\<close>

definition stride_train :: "rat \<Rightarrow> cint \<Rightarrow> Addr \<Rightarrow> 'd StrideEntry \<Rightarrow> 'd StrideEntry" where
  "stride_train thresh new_stride pf_addr e =
     (let stride_match = (new_stride = se_stride e);
          c = (if stride_match then sc_incr (confidence e) else sc_decr (confidence e));
          st = (if \<not> stride_match \<and> saturation_less c thresh then new_stride else se_stride e)
      in e\<lparr>confidence := c, se_stride := st, lastAddr := pf_addr\<rparr>)"

definition abs32 :: "cint \<Rightarrow> cint" where
  "abs32 x = (if sint x < 0 then - x else x)"

definition prefetch_stride :: "u32 \<Rightarrow> cint \<Rightarrow> cint" where
  "prefetch_stride blk st = (if abs32 st < blk then (if sint st < 0 then - blk else blk) else st)"

definition stride_candidates :: "('d, 'g) StridePf \<Rightarrow> Addr \<Rightarrow> 'd StrideEntry \<Rightarrow> AddrPriority list" where
  "stride_candidates s pf_addr e =
     (if saturation_less (confidence e) (threshConf s) then []
      else
        let st = prefetch_stride (blkSize s) (se_stride e);
            new_addr = pf_addr + scast (st_distance s * st)
        in map (\<lambda>d. (new_addr + of_nat d * scast st, 0)) [1..<Suc (nat (sint (st_degree s)))])"

definition stride_miss :: "('g, 'd) ReplPolicy \<Rightarrow> IndexKind \<Rightarrow> RpInput \<Rightarrow> RpInput \<Rightarrow> TaggedKey \<Rightarrow> Addr \<Rightarrow>
    ('d StrideEntry, 'g) Tables \<Rightarrow> ('d StrideEntry, 'g) Tables result" where
  "stride_miss rp k inp inp' key pf_addr t =
     bindR (findVictim rp k StrideEntry_invalidate inp key t) (\<lambda>(p, t1).
       insertEntry rp k inp' key p (t1\<lparr>store := (store t1)[p := (store t1 ! p)\<lparr>lastAddr := pf_addr\<rparr>]\<rparr>))"

definition calculatePrefetch_Stride :: "('g, 'd) ReplPolicy \<Rightarrow> IndexKind \<Rightarrow> RpInput \<Rightarrow> RpInput \<Rightarrow>
    PrefetchInfo \<Rightarrow> CacheAccessor \<Rightarrow> ('d, 'g) StridePf \<Rightarrow> (AddrPriority list \<times> ('d, 'g) StridePf) result" where
  "calculatePrefetch_Stride rp k inp inp' pfi cache s =
     (if \<not> pf_validPC pfi then Inr ([], s)
      else
        let pf_addr = (if useCachelineAddr s then blockAddress s (pf_address pfi) else pf_address pfi);
            key = \<lparr>key_address = pf_pc pfi, key_secure = pf_secure pfi\<rparr>;
            context = (if useRequestorId s then pf_requestorId pfi else 0)
        in bindR (findTable rp context s) (\<lambda>s.
           bindR (findEntry k key (tables s)) (\<lambda>r.
             case r of
               Some p \<Rightarrow>
                 bindR (accessEntry rp inp p (tables s)) (\<lambda>t.
                   let e = store t ! p; new_stride = ucast (pf_addr - lastAddr e)
                   in if useCachelineAddr s \<and> new_stride = 0 then Inr ([], s\<lparr>tables := t\<rparr>)
                      else let e' = stride_train (threshConf s) new_stride pf_addr e
                           in Inr (stride_candidates s pf_addr e', s\<lparr>tables := t\<lparr>store := (store t)[p := e']\<rparr>\<rparr>))
             | None \<Rightarrow>
                 bindR (stride_miss rp k inp inp' key pf_addr (tables s)) (\<lambda>t. Inr ([], s\<lparr>tables := t\<rparr>)))))"

section \<open>Invariant\<close>

definition stride_ok :: "('d \<Rightarrow> bool) \<Rightarrow> ('d, 'g) StridePf \<Rightarrow> bool" where
  "stride_ok dinv s \<longleftrightarrow> ip_wf (indexing (tables s)) \<and> table_entries s = slots (indexing (tables s)) \<and>
     table_assoc s = unat (ip_assoc (indexing (tables s))) \<and>
     (pcTables s \<noteq> Map.empty \<longrightarrow> assoc_wf dinv (tables s))"

lemma stride_more:
  assumes "QueuedPf.more (s' :: ('d, 'g) StridePf) = QueuedPf.more s"
  shows "stride_ok dinv s' = stride_ok dinv s"
  using assms by (cases s; cases s') (simp add: stride_ok_def)

lemma truncate_tables [simp]: "QueuedPf.truncate (s\<lparr>tables := t\<rparr>) = QueuedPf.truncate s"
  by (simp add: QueuedPf.truncate_def)

lemma findTable_truncate:
  assumes "findTable rp c s = Inr s1"
  shows "QueuedPf.truncate s1 = QueuedPf.truncate s"
proof (cases "pcTables s c")
  case None
  then obtain t where "s1 = s\<lparr>pcTables := (pcTables s)(c \<mapsto> length (store (tables s))), tables := t\<rparr>"
    using assms by (auto simp: findTable_def allocateNewContext_def)
  then show ?thesis by (simp add: QueuedPf.truncate_def)
qed (use assms in \<open>simp add: findTable_def\<close>)

lemma stride_truncate:
  assumes "calculatePrefetch_Stride rp k inp inp' pfi cache s = Inr (as, s')"
  shows "QueuedPf.truncate s' = QueuedPf.truncate s"
proof (cases "pf_validPC pfi")
  case True
  let ?key = "\<lparr>key_address = pf_pc pfi, key_secure = pf_secure pfi\<rparr>"
  obtain s1 r where s1: "findTable rp (if useRequestorId s then pf_requestorId pfi else 0) s = Inr s1"
      "findEntry k ?key (tables s1) = Inr r"
    using assms True by (simp add: calculatePrefetch_Stride_def Let_def) blast
  have "\<exists>t. s' = s1\<lparr>tables := t\<rparr>"
  proof (cases r)
    case None
    then show ?thesis using assms True s1 by (simp add: calculatePrefetch_Stride_def Let_def) blast
  next
    case (Some p)
    then obtain t where "accessEntry rp inp p (tables s1) = Inr t"
      using assms True s1 by (simp add: calculatePrefetch_Stride_def Let_def) blast
    then show ?thesis
      using assms True s1 Some by (simp add: calculatePrefetch_Stride_def Let_def split: if_splits) blast+
  qed
  then show ?thesis using findTable_truncate [OF s1(1)] by auto
qed (use assms in \<open>simp add: calculatePrefetch_Stride_def\<close>)

locale stride_policy = associative_table rp dinv "StrideEntry_invalidate :: 'd StrideEntry \<Rightarrow> 'd StrideEntry"
  for rp :: "('g, 'd) ReplPolicy" and dinv :: "'d \<Rightarrow> bool"
begin

lemma findTable_total:
  assumes "stride_ok dinv s"
  shows "\<exists>s'. findTable rp c s = Inr s' \<and> stride_ok dinv s' \<and> assoc_wf dinv (tables s') \<and> pcTables s' \<noteq> Map.empty \<and>
    QueuedPf.truncate s' = QueuedPf.truncate s \<and>
    (pcTables s c = None \<longrightarrow> (\<forall>k key. findEntry k key (tables s') = Inr None))"
proof (cases "pcTables s c")
  case (Some start)
  then show ?thesis using assms by (auto simp: findTable_def stride_ok_def)
next
  case None
  have e: "\<not> te_valid (newStrideEntry (initConfidence s))" "\<not> te_secure (newStrideEntry (initConfidence s))"
    by (simp_all add: newStrideEntry_def StrideEntry_invalidate_def TaggedEntry_invalidate_def)
  obtain t where t: "newAssociativeCache rp (table_entries s) (table_assoc s) (newStrideEntry (initConfidence s)) (tables s) = Inr t"
      "assoc_wf dinv t" "geometry (indexing t) = geometry (indexing (tables s))" "\<forall>k key. findEntry k key t = Inr None"
    using newAssociativeCache_total [of "tables s" "table_entries s" "table_assoc s", OF _ _ _ e] assms
    by (auto simp: stride_ok_def)
  then show ?thesis
    using None assms geometry_fields [OF t(3)]
    by (auto simp: findTable_def allocateNewContext_def stride_ok_def assoc_wf_def QueuedPf.truncate_def)
qed

lemma stride_miss_total:
  assumes wf: "assoc_wf dinv t" and miss: "findEntry k key t = Inr None"
  shows "\<exists>t'. stride_miss rp k inp inp' key a t = Inr t' \<and> assoc_wf dinv t' \<and> indexing t' = indexing t"
proof -
  obtain v t1 where v: "findVictim rp k StrideEntry_invalidate inp key t = Inr (v, t1)"
      "Some v \<in> set (candidates k key t)" "touches_only dinv v t t1" "assoc_wf dinv t1"
      "label (store t1 ! v) = (False, False, MaxAddr)"
    using findVictim_total [OF wf, of k inp key] by blast
  let ?t = "t1\<lparr>store := (store t1)[v := (store t1 ! v)\<lparr>lastAddr := a\<rparr>]\<rparr>"
  have "v < length (store t1)" using candidates_ok [OF wf, of k key] v(2,3) by (auto simp: set_ok_def touches_only_def)
  then have u: "label (store ?t ! v) = label (store t1 ! v)" by (simp add: label_def)
  have wf2: "assoc_wf dinv ?t" by (rule payload_update [OF v(4)]) (simp_all add: label_def)
  have c: "Some v \<in> set (candidates k key ?t)" using v(2) candidates_keep [OF v(3)] by (simp add: candidates_def)
  have "findEntry k key t1 = Inr None" using findEntry_removed [OF wf v(4,3,5) miss] by simp
  moreover have "touches_only dinv v t1 ?t" by (auto simp: touches_only_def nth_update_cases entry_ok_def label_def)
  ultimately have "findEntry k key ?t = Inr None" using findEntry_removed [OF v(4) wf2] v(5) u by fastforce
  then obtain t' where t': "insertEntry rp k inp' key v ?t = Inr t'" "assoc_wf dinv t'" "touches_only dinv v ?t t'"
    using insertEntry_total [OF wf2 c] u v(5) by (auto simp: label_def)
  then show ?thesis using v(1,3) by (simp add: stride_miss_def touches_only_def)
qed

lemma stride_total:
  assumes "stride_ok dinv s"
  shows "\<exists>as s'. calculatePrefetch_Stride rp k inp inp' pfi cache s = Inr (as, s') \<and> stride_ok dinv s' \<and>
    QueuedPf.truncate s' = QueuedPf.truncate s"
proof (cases "pf_validPC pfi")
  case True
  let ?a = "if useCachelineAddr s then blockAddress s (pf_address pfi) else pf_address pfi"
  let ?key = "\<lparr>key_address = pf_pc pfi, key_secure = pf_secure pfi\<rparr>"
  obtain s1 where s1: "findTable rp (if useRequestorId s then pf_requestorId pfi else 0) s = Inr s1" "stride_ok dinv s1"
      "assoc_wf dinv (tables s1)" "pcTables s1 \<noteq> Map.empty" "QueuedPf.truncate s1 = QueuedPf.truncate s"
    using findTable_total [OF assms] by blast
  have fr: "stride_ok dinv (s1\<lparr>tables := t\<rparr>) \<and> QueuedPf.truncate (s1\<lparr>tables := t\<rparr>) = QueuedPf.truncate s"
    if "assoc_wf dinv t" "indexing t = indexing (tables s1)" for t
    using s1(2,5) that by (auto simp: stride_ok_def QueuedPf.truncate_def)
  obtain r where r: "findEntry k ?key (tables s1) = Inr r"
      "\<forall>p. r = Some p \<longleftrightarrow> Some p \<in> set (candidates k ?key (tables s1)) \<and>
        entry_match k (indexing (tables s1)) ?key (store (tables s1) ! p)"
    using findEntry_iff [OF s1(3)] by blast
  show ?thesis
  proof (cases r)
    case None
    then show ?thesis
      using stride_miss_total [OF s1(3) r(1) [unfolded None], of inp inp' ?a] r(1) s1(1) True fr
      by (auto simp: calculatePrefetch_Stride_def Let_def)
  next
    case (Some p)
    then have "p < length (store (tables s1))" "entry_ok dinv (store (tables s1) ! p)"
      using r(2) candidates_ok [OF s1(3), of k ?key] by (auto simp: set_ok_def)
    then obtain t where t: "accessEntry rp inp p (tables s1) = Inr t" "indexing t = indexing (tables s1)"
        "data_step dinv (store (tables s1)) (store t)"
      using accessEntry_total by blast
    have wf: "assoc_wf dinv t" using assoc_wf_data_step [OF s1(3) t(2,3)] .
    then have wf2: "assoc_wf dinv (t\<lparr>store := (store t)[p := stride_train th n a (store t ! p)]\<rparr>)" for th n a
      by (rule payload_update) (simp_all add: stride_train_def Let_def label_def)
    show ?thesis
      using s1(1) r(1) Some t(1,2) True fr [OF wf] fr [OF wf2]
      by (auto simp: calculatePrefetch_Stride_def Let_def)
  qed
qed (use assms in \<open>simp add: calculatePrefetch_Stride_def\<close>)

end

sublocale stride_policy \<subseteq> stride: prefetch_generator "calculatePrefetch_Stride rp k inp inp'" "stride_ok dinv" "\<lambda>_. True"
  for k inp inp'
proof unfold_locales
  fix pfi c as and s s' :: "('d, 'g) StridePf"
  assume "calculatePrefetch_Stride rp k inp inp' pfi c s = Inr (as, s')"
  then show "QueuedPf.truncate s' = QueuedPf.truncate s" by (rule stride_truncate)
next
  fix pfi c as and s s' :: "('d, 'g) StridePf"
  assume "stride_ok dinv s" "calculatePrefetch_Stride rp k inp inp' pfi c s = Inr (as, s')"
  then show "stride_ok dinv s'" using stride_total [of s k inp inp' pfi c] by auto
next
  fix s s' :: "('d, 'g) StridePf"
  assume "same_config s s'" "stride_ok dinv s"
  then show "stride_ok dinv s'" using stride_more [of s' s dinv] by (simp add: same_config_def)
next
  fix pfi c and s :: "('d, 'g) StridePf"
  assume "stride_ok dinv s"
  then show "\<exists>r. calculatePrefetch_Stride rp k inp inp' pfi c s = Inr r"
    using stride_total [of s k inp inp' pfi c] by blast
qed

lemma stride_inval:
  "label (StrideEntry_invalidate e) = (False, False, MaxAddr)"
  "replacementData (StrideEntry_invalidate e) = replacementData e"
  by (simp_all add: StrideEntry_invalidate_def TaggedEntry_invalidate_def label_def)

lemma stride_payload:
  assumes "TaggedEntry.more (e :: 'd StrideEntry) = TaggedEntry.more e'"
  shows "lastAddr e = lastAddr e' \<and> se_stride e = se_stride e' \<and> confidence e = confidence e'"
  using assms by (cases e; cases e') simp

lemma stride_inval_more:
  assumes "TaggedEntry.more (e :: 'd StrideEntry) = TaggedEntry.more e'"
  shows "TaggedEntry.more (StrideEntry_invalidate e) = TaggedEntry.more (StrideEntry_invalidate e')"
  using assms by (cases e; cases e') (simp add: StrideEntry_invalidate_def TaggedEntry_invalidate_def)

interpretation stride_random: stride_policy random_rp "\<lambda>_. True"
  by unfold_locales (force simp: random_rp_def, rule stride_inval, rule stride_inval, erule stride_inval_more)

interpretation stride_lru: stride_policy lru "\<lambda>_. True"
  by unfold_locales (simp add: lru_def, rule stride_inval, rule stride_inval, erule stride_inval_more)

section \<open>Properties\<close>

definition ex_stride :: "(bool, unit) StridePf" where
  "ex_stride = QueuedPf.extend (ex_queued [] [])
     \<lparr>initConfidence = \<lparr>initialVal = 4, maxVal = 7, counter = 4\<rparr>, threshConf = 1 / 2, useRequestorId = True,
      st_degree = 4, st_distance = 0, table_assoc = 1, table_entries = 1, useCachelineAddr = False,
      pcTables = Map.empty, tables = \<lparr>store = [], indexing = sample_index, rp_state = ()\<rparr>\<rparr>"

lemma ex_stride_ok: "stride_ok (\<lambda>_. True) ex_stride"
  by (simp add: stride_ok_def ex_stride_def QueuedPf.defs ip_wf_def)

lemma ex_stride_good: "good (stride_ok (\<lambda>_. True)) ex_stride"
proof -
  have t: "QueuedPf.truncate ex_stride = ex_queued [] []"
    by (simp add: ex_stride_def QueuedPf.defs ex_queued_def)
  have "queued_wf (ex_queued [] [])" "roomy (ex_queued [] [])"
    using ex_base_wf [of "[]" "[]"] by (simp_all add: queued_wf_def roomy_def ex_queued_def)
  then show ?thesis
    using truncate_wf [of ex_stride] ex_stride_ok by (simp add: good_def t)
qed

text \<open>C7: The stride prefetcher with its default replacement policy never stops the simulation: from
  every well-formed state an access is processed, whatever was drawn, and the queue invariant and
  the invariant of the tables hold afterwards. This holds for what the cache passes to \<open>notify\<close>, with the
  addresses it reads and a program counter if it has a context and a virtual address, and for
  every access reported to the probe that has a physical address, with or without a program
  counter, when its request has one if it has a virtual address, as the constructors see to.\<close>

theorem stride_notify_safe:
  assumes "good (stride_ok (\<lambda>_. True)) s"
  shows "(usable s pkt pfi \<longrightarrow> (\<exists>s'. notify_queued (calculatePrefetch_Stride random_rp k inp inp') env pkt pfi s = Inr s' \<and>
      good (stride_ok (\<lambda>_. True)) s')) \<and>
    (pkt_addr pkt \<noteq> None \<and> req_paddr (req pkt) \<noteq> None \<and> request_wf (req pkt) \<longrightarrow>
      (\<exists>s'. probeNotify (\<lambda>pkt cache pfi. notify_queued (calculatePrefetch_Stride random_rp k inp inp') env pkt pfi)
         pkt cache miss s = Inr s' \<and> good (stride_ok (\<lambda>_. True)) s'))"
proof (intro conjI impI)
  assume "usable s pkt pfi"
  then show "\<exists>s'. notify_queued (calculatePrefetch_Stride random_rp k inp inp') env pkt pfi s = Inr s' \<and>
      good (stride_ok (\<lambda>_. True)) s'"
    using stride_random.stride.notify_total [OF assms]
      stride_random.stride.notify_good [OF assms] by blast
next
  assume "pkt_addr pkt \<noteq> None \<and> req_paddr (req pkt) \<noteq> None \<and> request_wf (req pkt)"
  then show "\<exists>s'. probeNotify (\<lambda>pkt cache pfi. notify_queued (calculatePrefetch_Stride random_rp k inp inp') env pkt pfi)
      pkt cache miss s = Inr s' \<and> good (stride_ok (\<lambda>_. True)) s'"
    using stride_random.stride.probe_total [OF assms] by blast
qed

theorem stride_notify_safe_witness:
  "\<exists>s'. notify_queued (calculatePrefetch_Stride random_rp StrideHashed \<lparr>rp_tick = 0, rp_draw = 7\<rparr> \<lparr>rp_tick = 0, rp_draw = 9\<rparr>)
      ex_env ex_packet (ex_info 0x1040) ex_stride = Inr s' \<and> good (stride_ok (\<lambda>_. True)) s'"
  by (rule stride_notify_safe [OF ex_stride_good, THEN conjunct1, THEN mp])
     (simp add: usable_def ex_packet_def ex_info_def physRequest_def ex_stride_def QueuedPf.defs ex_queued_def)

text \<open>C36: An access by a requestor that has no table yet wipes out the training of all requestors:
  the new table takes over the shared index, and afterwards every lookup of every program counter
  misses, whichever requestor asks.\<close>

theorem new_context_forgets:
  assumes "stride_ok (\<lambda>_. True) s" "pcTables s ctx = None"
  shows "\<exists>s'. findTable random_rp ctx s = Inr s' \<and> (\<forall>c. pcTables s c \<noteq> None \<longrightarrow> findTable random_rp c s' = Inr s') \<and>
    (\<forall>k key. findEntry k key (tables s') = Inr None)"
proof -
  obtain s' where s': "findTable random_rp ctx s = Inr s'" "\<forall>k key. findEntry k key (tables s') = Inr None"
    using stride_random.findTable_total [OF assms(1), of ctx] assms(2) by blast
  then have kept: "pcTables s' c \<noteq> None" if "pcTables s c \<noteq> None" for c
    using that assms(2) by (auto simp: findTable_def allocateNewContext_def)
  have "findTable random_rp c s' = Inr s'" if "pcTables s c \<noteq> None" for c
    using kept [OF that] by (auto simp: findTable_def)
  then show ?thesis using s' by blast
qed

theorem new_context_forgets_witness:
  "\<exists>s'. findTable random_rp 1 ex_stride = Inr s' \<and> (\<forall>k key. findEntry k key (tables s') = Inr None)"
  using new_context_forgets [OF ex_stride_ok, of 1] by (auto simp: ex_stride_def QueuedPf.defs)

text \<open>The threshold of one half, the default, is exact for counters of up to eight bits.\<close>

lemma saturation_half:
  assumes "0 < sc_max c"
  shows "saturation_less c (1 / 2) \<longleftrightarrow> 2 * sc_val c < sc_max c"
proof -
  let ?q = "rat_of_nat (sc_val c) / rat_of_nat (sc_max c)"
  have m: "maxVal c \<noteq> 0" using assms by (auto simp: sc_max_def)
  have s: "calcSaturation c = Some (rnd64 ?q)"
    using m by (simp add: calcSaturation_def fdiv_def double_of_u8 sc_val_def sc_max_def)
  have r: "rnd64 (255 / 512) = 255 / 512" 
    by (rule rnd64_exact [where m = 255 and e = "- 9"]) (auto simp: power_int_minus)
  show ?thesis
  proof (cases "2 * sc_val c < sc_max c")
    case True
    then have "512 * sc_val c \<le> 255 * sc_max c" using sc_max_less [of c] by linarith
    then have "rat_of_nat (512 * sc_val c) \<le> rat_of_nat (255 * sc_max c)" by (simp only: of_nat_le_iff)
    then have "?q \<le> 255 / 512" using assms by (simp add: divide_simps)
    then have "rnd64 ?q \<le> 255 / 512" using rnd64_mono [of ?q "255 / 512"] r by simp
    then show ?thesis using True s by (simp add: saturation_less_def)
  next
    case False
    then have "rat_of_nat (sc_max c) \<le> rat_of_nat (2 * sc_val c)" by (simp only: of_nat_le_iff)
    then have "1 / 2 \<le> ?q" using assms by (simp add: divide_simps)
    then have "1 / 2 \<le> rnd64 ?q" using rnd64_mono [of "1 / 2" ?q] rnd64_half by simp
    then show ?thesis using False s by (simp add: saturation_less_def)
  qed
qed

text \<open>The entry after k further accesses, each one stride n away from the last.\<close>

primrec train_stream :: "rat \<Rightarrow> cint \<Rightarrow> nat \<Rightarrow> 'd StrideEntry \<Rightarrow> 'd StrideEntry" where
  "train_stream th n 0 e = e"
| "train_stream th n (Suc k) e =
     (let e = train_stream th n k e; pf_addr = lastAddr e + scast n
      in stride_train th (ucast (pf_addr - lastAddr e)) pf_addr e)"

text \<open>How many accesses with stride n an entry needs before it prefetches with that stride, at a
  threshold of one half: the confidence first falls below the threshold, where the stride is
  replaced, and then climbs back to it.\<close>

definition learn_time :: "cint \<Rightarrow> 'd StrideEntry \<Rightarrow> nat" where
  "learn_time n e =
     (let v = sc_val (confidence e); h = (sc_max (confidence e) + 1) div 2
      in if se_stride e = n then h - v else if v \<le> h then 1 + h - (v - 1) else v - h + 2)"

lemma ucast_scast32: "ucast (scast (x :: cint) :: u64) = x"
  by (intro bit_word_eqI) (simp add: bit_simps)

lemma train_step:
  assumes "sc_wf (confidence e)" "0 < sc_max (confidence e)"
  shows "sc_wf (confidence (stride_train (1 / 2) n a e))"
    "sc_max (confidence (stride_train (1 / 2) n a e)) = sc_max (confidence e)"
    "learn_time n (stride_train (1 / 2) n a e) = learn_time n e - 1"
proof -
  let ?c = "confidence e"
  show "sc_wf (confidence (stride_train (1 / 2) n a e))" "sc_max (confidence (stride_train (1 / 2) n a e)) = sc_max ?c"
    using assms(1) by (simp_all add: stride_train_def Let_def sc_wf_decr sc_wf_incr sc_max_def)
  have le: "sc_val ?c \<le> sc_max ?c" using assms(1) by (rule sc_wf_le)
  have low: "saturation_less (sc_decr ?c) (1 / 2) \<longleftrightarrow> 2 * (sc_val ?c - 1) < sc_max ?c"
    using saturation_half [of "sc_decr ?c"] assms(2) by (simp add: sc_val_decr sc_max_def)
  have m: "sc_max (sc_decr ?c) = sc_max ?c" "sc_max (sc_incr ?c) = sc_max ?c" by (simp_all add: sc_max_def)
  show "learn_time n (stride_train (1 / 2) n a e) = learn_time n e - 1"
    unfolding learn_time_def stride_train_def Let_def
    using le assms(2) low by (auto simp: m sc_val_decr sc_val_incr [OF assms(1)])
qed

lemma train_stream_facts:
  assumes "sc_wf (confidence e)" "0 < sc_max (confidence e)"
  shows "sc_wf (confidence (train_stream (1 / 2) n k e)) \<and>
    sc_max (confidence (train_stream (1 / 2) n k e)) = sc_max (confidence e) \<and>
    lastAddr (train_stream (1 / 2) n k e) = lastAddr e + of_nat k * scast n \<and>
    learn_time n (train_stream (1 / 2) n k e) = learn_time n e - k"
proof (induction k)
  case (Suc k)
  let ?e = "train_stream (1 / 2) n k e"
  have "train_stream (1 / 2) n (Suc k) e = stride_train (1 / 2) n (lastAddr ?e + scast n) ?e"
    by (simp add: Let_def ucast_scast32)
  moreover have "lastAddr (stride_train (1 / 2) n a ?e) = a" for a by (simp add: stride_train_def Let_def)
  ultimately show ?case using train_step [of ?e n] Suc assms(2) by (simp add: algebra_simps)
qed (use assms in simp)

lemma learnt:
  assumes "0 < sc_max (confidence e)"
  shows "learn_time n e = 0 \<longleftrightarrow> se_stride e = n \<and> \<not> saturation_less (confidence e) (1 / 2)"
  unfolding saturation_half [OF assms] by (auto simp: learn_time_def Let_def)

text \<open>C35: The prefetcher learns every stride, at a known speed. At the default threshold of one half,
  whatever the confidence counter of an entry is, saturated or not, after k accesses that are one
  stride apart the entry has that stride and the confidence to prefetch with it exactly when k is
  at least its learning time, which is never more than half the maximum of the counter plus two;
  from then on every access issues the full number of prefetches.\<close>

theorem stride_learns:
  fixes s :: "('d, 'g) StridePf"
  assumes "threshConf s = 1 / 2" "sc_wf (confidence e)" "0 < sc_max (confidence e)" "e' = train_stream (threshConf s) n k e"
  shows "lastAddr e' = lastAddr e + of_nat k * scast n \<and>
    (se_stride e' = n \<and> \<not> saturation_less (confidence e') (threshConf s) \<longleftrightarrow> learn_time n e \<le> k) \<and>
    learn_time n e \<le> sc_max (confidence e) div 2 + 2 \<and>
    (learn_time n e \<le> k \<longrightarrow> length (stride_candidates s (lastAddr e') e') = nat (sint (st_degree s)))"
proof -
  note f = train_stream_facts [OF assms(2,3), of n k, folded assms(1), folded assms(4)]
  have l: "learn_time n e \<le> k \<longleftrightarrow> se_stride e' = n \<and> \<not> saturation_less (confidence e') (threshConf s)"
    using learnt [of e' n, folded assms(1)] f assms(3) by auto
  have "learn_time n e \<le> sc_max (confidence e) div 2 + 2"
    using sc_wf_le [OF assms(2)] by (auto simp: learn_time_def Let_def)
  then show ?thesis using f l by (auto simp: stride_candidates_def Let_def)
qed

theorem stride_learns_witness:
  "\<exists>e'. e' = train_stream (1 / 2) 64 2 (newStrideEntry \<lparr>initialVal = 4, maxVal = 7, counter = 4\<rparr> :: bool StrideEntry) \<and>
     se_stride e' = 64 \<and> lastAddr e' = 128 \<and> length (stride_candidates ex_stride (lastAddr e') e') = nat (sint (st_degree ex_stride))"
proof -
  let ?e = "newStrideEntry \<lparr>initialVal = 4, maxVal = 7, counter = 4\<rparr> :: bool StrideEntry"
  have e: "confidence ?e = \<lparr>initialVal = 4, maxVal = 7, counter = 4\<rparr>" "se_stride ?e = 0" "lastAddr ?e = 0"
    by (simp_all add: newStrideEntry_def StrideEntry_invalidate_def sc_reset_def)
  have t: "threshConf ex_stride = 1 / 2" by (simp add: ex_stride_def QueuedPf.defs)
  have "learn_time 64 ?e \<le> 2" by (simp add: learn_time_def e sc_val_def sc_max_def)
  moreover have "sc_wf (confidence ?e)" "0 < sc_max (confidence ?e)" by (simp_all add: e sc_wf_def sc_max_def)
  ultimately show ?thesis using stride_learns [OF t _ _ refl, of ?e 64 2] by (auto simp: e t)
qed

lemma scast_mult:
  assumes "- (2 ^ 31) \<le> sint (x :: cint) * sint y" "sint x * sint y < 2 ^ 31"
  shows "(scast (x * y) :: u64) = word_of_int (sint x * sint y)"
proof -
  have "sint (x * y) = signed_take_bit 31 (sint x * sint y)" by (simp add: sint_word_mult)
  also have "\<dots> = sint x * sint y" using assms by (rule signed_take_bit_int_eq_self)
  finally show ?thesis by (simp only: scast_eq)
qed

text \<open>The stride that is prefetched with, as an integer: the stride of the entry, rounded to one
  block in its direction when it is shorter.\<close>

definition block_step :: "u32 \<Rightarrow> cint \<Rightarrow> int" where
  "block_step blk st =
     (if \<bar>sint st\<bar> < int (unat blk) then (if sint st < 0 then - int (unat blk) else int (unat blk)) else sint st)"

lemma sint_small32:
  assumes "- (2 ^ 31) \<le> k" "k < 2 ^ 31"
  shows "sint (word_of_int k :: cint) = k"
  using assms by (simp add: sint_sbintrunc' signed_take_bit_int_eq_self)

lemma uint_abs32: "uint (abs32 x) = \<bar>sint x\<bar>"
proof -
  have b: "- (2 ^ 31) \<le> sint x" "sint x < 2 ^ 31" using sint_greater_eq [of x] sint_less [of x] by simp_all
  have "abs32 x = word_of_int \<bar>sint x\<bar>" by (simp add: abs32_def)
  then show ?thesis using b by (simp add: uint_word_of_int_eq take_bit_int_eq_self)
qed

lemma sint_prefetch_stride:
  assumes "unat blk < 2 ^ 31"
  shows "sint (prefetch_stride blk st) = block_step blk st"
proof -
  have "int (unat blk) < 2 ^ 31" using assms by (simp only: of_nat_less_numeral_power_cancel_iff)
  then have "- (2 ^ 31) \<le> uint blk" "uint blk < 2 ^ 31" "- uint blk < 2 ^ 31" "- (2 ^ 31) \<le> - uint blk"
    using uint_ge_0 [of blk] by (simp_all only: uint_nat)
  then have "sint blk = uint blk" "sint (- blk) = - uint blk"
    using sint_small32 [of "uint blk"] sint_small32 [of "- uint blk"] by simp_all
  then show ?thesis by (simp add: prefetch_stride_def block_step_def word_less_def uint_abs32)
qed

text \<open>C25: A trained entry follows its stream. When a confident entry sees the access its stride
  predicts, the prefetches are the addresses that follow in steps of the stride, the configured
  distance ahead; a stride shorter than a block is rounded to one block in the same direction, so
  that the steps are then blocks. It needs a block size below 2^31 and a product of distance and
  step that fits 32 bits, and with block addresses a stride that is not zero.\<close>

theorem stride_follows_stream:
  fixes s :: "(bool, unit) StridePf"
  assumes ok: "stride_ok (\<lambda>_. True) s" and pc: "pf_validPC pfi"
    and ctx: "pcTables s (if useRequestorId s then pf_requestorId pfi else 0) \<noteq> None"
    and hit: "findEntry k \<lparr>key_address = pf_pc pfi, key_secure = pf_secure pfi\<rparr> (tables s) = Inr (Some p)"
    and e: "e = store (tables s) ! p"
    and a: "a = (if useCachelineAddr s then blockAddress s (pf_address pfi) else pf_address pfi)"
    and st: "a = lastAddr e + scast (se_stride e)" "useCachelineAddr s \<longrightarrow> se_stride e \<noteq> 0" "unat (blkSize s) < 2 ^ 31"
    and conf: "\<not> saturation_less (sc_incr (confidence e)) (threshConf s)"
    and fit: "- (2 ^ 31) \<le> sint (st_distance s) * block_step (blkSize s) (se_stride e)"
      "sint (st_distance s) * block_step (blkSize s) (se_stride e) < 2 ^ 31"
  shows "\<exists>s'. calculatePrefetch_Stride random_rp k inp inp' pfi cache s =
    Inr (map (\<lambda>d. (a + word_of_int ((sint (st_distance s) + int d) * block_step (blkSize s) (se_stride e)), 0))
           [1..<Suc (nat (sint (st_degree s)))], s')"
proof -
  let ?key = "\<lparr>key_address = pf_pc pfi, key_secure = pf_secure pfi\<rparr>"
  have wf: "assoc_wf (\<lambda>_. True) (tables s)" using ok ctx by (auto simp: stride_ok_def)
  have "Some p \<in> set (candidates k ?key (tables s))" using findEntry_iff [OF wf, of k ?key] hit by auto
  then have p: "p < length (store (tables s))" "entry_ok (\<lambda>_. True) (store (tables s) ! p)"
    using candidates_ok [OF wf, of k ?key] by (auto simp: set_ok_def)
  obtain t where t: "accessEntry random_rp inp p (tables s) = Inr t"
      "data_step (\<lambda>_. True) (store (tables s)) (store t)"
    using stride_random.accessEntry_total [OF p] by blast
  then have e': "lastAddr (store t ! p) = lastAddr e" "se_stride (store t ! p) = se_stride e"
      "confidence (store t ! p) = confidence e"
    using stride_payload [of "store t ! p" e] p(1) e by (auto simp: data_step_def)
  have new: "ucast (a - lastAddr (store t ! p)) = se_stride e" using st(1) e'(1) by (simp add: ucast_scast32)
  let ?e = "stride_train (threshConf s) (se_stride e) a (store t ! p)"
  have tr: "se_stride ?e = se_stride e" "confidence ?e = sc_incr (confidence e)"
    using e' by (simp_all add: stride_train_def Let_def)
  let ?st = "prefetch_stride (blkSize s) (se_stride e)"
  note b = sint_prefetch_stride [OF st(3), of "se_stride e", symmetric]
  have "a + scast (st_distance s * ?st) + of_nat d * scast ?st
      = a + word_of_int ((sint (st_distance s) + int d) * block_step (blkSize s) (se_stride e))" for d
    by (simp add: b scast_mult [OF fit [unfolded b]] distrib_right)
  then have "stride_candidates s a ?e =
      map (\<lambda>d. (a + word_of_int ((sint (st_distance s) + int d) * block_step (blkSize s) (se_stride e)), 0))
      [1..<Suc (nat (sint (st_degree s)))]"
    using conf by (simp add: stride_candidates_def tr Let_def)
  moreover have "findTable random_rp (if useRequestorId s then pf_requestorId pfi else 0) s = Inr s"
    using ctx by (auto simp: findTable_def)
  ultimately show ?thesis using pc hit t(1) st(2) new
    by (simp add: calculatePrefetch_Stride_def Let_def flip: a)
qed

definition ex_trained :: "(bool, unit) StridePf" where
  "ex_trained = ex_stride\<lparr>pcTables := [1 \<mapsto> 0],
     tables := \<lparr>store = [\<lparr>e_set = 0, e_way = 0, replacementData = Some True, te_valid = True, te_secure = False,
         te_tag = 0x400, lastAddr = 0x1000, se_stride = 128,
         confidence = \<lparr>initialVal = 4, maxVal = 7, counter = 7\<rparr>\<rparr>],
       indexing = sample_index\<lparr>ip_sets := [[Some 0]]\<rparr>, rp_state = ()\<rparr>\<rparr>"

lemma ex_trained_ok: "stride_ok (\<lambda>_. True) ex_trained"
  by (simp add: stride_ok_def ex_trained_def ex_stride_def QueuedPf.defs ip_wf_def assoc_wf_def set_ok_def entry_ok_def
      ex_bool_eq)

theorem stride_follows_stream_witness:
  "\<exists>s'. calculatePrefetch_Stride random_rp TaggedSetAssociative \<lparr>rp_tick = 0, rp_draw = 0\<rparr> \<lparr>rp_tick = 0, rp_draw = 0\<rparr>
      (ex_info 0x1080) (env_cache ex_env) ex_trained =
    Inr (map (\<lambda>d. (0x1080 + word_of_int ((sint (st_distance ex_trained) + int d)
             * block_step (blkSize ex_trained) (se_stride (store (tables ex_trained) ! 0))), 0))
           [1..<Suc (nat (sint (st_degree ex_trained)))], s')"
proof -
  let ?e = "store (tables ex_trained) ! 0"
  have e: "lastAddr ?e = 0x1000" "se_stride ?e = 128" "confidence ?e = \<lparr>initialVal = 4, maxVal = 7, counter = 7\<rparr>"
      "threshConf ex_trained = 1 / 2" "blkSize ex_trained = 64" "st_distance ex_trained = 0"
      "useCachelineAddr ex_trained = False" "useRequestorId ex_trained = True" "pcTables ex_trained 1 = Some 0"
    by (simp_all add: ex_trained_def ex_stride_def QueuedPf.defs ex_queued_def)
  have i: "pf_validPC (ex_info a)" "pf_address (ex_info a) = a" "pf_requestorId (ex_info a) = 1"
      "pf_pc (ex_info a) = 0x400" "pf_secure (ex_info a) = False" for a by (simp_all add: ex_info_def)
  have hit: "findEntry TaggedSetAssociative \<lparr>key_address = 0x400, key_secure = False\<rparr> (tables ex_trained) = Inr (Some 0)"
    by (simp add: findEntry_def getPossibleEntries_def extractSet_defs extractTag_def entry_match_def ex_trained_def Let_def)
  have sat: "\<not> saturation_less (sc_incr (confidence ?e)) (threshConf ex_trained)"
    unfolding e(3,4) by (simp add: saturation_half sc_incr_def sc_max_def sc_val_def)
  show ?thesis
  proof (rule stride_follows_stream [OF ex_trained_ok i(1) _ _ refl _ _ _ _ sat])
    show "findEntry TaggedSetAssociative \<lparr>key_address = pf_pc (ex_info 0x1080), key_secure = pf_secure (ex_info 0x1080)\<rparr>
        (tables ex_trained) = Inr (Some 0)" unfolding i(4,5) by (rule hit)
  qed (unfold e i, simp_all add: block_step_def e(9))
qed

end
