(* ===== verification/MLChildren.thy ===== *)
theory MLChildren
  imports MLRuns TaggedPf StridePf
begin

text \<open>
  The child prefetchers of the controller among the prefetchers of this development, with the
  name each has as a simulation object. A stride child uses the random replacement policy of its
  parameters and comes with the draws of its generator. \<open>OtherChild\<close> is a prefetcher that is not
  queued: the cast to a queued prefetcher gives a null pointer.
\<close>

datatype Child =
    TaggedChild string TaggedPf
  | StrideChild string "nat \<Rightarrow> RpInput" "(bool, unit) StridePf"
  | OtherChild string

fun childName :: "Child \<Rightarrow> string" where
  "childName (TaggedChild n p) = n"
| "childName (StrideChild n inps p) = n"
| "childName (OtherChild n) = n"

fun childQueued :: "Child \<Rightarrow> bool" where
  "childQueued (TaggedChild n p) = True"
| "childQueued (StrideChild n inps p) = True"
| "childQueued (OtherChild n) = False"

fun childCalculate :: "PrefetchInfo \<Rightarrow> CacheAccessor \<Rightarrow> Child \<Rightarrow> (AddrPriority list \<times> Child) result" where
  "childCalculate pfi cache (TaggedChild n p) =
     bindR (calculatePrefetch_Tagged pfi cache p) (\<lambda>(as, p'). Inr (as, TaggedChild n p'))"
| "childCalculate pfi cache (StrideChild n inps p) =
     bindR (calculatePrefetch_Stride random_rp StrideHashed (inps 0) (inps 1) pfi cache p)
       (\<lambda>(as, p'). Inr (as, StrideChild n (\<lambda>i. inps (i + 2)) p'))"
| "childCalculate pfi cache (OtherChild n) = Inl (NullDeref ''Queued'')"

definition childOps :: "Child ChildOps" where
  "childOps = \<lparr>child_name = childName, child_queued = childQueued, child_calc = childCalculate\<rparr>"

fun childInv :: "Child \<Rightarrow> bool" where
  "childInv (TaggedChild n p) = True"
| "childInv (StrideChild n inps p) = stride_ok (\<lambda>_. True) p"
| "childInv (OtherChild n) = True"

interpretation kids: child_prefetchers childOps childInv "\<lambda>_. True"
proof unfold_locales
  fix c c' pfi cache as
  assume "childInv c" "child_calc childOps pfi cache c = Inr (as, c')"
  then show "childInv c'"
    by (cases c) (auto simp: childOps_def dest: stride_random.stride.calc_inv)
next
  fix c pfi cache
  assume "childInv c" "child_queued childOps c"
  then show "\<exists>r. child_calc childOps pfi cache c = Inr r"
    using stride_random.stride_total
    by (cases c) (auto simp: childOps_def calculatePrefetch_Tagged_def, fastforce)
next
  fix c c' pfi cache as
  assume "child_calc childOps pfi cache c = Inr (as, c')"
  then show "child_name childOps c' = child_name childOps c \<and> child_queued childOps c' = child_queued childOps c"
    by (cases c) (auto simp: childOps_def)
qed

end
