(* ===== verification/MLProps.thy ===== *)
theory MLProps
  imports MLChildren
begin

text \<open>
  What the learning controller guarantees over all its runs, with the prefetchers of this
  development as children.
\<close>

section \<open>An example\<close>

definition ex_world :: MLWorld where
  "ex_world = \<lparr>gCsvInitialized = False, csvOpen = False, csvLines = [], epochCount = 0,
     fileData = (\<lambda>_. None), canWrite = (\<lambda>_. True)\<rparr>"

definition ex_children :: "Child list" where
  "ex_children = [TaggedChild ''c0'' ex_tagged, TaggedChild ''c1'' ex_tagged]"

definition ex_ml :: "Child MLPf" where
  "ex_ml = (fst (newMLPf ''pf'' ''l2'' ex_children 0 1000 (1 / 2) (1 / 10) False (Some 0) 0 (ex_queued [] []) ex_world))
     \<lparr>update_event := Some 1000\<rparr>"

lemma ex_ml_run: "ml_run childOps childInv ex_ml ex_world"
proof (rule ml_run.boot)
  show "fileData ex_world = (\<lambda>_. None)" by (simp add: ex_world_def)
  show "boot_ok childInv ex_children (1 / 2) (ex_queued [] [])"
    using ex_base_wf [of "[]" "[]"]
    by (simp add: boot_ok_def ex_children_def queued_wf_def roomy_def) (simp add: ex_queued_def)
  show "newMLPf ''pf'' ''l2'' ex_children 0 1000 (1 / 2) (1 / 10) False (Some 0) 0 (ex_queued [] []) ex_world
      = (fst (newMLPf ''pf'' ''l2'' ex_children 0 1000 (1 / 2) (1 / 10) False (Some 0) 0 (ex_queued [] []) ex_world), ex_world)"
    by (simp add: newMLPf_def open_csv_def)
  show "startup childOps 0 None ex_world (fst (newMLPf ''pf'' ''l2'' ex_children 0 1000 (1 / 2) (1 / 10) False
      (Some 0) 0 (ex_queued [] []) ex_world)) = Inr ex_ml"
    by (simp add: startup_def loadQTable_def schedule_def ex_ml_def newMLPf_def QueuedPf.defs ex_world_def)
qed

section \<open>The invariant of all runs\<close>

lemma run_wf:
  assumes "ml_run childOps childInv s w"
  shows "ml_wf s" "queued_wf s" "roomy s" "world_ok w" "good_table (qTable s)" "actions_wf s" "track_wf s"
  using kids.run_good [OF assms] by (simp_all add: good_def children_ok_def ml_wf_def)

text \<open>C1: In every run, restarts included, the Q-table has at most 22 states and all its values
  stay between -3 and 2, the last action is a bandit index, the current one a child or OFF (or
  child 0 when there is none),
  the attribution table holds at most 2048 addresses and the queue invariant holds.\<close>

theorem ml_run_invariant:
  assumes "ml_run childOps childInv s w"
  shows "length (qTable s) \<le> 22 \<and> (\<forall>row \<in> snd ` set (qTable s). \<forall>q \<in> set row. - 3 \<le> q \<and> q \<le> 2) \<and>
    0 \<le> lastAction s \<and> lastAction s < numActions s \<and> - 1 \<le> currentAction s \<and>
    currentAction s < max 1 (int (length (children s))) \<and> length (childPfTable s) \<le> 2048 \<and> queued_wf s"
  using run_wf [OF assms] good_table_length [of "qTable s"]
  unfolding actions_wf_def track_wf_def good_table_def good_row_def MaxTrackedPrefetches_def by blast

theorem ml_run_invariant_witness: "length (qTable ex_ml) \<le> 22 \<and> queued_wf ex_ml"
  using ml_run_invariant [OF ex_ml_run] by blast

text \<open>C2: No access stops the simulation. In every reachable state, whatever access the cache
  reports, with or without a program counter, is filtered, counted and processed, whatever the MMU
  and the cache answer, and leads to another reachable state. The access has a physical address,
  without which the probe panics by design, and its request has a program counter if it has a
  virtual address, as every request that is built by the constructors does.\<close>

theorem notify_ML_safe:
  assumes "ml_run childOps childInv s w" "pkt_addr pkt \<noteq> None" "req_paddr (req pkt) \<noteq> None" "request_wf (req pkt)"
  shows "\<exists>s'. probeNotify (\<lambda>pkt cache pfi. notify_ML childOps env pkt pfi) pkt cache miss s = Inr s' \<and>
    ml_run childOps childInv s' w"
proof -
  obtain s' where "probeNotify (\<lambda>pkt cache pfi. notify_ML childOps env pkt pfi) pkt cache miss s = Inr s'"
    using kids.probe_ML_total [OF conjunct1 [OF kids.run_good [OF assms(1)]] _ assms(2-4)] by blast
  then show ?thesis using ml_run.probe [OF assms(1)] by blast
qed

theorem notify_ML_safe_witness:
  "\<exists>s'. probeNotify (\<lambda>pkt cache pfi. notify_ML childOps ex_env pkt pfi) ex_packet (env_cache ex_env) True ex_ml = Inr s'"
proof -
  have "pkt_addr ex_packet \<noteq> None" "req_paddr (req ex_packet) \<noteq> None" "request_wf (req ex_packet)"
    by (simp_all add: ex_packet_def physRequest_def request_wf_def)
  from notify_ML_safe [OF ex_ml_run this, where env = ex_env and cache = "env_cache ex_env" and miss = True]
  show ?thesis by (elim exE conjE) (rule exI)
qed

section \<open>Persistence\<close>

definition saved_bytes :: "Child MLPf \<Rightarrow> u8 list" where
  "saved_bytes s = write_table (map byte_of (childrenSignature childOps s)) (table_bits (qTable s))"

lemma inj_byte_of: "inj byte_of"
proof (rule injI)
  fix a b assume "byte_of a = byte_of b"
  then have "unat (of_nat (of_char a) :: u8) = unat (of_nat (of_char b) :: u8)" by (simp only: byte_of_def)
  moreover have "of_char c < (256 :: nat)" for c
    using nat_of_char_less_256 [of c] .
  ultimately have "(of_char a :: nat) = of_char b" by (simp add: unat_of_nat)
  then show "a = b" by simp
qed

lemma cut_short: "length sig < 2 ^ 32 \<Longrightarrow> cut_sig sig = sig"
  by (simp add: cut_sig_def unat_of_nat)

lemma length_saved:
  "length (childrenSignature childOps s) < 2 ^ 32 \<Longrightarrow>
   12 + length (childrenSignature childOps s) \<le> length (saved_bytes s)"
  by (simp add: saved_bytes_def write_table_def unat_of_nat)

lemma load_prefix:
  assumes "ml_run childOps childInv s w" "length (childrenSignature childOps s) < 2 ^ 32"
    "fileData w' (qfileName s') = Some (take m (saved_bytes s))"
  shows "loadQTable childOps w' s' =
    (if m < 12 + length (childrenSignature childOps s) \<or> childrenSignature childOps s' \<noteq> childrenSignature childOps s
     then Inr s' else if m < length (saved_bytes s) then Inr (s'\<lparr>qTable := []\<rparr>)
     else Inr (s'\<lparr>qTable := qTable s, qtableLoaded := True\<rparr>))"
proof -
  let ?sig = "map byte_of (childrenSignature childOps s)" and ?sig' = "map byte_of (childrenSignature childOps s')"
  have c: "cut_sig ?sig = ?sig" using assms(2) by (simp add: cut_short)
  have e: "?sig' = ?sig \<longleftrightarrow> childrenSignature childOps s' = childrenSignature childOps s"
    using inj_byte_of by (simp add: inj_map_eq_map)
  note g = run_wf(5) [OF assms(1)]
  have r: "read_table ?sig' (take m (saved_bytes s)) =
      (if m < 12 + length (childrenSignature childOps s) \<or> childrenSignature childOps s' \<noteq> childrenSignature childOps s
       then KeepTable else if m < length (saved_bytes s) then ClearTable else NewTable (table_bits (qTable s)))"
    unfolding saved_bytes_def read_written [OF g] c e by simp
  show ?thesis
    unfolding loadQTable_def assms(3) option.case r using good_table_bits [OF g]
    by (auto split: option.split)
qed

text \<open>C3: A Q-table survives a restart: what a controller has saved, a later controller with the
  same file and children loads back unchanged, bit for bit.\<close>

theorem qtable_roundtrip:
  assumes "ml_run childOps childInv s w" "canWrite w (qfileName s)" "qfileName s' = qfileName s"
    "childrenSignature childOps s' = childrenSignature childOps s" "length (childrenSignature childOps s) < 2 ^ 32"
  shows "loadQTable childOps (saveQTable childOps s w) s' = Inr (s'\<lparr>qTable := qTable s, qtableLoaded := True\<rparr>)"
proof -
  let ?w = "saveQTable childOps s w"
  have "fileData ?w (qfileName s') = Some (take (length (saved_bytes s)) (saved_bytes s))"
    using assms(2,3) by (simp add: saveQTable_def saved_bytes_def)
  from load_prefix [OF assms(1,5) this] assms(4) show ?thesis
    using length_saved [OF assms(5)] by simp
qed

lemma ex_ml_fields:
  "children ex_ml = ex_children" "qTable ex_ml = []" "qfileName ex_ml = ''qtable_l2.bin''"
  by (simp_all add: ex_ml_def newMLPf_def QueuedPf.defs qfile_name_def isalnum_def)

lemma ex_signature: "childrenSignature childOps ex_ml = ''c0;c1;''"
  by (simp add: childrenSignature_def ex_ml_fields ex_children_def childOps_def)

theorem qtable_roundtrip_witness:
  "loadQTable childOps (saveQTable childOps ex_ml ex_world) ex_ml = Inr (ex_ml\<lparr>qTable := [], qtableLoaded := True\<rparr>)"
  using qtable_roundtrip [OF ex_ml_run, of ex_ml]
  by (simp add: ex_signature) (simp add: ex_world_def ex_ml_fields)

text \<open>C19: A file cut off anywhere is never taken for a table: the controller either keeps the
  table it has or starts from an empty one.\<close>

theorem truncated_file_rejected:
  assumes "ml_run childOps childInv s w" "length (childrenSignature childOps s) < 2 ^ 32"
    "fileData w' (qfileName s') = Some (take m (saved_bytes s))" "m < length (saved_bytes s)"
  shows "loadQTable childOps w' s' = Inr s' \<or> loadQTable childOps w' s' = Inr (s'\<lparr>qTable := []\<rparr>)"
  using load_prefix [OF assms(1-3)] assms(4) by simp

theorem truncated_file_rejected_witness:
  "loadQTable childOps (ex_world\<lparr>fileData := (\<lambda>_. Some (take 5 (saved_bytes ex_ml)))\<rparr>) ex_ml = Inr ex_ml
   \<or> loadQTable childOps (ex_world\<lparr>fileData := (\<lambda>_. Some (take 5 (saved_bytes ex_ml)))\<rparr>) ex_ml
       = Inr (ex_ml\<lparr>qTable := []\<rparr>)"
proof -
  have "5 < length (saved_bytes ex_ml)" using length_saved [of ex_ml] by (simp add: ex_signature)
  then show ?thesis by (intro truncated_file_rejected [OF ex_ml_run]) (simp_all add: ex_signature)
qed

text \<open>The signature determines the names of the children when no name contains the separator.\<close>

lemma signature_inj:
  "concat (map (\<lambda>n. n @ '';'') xs) = concat (map (\<lambda>n. n @ '';'') ys) \<Longrightarrow>
   \<forall>n \<in> set xs \<union> set ys. CHR '';'' \<notin> set n \<Longrightarrow> xs = ys"
proof (induction xs arbitrary: ys)
  case Nil
  then show ?case by (cases ys) auto
next
  case (Cons x xs)
  then obtain y ys' where y: "ys = y # ys'" by (cases ys) auto
  let ?t = "\<lambda>zs. takeWhile (\<lambda>c. c \<noteq> CHR '';'') zs"
  have t: "?t (n @ '';'' @ r) = n" if "CHR '';'' \<notin> set n" for n r
    using that by (subst takeWhile_append2) auto
  have e: "x @ '';'' @ concat (map (\<lambda>n. n @ '';'') xs) = y @ '';'' @ concat (map (\<lambda>n. n @ '';'') ys')"
    using Cons.prems(1) y by simp
  then have "x = y" using t [of x] t [of y] Cons.prems(2) y by (metis UnI1 UnI2 list.set_intros(1))
  moreover from this e have "xs = ys'" using Cons.prems(2) y by (intro Cons.IH) auto
  ultimately show ?case using y by simp
qed

text \<open>C27: A table saved for other children is ignored: when the names of the children differ, and no
  name contains the separator, the file leaves the controller as it is.\<close>

theorem foreign_table_ignored:
  assumes "ml_run childOps childInv s w" "canWrite w (qfileName s)" "qfileName s' = qfileName s"
    "length (childrenSignature childOps s) < 2 ^ 32" "map childName (children s') \<noteq> map childName (children s)"
    "\<forall>c \<in> set (children s) \<union> set (children s'). CHR '';'' \<notin> set (childName c)"
  shows "loadQTable childOps (saveQTable childOps s w) s' = Inr s'"
proof -
  let ?w = "saveQTable childOps s w"
  have f: "fileData ?w (qfileName s') = Some (take (length (saved_bytes s)) (saved_bytes s))"
    using assms(2,3) by (simp add: saveQTable_def saved_bytes_def)
  have "childrenSignature childOps s' \<noteq> childrenSignature childOps s"
    using signature_inj [of "map childName (children s')" "map childName (children s)"] assms(5,6)
    by (auto simp: childrenSignature_def childOps_def comp_def)
  then show ?thesis using load_prefix [OF assms(1,4) f] by simp
qed

theorem foreign_table_ignored_witness:
  "loadQTable childOps (saveQTable childOps ex_ml ex_world) (ex_ml\<lparr>children := [OtherChild ''x'']\<rparr>)
     = Inr (ex_ml\<lparr>children := [OtherChild ''x'']\<rparr>)"
  by (rule foreign_table_ignored [OF ex_ml_run])
    (simp_all add: ex_signature, simp_all add: ex_world_def ex_ml_fields ex_children_def)

section \<open>The bandit\<close>

lemma sized_row_length: "nat (numActions s) \<le> length (sized_row s k)"
  by (simp add: sized_row_def Let_def)

text \<open>C20: When it does not explore, the controller chooses the first of the actions with the largest
  Q-value of the state; actions never tried count as zero.\<close>

theorem selectAction_greedy:
  assumes "0 < numActions s" "\<not> fdiv (rnd64 (of_nat d1)) (rnd64 (of_nat RAND_MAX)) < exploreRate s"
  shows "\<exists>k < nat (numActions s). fst (selectAction d1 d2 st s) = int k \<and>
    (\<forall>j < nat (numActions s). sized_row s st ! j \<le> sized_row s st ! k) \<and>
    (\<forall>j < k. sized_row s st ! j < sized_row s st ! k)"
proof -
  obtain k where "scan_max (drop 1 (take (nat (numActions s)) (sized_row s st))) 1 0 (sized_row s st ! 0) = int k"
    "k < nat (numActions s)" "\<forall>j < nat (numActions s). sized_row s st ! j \<le> sized_row s st ! k"
    "\<forall>j < k. sized_row s st ! j < sized_row s st ! k"
    by (rule greedy_spec [OF _ sized_row_length]) (use assms(1) in auto)
  then show ?thesis using assms(2) by (auto simp: selectAction_def Let_def)
qed

theorem selectAction_greedy_witness:
  "\<exists>k < nat (numActions ex_ml). fst (selectAction RAND_MAX 0 0 ex_ml) = int k"
proof -
  have "rnd64 (of_nat RAND_MAX) = of_nat RAND_MAX" using rnd64_int [of "int RAND_MAX"] by (simp add: RAND_MAX_def)
  then have "fdiv (rnd64 (of_nat RAND_MAX)) (rnd64 (of_nat RAND_MAX)) = 1"
    by (simp add: fdiv_def RAND_MAX_def binary64.rnd_numerals)
  moreover have "exploreRate ex_ml = 1 / 10" "0 < numActions ex_ml"
    by (simp_all add: ex_ml_def newMLPf_def QueuedPf.defs)
  ultimately show ?thesis using selectAction_greedy [of ex_ml RAND_MAX 0 0] by auto
qed

lemma explore_min_pos: "0 < EXPLORE_MIN"
  using rnd64_ge [of 10 "1 / 100"] by (simp add: EXPLORE_MIN_def)

lemma explore_min_le: "EXPLORE_MIN \<le> 1 / 64" "1 / 128 \<le> EXPLORE_MIN"
  using rnd64_near [of "1 / 100"] by (simp_all add: EXPLORE_MIN_def)

lemma explore_decay_le: "0 \<le> EXPLORE_DECAY" "EXPLORE_DECAY \<le> 9995 / 10000 + 1 / 2 ^ 51"
  using rnd64_near [of "9995 / 10000"] by (simp_all add: EXPLORE_DECAY_def)

text \<open>One decay step, with all its roundings, takes away at least four parts in ten thousand until
  the minimum is reached.\<close>

lemma decay_step:
  assumes "x \<le> 1"
  shows "max EXPLORE_MIN (fmul x EXPLORE_DECAY) \<le> max EXPLORE_MIN (x * (9996 / 10000))"
proof (cases "x \<le> EXPLORE_MIN")
  case True
  have D: "0 \<le> EXPLORE_DECAY" "EXPLORE_DECAY \<le> 1" using explore_decay_le by simp_all
  have "x * EXPLORE_DECAY \<le> EXPLORE_MIN"
  proof (cases "0 \<le> x")
    case pos: True
    then show ?thesis using True mult_left_mono [OF D(2) pos] by simp
  next
    case False
    then have "x * EXPLORE_DECAY \<le> 0" using D(1) by (simp add: mult_le_0_iff)
    then show ?thesis using explore_min_pos by simp
  qed
  then have "fmul x EXPLORE_DECAY \<le> rnd64 EXPLORE_MIN" unfolding fmul_def by (rule rnd64_mono)
  then show ?thesis by (simp add: EXPLORE_MIN_def rnd64_idem)
next
  case False
  then have x: "1 / 128 \<le> x" using explore_min_le(2) by simp
  note D = explore_decay_le(2) explore_decay_le(1)
  have p: "x * EXPLORE_DECAY \<le> x * (9995 / 10000 + 1 / 2 ^ 51)" using x D(1) by (intro mult_left_mono) simp_all
  have "x * EXPLORE_DECAY \<le> 1 * (9995 / 10000 + 1 / 2 ^ 51)" using D assms by (intro mult_mono) simp_all
  then have "x * EXPLORE_DECAY < 8" "0 \<le> x * EXPLORE_DECAY" using x D(2) by simp_all
  then have "fmul x EXPLORE_DECAY \<le> x * EXPLORE_DECAY + 1 / 2 ^ 51"
    using rnd64_near [of "x * EXPLORE_DECAY"] by (simp add: fmul_def)
  also have "y + 1 / 2 ^ 51 \<le> x * (9996 / 10000)" if "y \<le> x * (9995 / 10000 + 1 / 2 ^ 51)" for y :: rat
    using that x by simp
  note this [OF p]
  finally show ?thesis by auto
qed

lemma bernoulli_rat:
  fixes x :: rat
  assumes "0 \<le> x"
  shows "1 + of_nat n * x \<le> (1 + x) ^ n"
proof (induction n)
  case (Suc n)
  have "1 + of_nat (Suc n) * x \<le> (1 + of_nat n * x) * (1 + x)"
    using assms by (simp add: algebra_simps)
  also have "\<dots> \<le> (1 + x) ^ n * (1 + x)" using Suc assms by (intro mult_right_mono) simp_all
  finally show ?case by (simp add: mult.commute)
qed simp

lemma half_power:
  fixes c :: rat
  assumes "0 < c" "1 \<le> of_nat n * (1 / c - 1)" "c \<le> 1" "n * 7 \<le> m"
  shows "c ^ m \<le> 1 / 128"
proof -
  have "1 + of_nat n * (1 / c - 1) \<le> (1 + (1 / c - 1)) ^ n" using assms(1,3) by (intro bernoulli_rat) simp
  then have "2 \<le> 1 / c ^ n" using assms(2) by (simp add: power_one_over)
  then have "c ^ n \<le> 1 / 2" using assms(1) by (simp add: field_simps)
  then have "(c ^ n) ^ 7 \<le> (1 / 2) ^ 7" using assms(1) by (intro power_mono) simp_all
  moreover have "c ^ m \<le> c ^ (n * 7)" using assms by (intro power_decreasing) simp_all
  ultimately show ?thesis by (simp add: power_divide flip: power_mult)
qed

lemma decay_17500: "17500 \<le> m \<Longrightarrow> (9996 / 10000 :: rat) ^ m \<le> 1 / 128"
  by (rule half_power [where n = 2500]) simp_all

fun run_epochs :: "EpochInput list \<Rightarrow> 'c MLPf \<Rightarrow> MLWorld \<Rightarrow> 'c MLPf \<times> MLWorld" where
  "run_epochs [] s w = (s, w)"
| "run_epochs (inp # inps) s w = (let (s1, w1) = endEpoch inp s w in run_epochs inps s1 w1)"

lemma endEpoch_explore:
  "exploreRate (fst (endEpoch inp s w)) = max EXPLORE_MIN (fmul (exploreRate s) EXPLORE_DECAY)"
proof -
  obtain acc mis ops t before after mr ipc d s1 s2 reward idx state where
    e: "s1 = (measured acc mis ops t before after mr ipc s)\<lparr>lastReward := reward\<rparr>"
      "selectAction (ei_draw1 inp) (ei_draw2 inp) state (credit reward s1) = (idx, s2)"
      "fst (endEpoch inp s w) = s2\<lparr>actionUse := bump idx (actionUse s2),
         exploreRate := max EXPLORE_MIN (fmul (exploreRate s2) EXPLORE_DECAY),
         currentAction := next_action (numActions s2) idx, lastState := state, lastAction := idx,
         epochAccesses := 0, epochMisses := 0\<rparr>"
    by (rule endEpoch_cases [where inp = inp and s = s and w = w]) blast
  have "exploreRate s2 = exploreRate s"
    using e(2) by (auto simp: selectAction_def credit_def Let_def e(1) split: if_splits)
  then show ?thesis by (simp add: e(3))
qed

lemma run_epochs_explore:
  assumes "exploreRate s \<le> 1"
  shows "exploreRate (fst (run_epochs inps s w)) \<le> max EXPLORE_MIN (exploreRate s * (9996 / 10000) ^ length inps) \<and>
    (inps \<noteq> [] \<longrightarrow> EXPLORE_MIN \<le> exploreRate (fst (run_epochs inps s w)))"
  using assms
proof (induction inps arbitrary: s w)
  case (Cons inp inps)
  obtain s1 w1 where e: "endEpoch inp s w = (s1, w1)" by fastforce
  have x: "exploreRate s1 = max EXPLORE_MIN (fmul (exploreRate s) EXPLORE_DECAY)"
    using endEpoch_explore [of inp s w] by (simp add: e)
  then have le: "exploreRate s1 \<le> max EXPLORE_MIN (exploreRate s * (9996 / 10000))" using decay_step [OF Cons.prems] by simp
  let ?c = "(9996 / 10000 :: rat) ^ length inps"
  have c: "0 \<le> ?c" "?c \<le> 1" by (simp_all add: power_le_one)
  have "max EXPLORE_MIN (exploreRate s * (9996 / 10000)) \<le> 1"
    using explore_min_le(1) Cons.prems by auto
  then have "exploreRate s1 \<le> 1" using le by linarith
  note IH = Cons.IH [OF this, of w1]
  have "exploreRate s1 * ?c \<le> max EXPLORE_MIN (exploreRate s * (9996 / 10000)) * ?c"
    using le c(1) by (rule mult_right_mono)
  also have "\<dots> = max (EXPLORE_MIN * ?c) (exploreRate s * (9996 / 10000) * ?c)" using c(1) by (simp add: max_mult_distrib_right)
  also have "\<dots> \<le> max EXPLORE_MIN (exploreRate s * (9996 / 10000) ^ length (inp # inps))"
    using mult_left_mono [OF c(2) less_imp_le [OF explore_min_pos]] by (intro max.mono) (simp_all add: mult.assoc)
  finally have "max EXPLORE_MIN (exploreRate s1 * ?c) \<le> max EXPLORE_MIN (exploreRate s * (9996 / 10000) ^ length (inp # inps))"
    by simp
  moreover have "EXPLORE_MIN \<le> exploreRate (fst (run_epochs inps s1 w1))" using IH x by (cases inps) auto
  ultimately show ?case using IH by (simp add: e)
qed simp

text \<open>C21: Exploration cannot be switched off. Whatever rate up to 1 a controller starts with, after
  17500 epochs its exploration rate is exactly EXPLORE_MIN, one per cent; started at or below it,
  in particular at 0, the rate by which the documentation freezes learning, it is EXPLORE_MIN
  from the end of the first epoch on.\<close>

theorem exploration_settles:
  assumes "exploreRate s \<le> 1" "17500 \<le> length inps \<or> exploreRate s \<le> EXPLORE_MIN \<and> inps \<noteq> []"
  shows "exploreRate (fst (run_epochs inps s w)) = EXPLORE_MIN"
proof -
  let ?c = "(9996 / 10000 :: rat) ^ length inps"
  have "exploreRate s * ?c \<le> EXPLORE_MIN"
  proof (cases "0 \<le> exploreRate s")
    case True
    show ?thesis
    proof (cases "17500 \<le> length inps")
      case long: True
      then have c: "?c \<le> 1 / 128" by (rule decay_17500)
      have "exploreRate s * ?c \<le> 1 * ?c" using assms(1) by (intro mult_right_mono) simp_all
      then show ?thesis using c explore_min_le(2) by linarith
    next
      case False
      then have "exploreRate s \<le> EXPLORE_MIN" using assms(2) by blast
      moreover have "exploreRate s * ?c \<le> exploreRate s * 1" using True by (intro mult_left_mono) (simp_all add: power_le_one)
      ultimately show ?thesis by simp
    qed
  next
    case False
    then have "exploreRate s * ?c \<le> 0" by (simp add: mult_le_0_iff)
    then show ?thesis using explore_min_pos by simp
  qed
  moreover have "inps \<noteq> []" using assms(2) by auto
  ultimately show ?thesis using run_epochs_explore [OF assms(1), of inps w] by auto
qed

definition ex_input :: EpochInput where
  "ex_input = \<lparr>ei_now = 1000, ei_accesses = 100, ei_misses = 10, ei_totalOps = 500, ei_draw1 = 0, ei_draw2 = 1\<rparr>"

theorem exploration_settles_witness:
  "exploreRate (fst (run_epochs [ex_input] (ex_ml\<lparr>exploreRate := 0\<rparr>) ex_world)) = EXPLORE_MIN"
  using exploration_settles [of "ex_ml\<lparr>exploreRate := 0\<rparr>" "[ex_input]" ex_world] explore_min_pos by simp

text \<open>C28: Of the 45 combinations of bins only 21 can come out of an epoch, since the accuracy is
  computed from the same difference as the miss-rate bin; the state is always one of these.\<close>

theorem reachable_states:
  "lastState (fst (endEpoch inp s w)) \<in> {200, 201, 202, 110, 111, 112, 210, 211, 212, 120, 121, 122,
     130, 131, 132, 40, 41, 42, 140, 141, 142}"
proof -
  have "lastState (fst (endEpoch inp s w)) \<in> set epoch_states"
    by (rule endEpoch_cases [where inp = inp and s = s and w = w]) (simp add: encode_state_mem)
  then show ?thesis by (simp add: epoch_states_eq)
qed

section \<open>Training and attribution\<close>

lemma train_children_spec:
  "train_children ops now pfi cache active i cs s = Inr (as, cs', s') \<Longrightarrow>
   length cs' = length cs \<and> (active < i \<or> i + int (length cs) \<le> active \<longrightarrow> as = []) \<and>
   (\<forall>k < length cs. if child_queued ops (cs ! k)
      then \<exists>cand. child_calc ops pfi cache (cs ! k) = Inr (cand, cs' ! k) \<and> (i + int k = active \<longrightarrow> as = cand)
      else cs' ! k = cs ! k \<and> (i + int k = active \<longrightarrow> as = []))"
proof (induction cs arbitrary: i s as cs' s')
  case (Cons c cs)
  have split: "(\<forall>k < length (c # cs). P k) \<longleftrightarrow> P 0 \<and> (\<forall>k < length cs. P (Suc k))" for P
    by (simp add: All_less_Suc2)
  show ?case
  proof (cases "child_queued ops c")
    case True
    with Cons.prems obtain tmp c' as2 cs2 where c: "child_calc ops pfi cache c = Inr (tmp, c')"
      and r: "train_children ops now pfi cache active (i + 1) cs
        (if i = active then track_all now i tmp s else s) = Inr (as2, cs2, s')"
      and e: "cs' = c' # cs2" "as = (if i = active then tmp else []) @ as2" by auto
    from Cons.IH [OF r] show ?thesis unfolding split using True c e by (auto simp: add.assoc)
  next
    case False
    with Cons.prems obtain cs2 where r: "train_children ops now pfi cache active (i + 1) cs s = Inr (as, cs2, s')"
      and e: "cs' = c # cs2" by auto
    from Cons.IH [OF r] show ?thesis unfolding split using False e by (auto simp: add.assoc)
  qed
qed simp

text \<open>C4: Every queued child sees every access and learns from it, and exactly the candidates of the
  child the current action names are passed on; with the action OFF nothing is.\<close>

theorem training_and_issue:
  assumes "calculatePrefetch_ML ops now pfi cache s = Inr (as, s')"
  shows "length (children s') = length (children s) \<and>
    (\<forall>k < length (children s). child_queued ops (children s ! k) \<longrightarrow>
       (\<exists>cand. child_calc ops pfi cache (children s ! k) = Inr (cand, children s' ! k) \<and>
          (currentAction s = int k \<longrightarrow> as = cand))) \<and>
    (currentAction s = - 1 \<longrightarrow> as = [])"
proof -
  from assms obtain cs s1 where t: "train_children ops now pfi cache (currentAction s) 0 (children s) s = Inr (as, cs, s1)"
    and s': "s' = s1\<lparr>children := cs\<rparr>" by (auto simp: calculatePrefetch_ML_def)
  note spec = train_children_spec [OF t]
  have "\<exists>cand. child_calc ops pfi cache (children s ! k) = Inr (cand, cs ! k) \<and> (0 + int k = currentAction s \<longrightarrow> as = cand)"
    if "k < length (children s)" "child_queued ops (children s ! k)" for k
    using spec that by presburger
  then show ?thesis using spec by (simp add: s' eq_commute)
qed

theorem training_and_issue_witness:
  "\<exists>as s'. calculatePrefetch_ML childOps 5 (ex_info 0x1010) (env_cache ex_env) ex_ml = Inr (as, s')
     \<and> length (children s') = 2"
proof -
  have "children_ok childInv ex_ml" using kids.run_good [OF ex_ml_run] by (simp add: good_def)
  then obtain as s' where c: "calculatePrefetch_ML childOps 5 (ex_info 0x1010) (env_cache ex_env) ex_ml = Inr (as, s')"
    using kids.calculatePrefetch_ML_ok [of ex_ml, where now = 5 and pfi = "ex_info 0x1010" and cache = "env_cache ex_env"] by auto
  then show ?thesis using training_and_issue [OF c] by (simp add: ex_ml_fields ex_children_def)
qed

text \<open>C30: With at most four children, the useful prefetches counted for all children together
  never exceed the issued ones: every useful one, and every address still tracked, has been
  counted as issued.\<close>

theorem useful_at_most_issued:
  assumes "ml_run childOps childInv s w" "length (children s) \<le> 4"
  shows "sum_list (childPfUseful s) + length (childPfTable s) \<le> sum_list (childPfIssued s)"
  using run_wf(7) [OF assms(1)] assms(2) by (simp add: track_wf_def)

theorem useful_at_most_issued_witness: "sum_list (childPfUseful ex_ml) \<le> sum_list (childPfIssued ex_ml)"
  using useful_at_most_issued [OF ex_ml_run] by (simp add: ex_ml_fields ex_children_def)

lemma four_zeros: "replicate 4 x = [x, x, x, x]"
  by (simp add: eval_nat_numeral)

text \<open>Per child the bound fails: when one child repeats an address another child has issued, the
  hit is credited to the second, which then has a useful prefetch and no issued one.\<close>

theorem attribution_moves:
  "let s = trackUsefulForAddr a (trackIssuedForChild t' 1 a (trackIssuedForChild t 0 a ex_ml))
   in childPfIssued s = [1, 0, 0, 0] \<and> childPfUseful s = [0, 1, 0, 0] \<and> childPfRedundant s = [0, 1, 0, 0]"
  by (simp add: trackUsefulForAddr_def trackIssuedForChild_def ex_ml_def newMLPf_def QueuedPf.defs Let_def
      MaxTrackedPrefetches_def bump_def four_zeros)

text \<open>A full attribution table is emptied before the new address is looked up: all 2048
  tracked prefetches are forgotten, and an address that was among them counts as issued
  again.\<close>

theorem full_table_forgets:
  assumes "length (childPfTable s) \<ge> 2048" "0 \<le> i"
  shows "trackIssuedForChild t i a s = s\<lparr>childPfTable := [(a, \<lparr>actionIndex = i, issueTick = t\<rparr>)],
     childPfIssued := bump i (childPfIssued s)\<rparr>"
  using assms by (simp add: trackIssuedForChild_def MaxTrackedPrefetches_def Let_def)

theorem full_table_forgets_witness:
  "childPfIssued (trackIssuedForChild 5 0 7 (ex_ml\<lparr>childPfTable := map (\<lambda>n. (of_nat n, \<lparr>actionIndex = 0, issueTick = 0\<rparr>)) [0..<2048]\<rparr>))
     = [1, 0, 0, 0]"
  by (subst full_table_forgets) (simp_all add: ex_ml_def newMLPf_def QueuedPf.defs bump_def four_zeros)

section \<open>Reward and credit\<close>

text \<open>The OFF action, the last bandit index, carries the penalty of the second or third action
  exactly when there are one or two children.\<close>

theorem off_penalty:
  "actionPenalties (fst (newMLPf nm cn cs act ticks lr er dbg cpu t q w)) ! length cs
     = (if length cs = 1 then rnd64 (2 / 100) else if length cs = 2 then rnd64 (3 / 100) else 0)"
proof -
  have "replicate (length cs + 1) (0::rat) ! length cs = 0" by (rule nth_replicate) simp
  then show ?thesis
    by (auto simp: newMLPf_def QueuedPf.defs init_penalties_def Let_def nth_list_update simp del: replicate_Suc)
qed

lemma step_accuracy:
  assumes "- 3 \<le> q" "q \<le> 2" "- 3 \<le> r" "r \<le> 2" "0 \<le> l" "l \<le> 1"
  shows "\<bar>rnd64 (q + rnd64 (l * rnd64 (r - q))) - (q + l * (r - q))\<bar> \<le> 1 / 2 ^ 49"
proof -
  define d where "d = rnd64 (r - q)"
  define m where "m = rnd64 (l * d)"
  have d: "\<bar>d - (r - q)\<bar> \<le> 1 / 2 ^ 51" unfolding d_def using assms by (intro rnd64_error_8) auto
  have "\<bar>r - q\<bar> \<le> 5" using assms by auto
  then have d6: "\<bar>d\<bar> \<le> 5 + 1 / 2 ^ 51" using d by linarith
  have ld: "\<bar>l * d\<bar> \<le> \<bar>d\<bar>" using assms by (simp add: abs_mult mult_left_le_one_le)
  then have m: "\<bar>m - l * d\<bar> \<le> 1 / 2 ^ 51" unfolding m_def using d6 by (intro rnd64_error_8) simp
  have "\<bar>l * d - l * (r - q)\<bar> = l * \<bar>d - (r - q)\<bar>" using assms(5) by (simp add: abs_mult flip: right_diff_distrib)
  also have "\<dots> \<le> \<bar>d - (r - q)\<bar>" using assms by (simp add: mult_left_le_one_le)
  finally have e: "\<bar>l * d - l * (r - q)\<bar> \<le> 1 / 2 ^ 51" using d by linarith
  have mean: "q + l * (r - q) = (1 - l) * q + l * r" by (simp add: algebra_simps)
  have "\<bar>q + l * (r - q)\<bar> \<le> (1 - l) * 3 + l * 3"
    unfolding mean using assms by (intro abs_triangle_ineq [THEN order_trans] add_mono) (auto simp only: abs_mult intro!: mult_mono)
  then have "\<bar>q + l * (r - q)\<bar> \<le> 3" by (simp add: algebra_simps)
  moreover have "(1 :: rat) / 2 ^ 51 \<le> 1" by simp
  ultimately have "\<bar>q + m\<bar> < 8" using m e by linarith
  then have "\<bar>rnd64 (q + m) - (q + m)\<bar> \<le> 1 / 2 ^ 51" by (rule rnd64_error_8)
  moreover have "(3 :: rat) * (1 / 2 ^ 51) \<le> 1 / 2 ^ 49" by simp
  ultimately show ?thesis using m e unfolding m_def d_def by linarith
qed

text \<open>C29: Crediting a reward moves the value of the last action by the learning rate's share of
  the distance to the reward: up to the rounding of its three operations, less than 2 to the power
  of -49, the new value is the mean of old value and reward that the rate weights. So a rate of 1
  forgets the old value and the move never overshoots by more than the rounding; it never goes in
  the wrong direction, and a rate of 0 leaves the value alone. No other action, no other state and no
  other field of the controller changes.\<close>

theorem credit_weighted_mean:
  assumes "ml_run childOps childInv s w" "- 3 \<le> r" "r \<le> 2" "a = nat (lastAction s)" "row = sized_row s (lastState s)"
  shows "\<exists>t q'. credit r s = s\<lparr>qTable := t\<rparr> \<and> map_of t = (map_of (qTable s))(lastState s \<mapsto> row[a := q']) \<and>
    a < length row \<and> \<bar>q' - (row ! a + learningRate s * (r - row ! a))\<bar> \<le> 1 / 2 ^ 49 \<and>
    (row ! a \<le> r \<longrightarrow> row ! a \<le> q') \<and> (r \<le> row ! a \<longrightarrow> q' \<le> row ! a) \<and>
    (learningRate s = 0 \<longrightarrow> q' = row ! a)"
proof -
  note wf = run_wf(5,6) [OF assms(1)]
  have n: "0 \<le> lastAction s" "lastAction s < numActions s" "0 \<le> learningRate s" "numActions s < 2 ^ 32" "learningRate s \<le> 1"
    using wf(2) by (auto simp: actions_wf_def)
  note g = sized_row_good [OF wf(1) n(4), of "lastState s", folded assms(5)]
  have a: "a < length row" using g(2) n assms(4) by simp
  then have q: "rnd64 (row ! a) = row ! a" "- 3 \<le> row ! a" "row ! a \<le> 2"
    using g(1) by (simp_all add: good_row_def is_double_def)
  let ?q = "rnd64 (row ! a + rnd64 (learningRate s * rnd64 (r - row ! a)))"
  let ?t = "table_put (lastState s) (row[a := ?q]) (qTable s)"
  have c: "credit r s = s\<lparr>qTable := ?t\<rparr>"
    using n assms(4,5) by (simp add: credit_def Let_def fadd_def fmul_def fsub_def)
  have "table_wf (qTable s)" using wf(1) by (simp add: good_table_def)
  then have t: "map_of ?t = (map_of (qTable s))(lastState s \<mapsto> row[a := ?q])" by simp
  show ?thesis
    by (rule exI [of _ ?t], rule exI [of _ ?q], intro conjI impI)
      (use c t a step_accuracy [OF q(2,3) assms(2,3) n(3,5)] binary64.step_up [OF q(1) _ n(3), of r]
         binary64.step_down [OF q(1) _ n(3), of r] binary64.step_frozen [OF q(1), of r] in \<open>simp_all\<close>)
qed

theorem credit_weighted_mean_witness:
  "\<exists>q'. map_of (qTable (credit 1 ex_ml)) = [0 \<mapsto> [q', 0, 0]] \<and> \<bar>q' - 1 / 2\<bar> \<le> 1 / 2 ^ 49"
proof -
  have e: "sized_row ex_ml (lastState ex_ml) = [0, 0, 0]" "lastAction ex_ml = 0" "lastState ex_ml = 0" "qTable ex_ml = []"
    "learningRate ex_ml = 1 / 2"
    by (simp_all add: sized_row_def ex_ml_def newMLPf_def QueuedPf.defs ex_children_def eval_nat_numeral)
  note row = e(1) [unfolded e(3)]
  have b: "- 3 \<le> (1 :: rat)" "(1 :: rat) \<le> 2" by simp_all
  obtain t q' where c: "credit 1 ex_ml = ex_ml\<lparr>qTable := t\<rparr>"
    "map_of t = (map_of (qTable ex_ml))(lastState ex_ml \<mapsto> (sized_row ex_ml (lastState ex_ml))[nat (lastAction ex_ml) := q'])"
    "\<bar>q' - (sized_row ex_ml (lastState ex_ml) ! nat (lastAction ex_ml) +
       learningRate ex_ml * (1 - sized_row ex_ml (lastState ex_ml) ! nat (lastAction ex_ml)))\<bar> \<le> 1 / 2 ^ 49"
    using credit_weighted_mean [OF ex_ml_run b refl refl] by (elim exE conjE)
  have t: "qTable (credit 1 ex_ml) = t" unfolding c(1) by simp
  have "map_of t = [0 \<mapsto> [q', 0, 0]]" using c(2) unfolding e row by simp
  moreover have "\<bar>q' - 1 / 2\<bar> \<le> 1 / 2 ^ 49" using c(3) unfolding e row by simp
  ultimately show ?thesis unfolding t by (intro exI conjI)
qed

lemma shaped_reward_double: "rnd64 (shaped_reward d a s) = shaped_reward d a s"
  by (simp add: shaped_reward_def Let_def fsub_def fadd_def rnd64_idem)

lemma zero_not_epoch_state: "0 \<notin> set epoch_states"
  by (simp add: epoch_states_eq)

lemma credit_first:
  assumes "qTable s = []" "lastAction s = 0" "0 < numActions s" "rnd64 r = r"
  shows "qTable (credit r s) = [(lastState s, (replicate (nat (numActions s)) 0)[0 := fmul (learningRate s) r])]"
proof -
  have "sized_row s (lastState s) = replicate (nat (numActions s)) 0"
    using assms(1) by (simp add: sized_row_def Let_def)
  then show ?thesis using assms by (simp add: credit_def Let_def fadd_def fsub_def fmul_def rnd64_idem)
qed

text \<open>The reward of the first epoch goes to action 0, whichever action was active in it, and
  into the row of state 0, which no later epoch selects from.\<close>

theorem first_reward_to_action_0:
  assumes "boot_ok childInv cs lr q" "newMLPf nm cn cs act ticks lr er dbg cpu t q w = (s, w')"
    "s' = fst (endEpoch inp s v)"
  shows "map_of (qTable s') 0 = Some ((replicate (length cs + 1) 0)[0 := fmul lr (lastReward s')]) \<and> lastState s' \<noteq> 0"
proof -
  have n: "qTable s = []" "lastAction s = 0" "numActions s = int (length cs) + 1" "lastState s = 0" "learningRate s = lr"
    using assms(2) by (auto simp: newMLPf_def QueuedPf.defs)
  obtain acc mis ops tt before after mr ipc d s1 s2 reward idx state where
    s1: "s1 = (measured acc mis ops tt before after mr ipc s)\<lparr>lastReward := reward\<rparr>"
    and r: "reward = shaped_reward d (accuracy_of before after) s"
    and st: "state = encode_state (encodeAccuracy (accuracy_of before after)) (encodeDeltaMiss (fsub after before))
       (encodeDeltaIpc d)"
    and sel: "selectAction (ei_draw1 inp) (ei_draw2 inp) state (credit reward s1) = (idx, s2)"
    and e: "fst (endEpoch inp s v) = s2\<lparr>actionUse := bump idx (actionUse s2),
       exploreRate := max EXPLORE_MIN (fmul (exploreRate s2) EXPLORE_DECAY),
       currentAction := next_action (numActions s2) idx, lastState := state, lastAction := idx,
       epochAccesses := 0, epochMisses := 0\<rparr>"
    by (rule endEpoch_cases [where inp = inp and s = s and w = v])
  have ns: "state \<noteq> 0" using encode_state_mem [of before after d] zero_not_epoch_state unfolding st by metis
  have "rnd64 reward = reward" unfolding r by (rule shaped_reward_double)
  then have c: "qTable (credit reward s1) = [(0, (replicate (length cs + 1) 0)[0 := fmul lr reward])]"
    using credit_first [of s1 reward] n by (simp add: s1 nat_add_distrib)
  obtain row where s2: "s2 = (credit reward s1)\<lparr>qTable := table_put state row (qTable (credit reward s1))\<rparr>"
    using sel by (auto simp: selectAction_def Let_def split: if_splits)
  have "lastReward (credit reward s1) = reward" by (simp add: credit_def Let_def s1)
  then have "lastReward s' = reward" "lastState s' = state" "qTable s' = table_put state row (qTable (credit reward s1))"
    unfolding assms(3) e s2 by simp_all
  then show ?thesis using ns by (auto simp: c)
qed

theorem first_reward_to_action_0_witness:
  "\<exists>r. map_of (qTable (fst (endEpoch ex_input
      (fst (newMLPf ''pf'' ''l2'' ex_children 1 1000 (1 / 2) 0 False None 0 (ex_queued [] []) ex_world)) ex_world))) 0
     = Some [r, 0, 0]"
proof -
  have "boot_ok childInv ex_children (1 / 2) (ex_queued [] [])"
    using ex_base_wf [of "[]" "[]"]
    by (simp add: boot_ok_def ex_children_def queued_wf_def roomy_def) (simp add: ex_queued_def)
  from first_reward_to_action_0 [OF this surjective_pairing refl] show ?thesis
    by (simp add: ex_children_def)
qed

section \<open>Restarts\<close>

lemma loadQTable_ticks: "loadQTable ops w s = Inr s' \<Longrightarrow> epoch_ticks s' = epoch_ticks s"
  by (auto simp: loadQTable_def split: option.splits load_outcome.splits)

text \<open>C5: A simulation can always be started again: on the disk that any run has left, a new
  controller with any children of this development and any accepted parameters starts up, loads or
  skips the table in the file, and is in a reachable state, as long as the first epoch ends
  before the tick counter wraps around.\<close>

theorem restart_succeeds:
  assumes run: "ml_run childOps childInv s0 w" and ok: "boot_ok childInv cs lr q"
    and new: "newMLPf nm cn cs act ticks lr er dbg cpu t q w = (s, w')" and now: "now \<le> now + ticks"
  shows "\<exists>s'. startup childOps now found w' s = Inr s' \<and> ml_run childOps childInv s' w'"
proof -
  have "good (children_ok childInv) s" "world_ok w'"
    using newMLPf_good(1) [OF ok new] run_wf(4) [OF run] world_ok_files [OF newMLPf_good(2) [OF ok new]] by blast+
  then obtain s1 where l: "loadQTable childOps w' s = Inr s1"
    using loadQTable_ok [of s w' childOps] by (auto simp: good_def children_ok_def)
  have "epoch_ticks s1 = ticks"
    using loadQTable_ticks [OF l] new by (auto simp: newMLPf_def QueuedPf.defs)
  then have "\<exists>s'. startup childOps now found w' s = Inr s'"
    using l now by (auto simp: startup_def schedule_def Let_def not_less split: option.splits)
  then show ?thesis using ml_run.restart [OF run ok new] by blast
qed

lemma updateModel_leaves:
  assumes "ml_run childOps childInv s w" "updateModel childOps inp s w = Inr (s', w')" "canWrite w (qfileName s)"
  shows "fileData w' (qfileName s') = Some (saved_bytes s')" "update_event s' = Some (ei_now inp + epoch_ticks s)"
    "children s' = children s" "qfileName s' = qfileName s"
proof -
  obtain s1 w1 where e: "endEpoch inp s w = (s1, w1)" by fastforce
  have "canWrite (snd (endEpoch inp s w)) = canWrite w"
    by (simp add: endEpoch_def Let_def case_prod_beta log_epoch_def)
  then have w: "canWrite w1 = canWrite w" by (simp add: e)
  have f: "epoch_ticks s1 = epoch_ticks s \<and> qfileName s1 = qfileName s \<and> children s1 = children s"
    by (rule endEpoch_facts [OF run_wf(1) [OF assms(1)], where inp = inp and w = w]) (simp add: e measured_def)
  have s': "s' = s1\<lparr>update_event := Some (ei_now inp + epoch_ticks s1)\<rparr>" "w' = saveQTable childOps s1 w1"
    using assms(2) by (auto simp: updateModel_def e schedule_def split: if_splits)
  have "saved_bytes s' = saved_bytes s1" by (simp add: s' saved_bytes_def childrenSignature_def)
  then show "fileData w' (qfileName s') = Some (saved_bytes s')"
    using assms(3) f by (simp add: s' saveQTable_def saved_bytes_def w)
  show "update_event s' = Some (ei_now inp + epoch_ticks s)" "children s' = children s" "qfileName s' = qfileName s"
    using f by (simp_all add: s')
qed

lemma startup_table:
  assumes "loadQTable ops w s = Inr s1" "now \<le> now + epoch_ticks s1"
  shows "\<exists>s'. startup ops now found w s = Inr s' \<and> qTable s' = qTable s1 \<and> numActions s' = numActions s1 \<and>
    update_event s' = Some (now + epoch_ticks s1)"
  using assms by (auto simp: startup_def schedule_def Let_def not_less split: option.splits)

text \<open>C31: What an epoch has learnt is never lost: the timer event that ends an epoch schedules the
  next one an epoch later and leaves the table in the file, and whatever simulation is started next
  on that disk, with children of the same names and the same file, starts with exactly this table
  and chooses from the same rows of Q-values in every state, whatever its other parameters. The
  file has to be writable, the signature of the children shorter than 2^32, and the first epoch of
  the new simulation has to end before the tick counter wraps around.\<close>

theorem epoch_survives_restart:
  assumes run: "ml_run childOps childInv s0 w0" and epoch: "updateModel childOps inp s0 w0 = Inr (s, w)"
    and writable: "canWrite w0 (qfileName s0)" and sig: "length (childrenSignature childOps s) < 2 ^ 32"
    and ok: "boot_ok childInv cs lr q" and new: "newMLPf nm cn cs act ticks lr er dbg cpu t q w = (n, w')"
    and same: "qfileName n = qfileName s" "map childName cs = map childName (children s)" and now: "now \<le> now + ticks"
  shows "update_event s = Some (ei_now inp + epoch_ticks s0) \<and>
    (\<exists>s'. startup childOps now found w' n = Inr s' \<and> update_event s' = Some (now + ticks) \<and>
      qTable s' = qTable s \<and> (\<forall>st. sized_row s' st = sized_row s st))"
proof -
  have run': "ml_run childOps childInv s w" using ml_run.epoch [OF run epoch] .
  note l = updateModel_leaves [OF run epoch writable]
  have n: "children n = cs" "epoch_ticks n = ticks" "numActions n = int (length cs) + 1"
    using new by (auto simp: newMLPf_def QueuedPf.defs)
  have sg: "childrenSignature childOps n = childrenSignature childOps s"
    using arg_cong [OF same(2), of "\<lambda>ns. concat (map (\<lambda>n. n @ '';'') ns)"]
    by (simp add: childrenSignature_def childOps_def comp_def n(1))
  have "fileData w' (qfileName n) = Some (take (length (saved_bytes s)) (saved_bytes s))"
    using l(1) newMLPf_good(2) [OF ok new] same(1) by simp
  from load_prefix [OF run' sig this] have load: "loadQTable childOps w' n = Inr (n\<lparr>qTable := qTable s, qtableLoaded := True\<rparr>)"
    using length_saved [OF sig] sg by simp
  obtain s' where s': "startup childOps now found w' n = Inr s'" "qTable s' = qTable s" "numActions s' = int (length cs) + 1"
    "update_event s' = Some (now + ticks)"
    using startup_table [OF load, of now found] now n by auto
  have "numActions s = int (length cs) + 1"
    using run_wf(6) [OF run'] map_eq_imp_length_eq [OF same(2)] by (simp add: actions_wf_def)
  then have "\<forall>st. sized_row s' st = sized_row s st" using s' by (simp add: sized_row_def)
  then show ?thesis using l(2) s' by blast
qed

lemma ex_epoch: "\<exists>s w. updateModel childOps ex_input ex_ml ex_world = Inr (s, w)"
proof -
  have "epoch_ticks (fst (endEpoch ex_input ex_ml ex_world)) = 1000"
    by (rule endEpoch_facts [OF run_wf(1) [OF ex_ml_run], where inp = ex_input and w = ex_world])
      (simp add: measured_def ex_ml_def newMLPf_def QueuedPf.defs)
  moreover have "ei_now ex_input = 1000" by (simp add: ex_input_def)
  ultimately show ?thesis by (simp add: updateModel_def case_prod_beta Let_def schedule_def)
qed

theorem epoch_survives_restart_witness:
  "\<exists>s w s'. updateModel childOps ex_input ex_ml ex_world = Inr (s, w) \<and> qTable s' = qTable s \<and>
    startup childOps 5000 None w
      (fst (newMLPf ''again'' ''l2'' ex_children 0 1000 (1 / 2) 0 False None 7 (ex_queued [] []) w)) = Inr s'"
proof -
  obtain s w where e: "updateModel childOps ex_input ex_ml ex_world = Inr (s, w)" using ex_epoch by blast
  have writable: "canWrite ex_world (qfileName ex_ml)" by (simp add: ex_world_def)
  note l = updateModel_leaves(3,4) [OF ex_ml_run e writable, unfolded ex_ml_fields]
  let ?n = "fst (newMLPf ''again'' ''l2'' ex_children 0 1000 (1 / 2) 0 False None 7 (ex_queued [] []) w)"
  have ok: "boot_ok childInv ex_children (1 / 2) (ex_queued [] [])"
    using ex_base_wf [of "[]" "[]"]
    by (simp add: boot_ok_def ex_children_def queued_wf_def roomy_def) (simp add: ex_queued_def)
  have new: "newMLPf ''again'' ''l2'' ex_children 0 1000 (1 / 2) 0 False None 7 (ex_queued [] []) w = (?n, w)"
    by (simp add: newMLPf_def open_csv_def)
  have n: "qfileName ?n = qfileName s" unfolding l(2) by (simp add: newMLPf_def QueuedPf.defs qfile_name_def isalnum_def)
  have sig: "length (childrenSignature childOps s) < 2 ^ 32"
    by (simp add: childrenSignature_def l(1) ex_children_def childOps_def)
  have "map childName ex_children = map childName (children s)" by (simp add: l(1))
  from epoch_survives_restart [OF ex_ml_run e writable sig ok new n this, of 5000 None]
  obtain s' where "startup childOps 5000 None w ?n = Inr s'" "qTable s' = qTable s" by auto
  then show ?thesis using e by blast
qed

text \<open>The children the repository documents: a conservative and an aggressive stride prefetcher and
  a tagged one.\<close>

definition documented_children :: "Child list" where
  "documented_children =
     [StrideChild ''stride1'' (\<lambda>_. \<lparr>rp_tick = 0, rp_draw = 0\<rparr>) (ex_stride\<lparr>st_degree := 1, st_distance := 1\<rparr>),
      StrideChild ''stride4'' (\<lambda>_. \<lparr>rp_tick = 0, rp_draw = 0\<rparr>) (ex_stride\<lparr>st_degree := 4, st_distance := 2\<rparr>),
      TaggedChild ''tagged'' ex_tagged]"

theorem restart_succeeds_witness:
  "\<exists>s'. startup childOps 5000 None ex_world (fst (newMLPf ''pf'' ''l2'' documented_children 0 1000 (1 / 2) (1 / 10) False
      (Some 0) 0 (ex_queued [] []) ex_world)) = Inr s' \<and> ml_run childOps childInv s' ex_world"
proof -
  have "stride_ok (\<lambda>_. True) (ex_stride\<lparr>st_degree := d, st_distance := e\<rparr>)" for d e
    using ex_stride_ok by (simp add: stride_ok_def)
  then have ok: "boot_ok childInv documented_children (1 / 2) (ex_queued [] [])"
    using ex_base_wf [of "[]" "[]"]
    by (simp add: boot_ok_def documented_children_def queued_wf_def roomy_def) (simp add: ex_queued_def)
  have new: "newMLPf ''pf'' ''l2'' documented_children 0 1000 (1 / 2) (1 / 10) False (Some 0) 0 (ex_queued [] []) ex_world
      = (fst (newMLPf ''pf'' ''l2'' documented_children 0 1000 (1 / 2) (1 / 10) False (Some 0) 0 (ex_queued [] []) ex_world), ex_world)"
    by (simp add: newMLPf_def open_csv_def)
  show ?thesis by (rule restart_succeeds [OF ex_ml_run ok new]) simp
qed

end
