(* ===== verification/Rrip.thy ===== *)
theory Rrip
  imports Replacement MemPacket
begin

text \<open>
  The re-reference interval policies of \<open>mem/cache/replacement_policies\<close>: BRRIP
  (\<open>brrip_rp.cc\<close>) and the signature predictors built on it, SHiPMem and SHiPPC (\<open>ship_rp.cc\<close>).
  The data of SHiP extends the data of BRRIP, as its class does. SHiP needs the packet of an access;
  the calls of the common interface, which carry none, panic.
\<close>

section \<open>BRRIP\<close>

record BRRIPReplData =
  rrpv :: SatCounter8
  br_valid :: bool

record BRRIPParams =
  numRRPVBits :: nat
  hitPriority :: bool
  btp :: nat

definition newBRRIP :: "BRRIPParams \<Rightarrow> BRRIPParams result" where
  "newBRRIP p = (if numRRPVBits p = 0 then Inl (Fatal ''There should be at least one bit per RRPV.'') else Inr p)"

definition newBRRIPReplData :: "nat \<Rightarrow> BRRIPReplData result" where
  "newBRRIPReplData num_bits =
     bindR (newSatCounter8 num_bits 0) (\<lambda>c. Inr \<lparr>rrpv = c, br_valid = False\<rparr>)"

definition brrip_invalidate :: "'a BRRIPReplData_scheme \<Rightarrow> 'a BRRIPReplData_scheme" where
  "brrip_invalidate d = d\<lparr>br_valid := False\<rparr>"

definition brrip_touch :: "BRRIPParams \<Rightarrow> 'a BRRIPReplData_scheme \<Rightarrow> 'a BRRIPReplData_scheme" where
  "brrip_touch p d = d\<lparr>rrpv := (if hitPriority p then sc_reset (rrpv d) else sc_decr (rrpv d))\<rparr>"

definition brrip_reset :: "BRRIPParams \<Rightarrow> RpInput \<Rightarrow> 'a BRRIPReplData_scheme \<Rightarrow> 'a BRRIPReplData_scheme" where
  "brrip_reset p inp d =
     (let c = snd (saturate (rrpv d));
          c' = (if rand_range 1 100 inp \<le> btp p then sc_decr c else c)
      in d\<lparr>rrpv := c', br_valid := True\<rparr>)"

definition brrip_age :: "int \<Rightarrow> 'a BRRIPReplData_scheme \<Rightarrow> 'a BRRIPReplData_scheme" where
  "brrip_age diff d = d\<lparr>rrpv := sc_add (rrpv d) diff\<rparr>"

definition brrip_victim :: "'a BRRIPReplData_scheme list \<Rightarrow> nat \<times> 'a BRRIPReplData_scheme list" where
  "brrip_victim ds =
     (if list_ex (\<lambda>d. \<not> br_valid d) ds then (first_index (\<lambda>d. \<not> br_valid d) 0 ds, ds)
      else
        let v = best_index (\<lambda>c v. counter (rrpv c) > counter (rrpv v)) ds;
            (diff, c) = saturate (rrpv (ds ! v));
            ds' = ds[v := (ds ! v)\<lparr>rrpv := c\<rparr>]
        in (v, if diff > 0 then map (brrip_age (uint diff)) ds' else ds'))"

definition brrip :: "BRRIPParams \<Rightarrow> (unit, BRRIPReplData) ReplPolicy" where
  "brrip p = \<lparr>instantiateEntry = (\<lambda>g. bindR (newBRRIPReplData (numRRPVBits p)) (\<lambda>d. Inr (d, g))),
     rp_touch = (\<lambda>inp d g. Inr (brrip_touch p d, g)),
     rp_reset = (\<lambda>inp d g. Inr (brrip_reset p inp d, g)),
     rp_invalidate = (\<lambda>d g. Inr (brrip_invalidate d, g)),
     getVictim = (\<lambda>inp ds g. if ds = [] then Inl (AssertFailed ''getVictim'')
                             else let (i, ds') = brrip_victim ds in Inr (i, ds', g))\<rparr>"

section \<open>SHiP\<close>

record SHiPReplData = BRRIPReplData +
  signature :: nat
  outcome :: bool

record SHiPParams =
  ship_brrip :: BRRIPParams
  insertion_threshold :: nat
  shct_size :: nat

definition newSHiP :: "SHiPParams \<Rightarrow> (SHiPParams \<times> SatCounter8 list) result" where
  "newSHiP p =
     bindR (newBRRIP (ship_brrip p)) (\<lambda>_.
     bindR (newSatCounter8 (numRRPVBits (ship_brrip p)) 0) (\<lambda>c. Inr (p, replicate (shct_size p) c)))"

definition insertionThreshold :: "SHiPParams \<Rightarrow> rat" where
  "insertionThreshold p = fdiv (rat_of_nat (insertion_threshold p)) 100"

definition newSHiPReplData :: "nat \<Rightarrow> SHiPReplData result" where
  "newSHiPReplData num_bits =
     bindR (newSatCounter8 num_bits 0) (\<lambda>c. Inr \<lparr>rrpv = c, br_valid = False, signature = 0, outcome = False\<rparr>)"

definition setSignature :: "nat \<Rightarrow> SHiPReplData \<Rightarrow> SHiPReplData" where
  "setSignature s d = d\<lparr>signature := s, outcome := False\<rparr>"

text \<open>The two predictors: the signature of a packet is its address, or the program counter of its
  request, modulo the size of the table.\<close>

datatype Signature = ByMem | ByPC

definition getSignature :: "Signature \<Rightarrow> nat \<Rightarrow> Packet \<Rightarrow> nat result" where
  "getSignature k n pkt =
     (case k of
        ByMem \<Rightarrow> bindR (getAddr pkt) (\<lambda>a. if n = 0 then Inl (NotFinite ''modulo 0'') else Inr (unat a mod n))
      | ByPC \<Rightarrow> (let s = (case req_pc (req pkt) of Some pc \<Rightarrow> unat pc | None \<Rightarrow> 0)
                in if n = 0 then Inl (NotFinite ''modulo 0'') else Inr (s mod n)))"

definition shct_update :: "(SatCounter8 \<Rightarrow> SatCounter8) \<Rightarrow> nat \<Rightarrow> SatCounter8 list \<Rightarrow> SatCounter8 list result" where
  "shct_update f s SHCT =
     (if s < length SHCT then Inr (SHCT[s := f (SHCT ! s)]) else Inl (OutOfRange ''SHCT''))"

definition ship_invalidate :: "SHiPReplData \<Rightarrow> SatCounter8 list \<Rightarrow> (SHiPReplData \<times> SatCounter8 list) result" where
  "ship_invalidate d SHCT =
     bindR (if outcome d then shct_update sc_decr (signature d) SHCT else Inr SHCT)
       (\<lambda>SHCT'. Inr (brrip_invalidate d, SHCT'))"

definition ship_touch :: "SHiPParams \<Rightarrow> Signature \<Rightarrow> Packet \<Rightarrow> SHiPReplData \<Rightarrow> SatCounter8 list \<Rightarrow>
    (SHiPReplData \<times> SatCounter8 list) result" where
  "ship_touch p k pkt d SHCT =
     bindR (getSignature k (length SHCT) pkt) (\<lambda>s.
     bindR (shct_update sc_incr s SHCT) (\<lambda>SHCT'.
       Inr (brrip_touch (ship_brrip p) (d\<lparr>outcome := True\<rparr>), SHCT')))"

definition ship_reset :: "SHiPParams \<Rightarrow> Signature \<Rightarrow> RpInput \<Rightarrow> Packet \<Rightarrow> SHiPReplData \<Rightarrow> SatCounter8 list \<Rightarrow>
    (SHiPReplData \<times> SatCounter8 list) result" where
  "ship_reset p k inp pkt d SHCT =
     bindR (getSignature k (length SHCT) pkt) (\<lambda>s.
       let d' = brrip_reset (ship_brrip p) inp (setSignature s d)
       in if s < length SHCT
          then Inr (if saturation_geq (SHCT ! s) (insertionThreshold p)
                    then d'\<lparr>rrpv := sc_decr (rrpv d')\<rparr> else d', SHCT)
          else Inl (OutOfRange ''SHCT''))"

definition ship :: "SHiPParams \<Rightarrow> (SatCounter8 list, SHiPReplData) ReplPolicy" where
  "ship p = \<lparr>instantiateEntry = (\<lambda>g. bindR (newSHiPReplData (numRRPVBits (ship_brrip p))) (\<lambda>d. Inr (d, g))),
     rp_touch = (\<lambda>inp d g. Inl (Panic ''Cant train SHiP's predictor without access information.'')),
     rp_reset = (\<lambda>inp d g. Inl (Panic ''Cant train SHiP's predictor without access information.'')),
     rp_invalidate = ship_invalidate,
     getVictim = (\<lambda>inp ds g. if ds = [] then Inl (AssertFailed ''getVictim'')
                             else let (i, ds') = brrip_victim ds in Inr (i, ds', g))\<rparr>"

section \<open>Lemmas\<close>

definition brrip_data_ok :: "BRRIPParams \<Rightarrow> 'a BRRIPReplData_scheme \<Rightarrow> bool" where
  "brrip_data_ok p d \<longleftrightarrow> sc_wf (rrpv d) \<and> maxVal (rrpv d) = max_of_bits (numRRPVBits p)"

lemma newSatCounter8_max: "newSatCounter8 n v = Inr c \<Longrightarrow> maxVal c = max_of_bits n"
  by (auto simp: newSatCounter8_def Let_def split: if_splits)

lemma brrip_op_ok:
  "brrip_data_ok p d \<Longrightarrow> brrip_data_ok p (brrip_touch q d)"
  "brrip_data_ok p d \<Longrightarrow> brrip_data_ok p (brrip_reset q inp d)"
  "brrip_data_ok p d \<Longrightarrow> brrip_data_ok p (brrip_invalidate d)"
  "brrip_data_ok p d \<Longrightarrow> brrip_data_ok p (brrip_age z d)"
  "brrip_data_ok p d \<Longrightarrow> brrip_data_ok p (d\<lparr>rrpv := snd (saturate (rrpv d))\<rparr>)"
  by (auto simp: brrip_data_ok_def brrip_touch_def brrip_reset_def brrip_invalidate_def brrip_age_def Let_def)

lemma new_brrip_ok: "newBRRIPReplData n = Inr d \<Longrightarrow> n = numRRPVBits p \<Longrightarrow> brrip_data_ok p d \<and> \<not> br_valid d"
  by (auto simp: newBRRIPReplData_def brrip_data_ok_def newSatCounter8_max intro: newSatCounter8_wf)

lemma best_index_max:
  fixes key :: "'d \<Rightarrow> nat"
  assumes "d \<in> set ds"
  shows "key d \<le> key (ds ! best_index (\<lambda>c v. key c > key v) ds)"
  using best_index_min [OF assms, of "\<lambda>d. - int (key d)"] by simp

definition rank :: "'a BRRIPReplData_scheme \<Rightarrow> nat" where
  "rank d = sc_val (rrpv d)"

lemma brrip_scan_rank:
  "best_index (\<lambda>c v. counter (rrpv c) > counter (rrpv v)) ds = best_index (\<lambda>c v. rank c > rank v) ds"
  by (simp add: rank_def sc_val_def word_less_nat_alt)

lemma rank_bound:
  "brrip_data_ok p d \<Longrightarrow> sc_wf (rrpv d) \<and> sc_max (rrpv d) = unat (max_of_bits (numRRPVBits p)) \<and>
    rank d \<le> unat (max_of_bits (numRRPVBits p))"
  using sc_wf_le [of "rrpv d"] by (simp add: brrip_data_ok_def rank_def sc_max_def)

lemma rank_saturated:
  "sc_wf (rrpv d) \<Longrightarrow> rank (d\<lparr>rrpv := snd (saturate (rrpv d))\<rparr>) = sc_max (rrpv d)"
  by (simp add: rank_def)

lemma unat_diff: "sc_wf c \<Longrightarrow> unat (fst (saturate c)) = sc_max c - sc_val c"
  by (simp add: saturate_def sc_wf_def sc_max_def sc_val_def unat_sub)

lemma rank_age: "sc_wf (rrpv d) \<Longrightarrow> rank (brrip_age (int n) d) = min (sc_max (rrpv d)) (rank d + n)"
  by (simp add: rank_def brrip_age_def sc_val_add min_def nat_int_add)

lemma brrip_age_facts:
  assumes "brrip_data_ok p d" "br_valid d"
  shows "brrip_data_ok p (if 0 < n then brrip_age (int n) d else d) \<and>
    br_valid (if 0 < n then brrip_age (int n) d else d) \<and>
    rank (if 0 < n then brrip_age (int n) d else d) = min (unat (max_of_bits (numRRPVBits p))) (rank d + n)"
  using assms rank_bound [OF assms(1)] by (auto simp: brrip_op_ok rank_age) (auto simp: brrip_age_def)

lemma brrip_victim_invalid:
  assumes "d \<in> set ds" "\<not> br_valid d"
  shows "brrip_victim ds = (first_index (\<lambda>d. \<not> br_valid d) 0 ds, ds)"
  using assms by (auto simp: brrip_victim_def list_ex_iff)

text \<open>With only valid candidates, the victim is one of the largest ranks, and every candidate is aged
  by the distance of the victim to the maximum. No counter is clamped.\<close>

lemma brrip_victim_valid:
  assumes ne: "ds \<noteq> []" and ok: "list_all (brrip_data_ok p) ds" and v: "list_all br_valid ds"
    and r: "brrip_victim ds = (i, ds')"
  shows "i < length ds \<and> (\<forall>d \<in> set ds. rank d \<le> rank (ds ! i)) \<and> length ds' = length ds \<and>
    (\<forall>j < length ds. brrip_data_ok p (ds' ! j) \<and> br_valid (ds' ! j) \<and>
       rank (ds' ! j) = rank (ds ! j) + (unat (max_of_bits (numRRPVBits p)) - rank (ds ! i)))"
proof -
  let ?M = "unat (max_of_bits (numRRPVBits p))"
  let ?i = "best_index (\<lambda>c v. rank c > rank v) ds"
  let ?u = "(ds ! ?i)\<lparr>rrpv := snd (saturate (rrpv (ds ! ?i)))\<rparr>"
  let ?ds = "ds[?i := ?u]"
  let ?n = "?M - rank (ds ! ?i)"
  have il: "?i < length ds" using ne by (rule best_index_less)
  have mx: "rank d \<le> rank (ds ! ?i)" if "d \<in> set ds" for d using that by (rule best_index_max)
  have okj: "brrip_data_ok p (ds ! j)" "br_valid (ds ! j)" if "j < length ds" for j
    using ok v that by (simp_all add: list_all_length)
  have M: "sc_max (rrpv d) = ?M" if "brrip_data_ok p d" for d :: "'a BRRIPReplData_scheme"
    using that by (simp add: brrip_data_ok_def sc_max_def)
  have diff: "uint (fst (saturate (rrpv (ds ! ?i)))) = int ?n"
    using unat_diff [of "rrpv (ds ! ?i)"] okj [OF il] M by (simp add: uint_nat brrip_data_ok_def rank_def)
  have noinv: "\<not> list_ex (\<lambda>d. \<not> br_valid d) ds" using v by (auto simp: list_ex_iff list_all_iff)
  have pos: "0 < fst (saturate (rrpv (ds ! ?i))) \<longleftrightarrow> 0 < ?n"
    unfolding word_less_alt diff by simp
  have "brrip_victim ds = (?i, if 0 < ?n then map (brrip_age (int ?n)) ?ds else ?ds)"
    by (simp only: brrip_victim_def brrip_scan_rank noinv Let_def case_prod_beta pos diff if_False)
  then have i: "i = ?i" and ds': "ds' = (if 0 < ?n then map (brrip_age (int ?n)) ?ds else ?ds)"
    using r by simp_all
  have "brrip_data_ok p (ds' ! j) \<and> br_valid (ds' ! j) \<and> rank (ds' ! j) = rank (ds ! j) + ?n" if j: "j < length ds" for j
  proof -
    have "rank (ds ! j) \<le> rank (ds ! ?i)" "rank (ds ! ?i) \<le> ?M"
      using mx [of "ds ! j"] j rank_bound [OF okj(1) [OF il]] by simp_all
    moreover have "brrip_data_ok p ?u" "rank ?u = ?M" "br_valid ?u"
      using okj [OF il] M by (auto intro: brrip_op_ok simp: rank_saturated brrip_data_ok_def)
    then have "brrip_data_ok p (?ds ! j) \<and> br_valid (?ds ! j) \<and> rank (?ds ! j) = (if j = ?i then ?M else rank (ds ! j))"
      using okj [OF j] j by (cases "j = ?i") simp_all
    moreover have "ds' ! j = (if 0 < ?n then brrip_age (int ?n) (?ds ! j) else ?ds ! j)"
      using j unfolding ds' by simp
    ultimately show ?thesis using brrip_age_facts [of p "?ds ! j" ?n] by (simp split: if_splits)
  qed
  then show ?thesis using i il mx ds' by auto
qed

lemma brrip_victim_total:
  assumes "ds \<noteq> []" "list_all (brrip_data_ok p) ds" "brrip_victim ds = (i, ds')"
  shows "i < length ds \<and> length ds' = length ds \<and> list_all (brrip_data_ok p) ds'"
proof (cases "list_all br_valid ds")
  case True
  then show ?thesis using brrip_victim_valid [OF assms(1,2) True assms(3)] by (simp add: list_all_length)
next
  case False
  then obtain d where "d \<in> set ds" "\<not> br_valid d" by (auto simp: list_all_iff)
  then show ?thesis
    using brrip_victim_invalid [of d ds] assms first_index_less [of 0 ds] by simp
qed

interpretation brrip_rp: invalid_first "brrip p" "brrip_data_ok p" "\<lambda>d. \<not> br_valid d" for p
proof (unfold_locales, goal_cases)
  case (5 ds inp g)
  obtain i ds' where r: "brrip_victim ds = (i, ds')" by (cases "brrip_victim ds")
  show ?case using brrip_victim_total [OF 5 r] r 5(1) by (simp add: brrip_def)
next
  case (7 d ds inp g i ds' g')
  then show ?case
    using brrip_victim_invalid [of d ds] first_index_holds [of d ds "\<lambda>d. \<not> br_valid d" 0]
    by (auto simp: brrip_def split: if_splits)
qed (auto simp: brrip_def brrip_op_ok brrip_invalidate_def [where 'a = unit] dest: new_brrip_ok,
     simp add: brrip_data_ok_def)

lemma ship_reset_result:
  assumes "ship_reset p k inp pkt d S = Inr (d1, S1)"
  shows "S1 = S \<and> signature d1 < length S \<and> \<not> outcome d1 \<and> getSignature k (length S) pkt = Inr (signature d1)"
  using assms by (auto simp: ship_reset_def Let_def brrip_reset_def setSignature_def split: if_splits)

lemma ship_touch_result:
  assumes "getSignature k (length S) pkt = Inr s" "s < length S"
  shows "ship_touch p k pkt d S = Inr (brrip_touch (ship_brrip p) (d\<lparr>outcome := True\<rparr>), S[s := sc_incr (S ! s)])"
  using assms by (simp add: ship_touch_def shct_update_def)

lemma brrip_touch_ship [simp]:
  "signature (brrip_touch p d) = signature d" "outcome (brrip_touch p d) = outcome d"
  by (simp_all add: brrip_touch_def)

section \<open>Properties\<close>

text \<open>C26: Re-reference prediction values stay well formed and order the candidates. When all
  candidates are valid, BRRIP evicts one of the largest value, raises that value to the maximum
  and ages every candidate by exactly that distance: the differences between candidates are kept
  and no counter is cut off at its limit.\<close>

theorem brrip_aging_exact:
  assumes "ds \<noteq> []" "list_all (brrip_data_ok p) ds" "list_all br_valid ds"
  shows "\<exists>i ds'. getVictim (brrip p) inp ds () = Inr (i, ds', ()) \<and> i < length ds \<and> length ds' = length ds \<and>
    (\<forall>d \<in> set ds. rank d \<le> rank (ds ! i)) \<and> rank (ds' ! i) = unat (max_of_bits (numRRPVBits p)) \<and>
    (\<forall>j < length ds. brrip_data_ok p (ds' ! j) \<and>
       rank (ds' ! j) = rank (ds ! j) + (unat (max_of_bits (numRRPVBits p)) - rank (ds ! i)))"
proof -
  obtain i ds' where r: "brrip_victim ds = (i, ds')" by (cases "brrip_victim ds")
  note v = brrip_victim_valid [OF assms r]
  then have "rank (ds ! i) \<le> unat (max_of_bits (numRRPVBits p))"
    using assms(2) rank_bound [of p "ds ! i"] by (simp add: list_all_length)
  then show ?thesis using v r assms(1) by (intro exI [of _ i] exI [of _ ds']) (simp add: brrip_def)
qed

abbreviation sample_rrpv :: "u8 \<Rightarrow> BRRIPReplData" where
  "sample_rrpv c \<equiv> \<lparr>rrpv = \<lparr>initialVal = 0, maxVal = 3, counter = c\<rparr>, br_valid = True\<rparr>"

theorem brrip_aging_exact_witness:
  "\<exists>i ds'. getVictim (brrip \<lparr>numRRPVBits = 2, hitPriority = False, btp = 3\<rparr>) \<lparr>rp_tick = 0, rp_draw = 0\<rparr>
      [sample_rrpv 0, sample_rrpv 2] () = Inr (i, ds', ()) \<and> i < 2 \<and> length ds' = 2 \<and> rank (ds' ! i) = 3"
proof -
  let ?p = "\<lparr>numRRPVBits = 2, hitPriority = False, btp = 3\<rparr>"
  have m: "max_of_bits 2 = 3" by (simp add: max_of_bits_def push_bit_eq_mult)
  then have ok: "list_all (brrip_data_ok ?p) [sample_rrpv 0, sample_rrpv 2]"
    by (simp add: brrip_data_ok_def sc_wf_def)
  from brrip_aging_exact [OF _ ok, of "\<lparr>rp_tick = 0, rp_draw = 0\<rparr>"] show ?thesis by (auto simp: m)
qed

text \<open>C37: The SHiP predictor learns in the wrong direction on an invalidation. A line that is
  inserted and invalidated without a hit leaves the predictor as it was, although the comment says
  the predictor is detrained then. A line that was hit once by the same signature detrains it: the
  counter of the signature ends at or below where it started.\<close>

theorem ship_detrains_reused_lines:
  assumes "ship_reset p k inp pkt d S = Inr (d1, S1)"
  shows "\<exists>s < length S. signature d1 = s \<and> ship_invalidate d1 S1 = Inr (brrip_invalidate d1, S) \<and>
    (\<exists>d2 S2. ship_touch p k pkt d1 S1 = Inr (d2, S2) \<and>
      ship_invalidate d2 S2 = Inr (brrip_invalidate d2, S[s := sc_decr (sc_incr (S ! s))]) \<and>
      (sc_wf (S ! s) \<longrightarrow> sc_val (sc_decr (sc_incr (S ! s))) \<le> sc_val (S ! s)))"
proof -
  note r = ship_reset_result [OF assms]
  then have t: "ship_touch p k pkt d1 S1 = Inr (brrip_touch (ship_brrip p) (d1\<lparr>outcome := True\<rparr>),
      S[signature d1 := sc_incr (S ! signature d1)])"
    by (simp add: ship_touch_result)
  show ?thesis unfolding t using r
    by (intro exI [of _ "signature d1"]) (simp add: ship_invalidate_def shct_update_def sc_val_decr sc_val_incr le_diff_conv)
qed

abbreviation sample_ship :: SHiPParams where
  "sample_ship \<equiv> \<lparr>ship_brrip = \<lparr>numRRPVBits = 2, hitPriority = False, btp = 3\<rparr>,
    insertion_threshold = 1, shct_size = 1\<rparr>"

abbreviation sample_line :: SHiPReplData where
  "sample_line \<equiv> \<lparr>rrpv = \<lparr>initialVal = 0, maxVal = 3, counter = 0\<rparr>, br_valid = False,
    signature = 0, outcome = False\<rparr>"

abbreviation sample_packet :: Packet where
  "sample_packet \<equiv> \<lparr>cmd = ReadReq, pkt_addr = Some 64, pkt_secure = False, pkt_size = 64,
    pkt_expressSnoop = False, pkt_data = [], req = physRequest 64 64 0 0\<rparr>"

theorem ship_detrains_reused_lines_witness:
  "\<exists>d1 S1. ship_reset sample_ship ByMem \<lparr>rp_tick = 0, rp_draw = 0\<rparr> sample_packet sample_line
      [\<lparr>initialVal = 0, maxVal = 3, counter = 1\<rparr>] = Inr (d1, S1) \<and>
    ship_invalidate d1 S1 = Inr (brrip_invalidate d1, [\<lparr>initialVal = 0, maxVal = 3, counter = 1\<rparr>])"
proof -
  obtain d1 S1 where r: "ship_reset sample_ship ByMem \<lparr>rp_tick = 0, rp_draw = 0\<rparr> sample_packet sample_line
      [\<lparr>initialVal = 0, maxVal = 3, counter = 1\<rparr>] = Inr (d1, S1)"
    by (simp add: ship_reset_def getSignature_def getAddr_def Let_def)
  then show ?thesis using ship_detrains_reused_lines [OF r] by blast
qed

text \<open>A table that uses the packet-free interface cannot use SHiP: touching and resetting an entry
  panic for every entry and every state of the predictor.\<close>

lemma ship_needs_packets:
  "(\<exists>m. rp_touch (ship p) inp d g = Inl (Panic m)) \<and> (\<exists>m. rp_reset (ship p) inp d g = Inl (Panic m))"
  by (simp add: ship_def)

end
