(* ===== verification/TreePLRU.thy ===== *)
theory TreePLRU
  imports Replacement
begin

text \<open>
  The tree pseudo-LRU policy (\<open>mem/cache/replacement_policies/tree_plru_rp.cc\<close>). A tree is an
  array of bits, one per inner node, shared by \<open>numLeaves\<close> entries; the trees live in a store and
  an entry holds the position of its tree there. Node numbers are natural numbers: an index never
  leaves the range of the tree by more than a factor of two, except that the parent of node 0 is
  computed as \<open>(0 - 1) / 2\<close> in 64 bits, which the detour through a double rounds to 2 to the 63.
\<close>

definition parentIndex :: "nat \<Rightarrow> nat" where
  "parentIndex index = (if index = 0 then 2 ^ 63 else (index - 1) div 2)"

definition leftSubtreeIndex :: "nat \<Rightarrow> nat" where
  "leftSubtreeIndex index = 2 * index + 1"

definition rightSubtreeIndex :: "nat \<Rightarrow> nat" where
  "rightSubtreeIndex index = 2 * index + 2"

definition isRightSubtree :: "nat \<Rightarrow> bool" where
  "isRightSubtree index \<longleftrightarrow> index mod 2 = 0"

record TreePLRUReplData =
  pl_index :: nat
  pl_tree :: nat

record TreePLRUState =
  pl_count :: nat
  pl_trees :: "bool list list"

definition newTreePLRU :: "nat \<Rightarrow> TreePLRUState result" where
  "newTreePLRU numLeaves =
     (if numLeaves < 1 then Inl (Fatal ''numLeaves should never be 0'')
      else Inr \<lparr>pl_count = 0, pl_trees = []\<rparr>)"

text \<open>The loop of \<open>touch\<close> and \<open>invalidate\<close> up to the root, with the value written at each node as a
  function of the side it was reached from.\<close>

function plru_up :: "(bool \<Rightarrow> bool) \<Rightarrow> nat \<Rightarrow> bool list \<Rightarrow> bool list result" where
  "plru_up f i tree =
     (let right = isRightSubtree i; p = parentIndex i
      in if p < length tree
         then (if p \<noteq> 0 then plru_up f p (tree[p := f right]) else Inr (tree[p := f right]))
         else Inl (OutOfRange ''tree->at''))"
  by pat_completeness auto
termination
  by (relation "measure (\<lambda>(f, i, tree). if i = 0 then 2 ^ 63 + 1 else i)") (auto simp: parentIndex_def split: if_splits)

declare plru_up.simps [simp del]

definition plru_update :: "(bool \<Rightarrow> bool) \<Rightarrow> TreePLRUReplData \<Rightarrow> TreePLRUState \<Rightarrow>
    (TreePLRUReplData \<times> TreePLRUState) result" where
  "plru_update f d g =
     (if pl_tree d < length (pl_trees g)
      then bindR (plru_up f (pl_index d) (pl_trees g ! pl_tree d))
             (\<lambda>t. Inr (d, g\<lparr>pl_trees := (pl_trees g)[pl_tree d := t]\<rparr>))
      else Inl (NullDeref ''tree''))"

definition plru_invalidate :: "TreePLRUReplData \<Rightarrow> TreePLRUState \<Rightarrow> (TreePLRUReplData \<times> TreePLRUState) result" where
  "plru_invalidate = plru_update (\<lambda>right. right)"

definition plru_touch :: "TreePLRUReplData \<Rightarrow> TreePLRUState \<Rightarrow> (TreePLRUReplData \<times> TreePLRUState) result" where
  "plru_touch = plru_update (\<lambda>right. \<not> right)"

definition plru_reset :: "TreePLRUReplData \<Rightarrow> TreePLRUState \<Rightarrow> (TreePLRUReplData \<times> TreePLRUState) result" where
  "plru_reset = plru_touch"

function plru_walk :: "bool list \<Rightarrow> nat \<Rightarrow> nat" where
  "plru_walk tree i =
     (if i < length tree
      then plru_walk tree (if tree ! i then rightSubtreeIndex i else leftSubtreeIndex i) else i)"
  by pat_completeness auto
termination
  by (relation "measure (\<lambda>(tree, i). length tree - i)") (auto simp: rightSubtreeIndex_def leftSubtreeIndex_def)

declare plru_walk.simps [simp del]

definition plru_getVictim :: "nat \<Rightarrow> TreePLRUReplData list \<Rightarrow> TreePLRUState \<Rightarrow> nat result" where
  "plru_getVictim numLeaves ds g =
     (if ds = [] then Inl (AssertFailed ''getVictim'')
      else if pl_tree (hd ds) < length (pl_trees g)
      then (let i = plru_walk (pl_trees g ! pl_tree (hd ds)) 0
            in if i - (numLeaves - 1) < length ds then Inr (i - (numLeaves - 1)) else Inl (OutOfRange ''candidates''))
      else Inl (NullDeref ''tree''))"

text \<open>The 64-bit count of entries is a natural number here; no cache has so many.\<close>

definition plru_instantiateEntry :: "nat \<Rightarrow> TreePLRUState \<Rightarrow> TreePLRUReplData \<times> TreePLRUState" where
  "plru_instantiateEntry numLeaves g =
     (let trees = (if pl_count g mod numLeaves = 0
                   then pl_trees g @ [replicate (numLeaves - 1) False] else pl_trees g)
      in (\<lparr>pl_index = pl_count g mod numLeaves + numLeaves - 1, pl_tree = length trees - 1\<rparr>,
          g\<lparr>pl_trees := trees, pl_count := pl_count g + 1\<rparr>))"

definition tree_plru :: "nat \<Rightarrow> (TreePLRUState, TreePLRUReplData) ReplPolicy" where
  "tree_plru numLeaves = \<lparr>instantiateEntry = (\<lambda>g. Inr (plru_instantiateEntry numLeaves g)),
     rp_touch = (\<lambda>inp. plru_touch),
     rp_reset = (\<lambda>inp. plru_reset),
     rp_invalidate = plru_invalidate,
     getVictim = (\<lambda>inp ds g. bindR (plru_getVictim numLeaves ds g) (\<lambda>i. Inr (i, ds, g)))\<rparr>"

section \<open>Walking the tree\<close>

definition child_of :: "nat \<Rightarrow> bool \<Rightarrow> nat" where
  "child_of p right = (if right then rightSubtreeIndex p else leftSubtreeIndex p)"

lemma child_parent: "0 < i \<Longrightarrow> child_of (parentIndex i) (isRightSubtree i) = i"
  by (auto simp: child_of_def parentIndex_def isRightSubtree_def rightSubtreeIndex_def leftSubtreeIndex_def) presburger+

lemma parent_child: "parentIndex (child_of p right) = p"
  by (simp add: child_of_def parentIndex_def rightSubtreeIndex_def leftSubtreeIndex_def)

lemma parent_less: "0 < i \<Longrightarrow> parentIndex i < i"
  by (simp add: parentIndex_def)

lemma walk_inner: "i < length tree \<Longrightarrow> plru_walk tree i = plru_walk tree (child_of i (tree ! i))"
  by (simp add: plru_walk.simps [of tree i] child_of_def)

lemma walk_leaf: "length tree \<le> i \<Longrightarrow> plru_walk tree i = i"
  by (simp add: plru_walk.simps)

lemma walk_range:
  "i \<le> 2 * length tree \<Longrightarrow> length tree \<le> plru_walk tree i \<and> plru_walk tree i \<le> 2 * length tree"
proof (induction tree i rule: plru_walk.induct)
  case (1 tree i)
  show ?case
  proof (cases "i < length tree")
    case True
    then have "child_of i (tree ! i) \<le> 2 * length tree"
      by (simp add: child_of_def rightSubtreeIndex_def leftSubtreeIndex_def)
    then show ?thesis using "1.IH" [OF True] True by (simp add: walk_inner child_of_def)
  qed (use "1.prems" in \<open>simp add: walk_leaf\<close>)
qed

text \<open>The loop to the root writes the ancestors of a node and nothing else.\<close>

lemma up_total:
  assumes "0 < i" "parentIndex i < length tree"
  shows "\<exists>t. plru_up f i tree = Inr t \<and> length t = length tree \<and> t ! parentIndex i = f (isRightSubtree i) \<and>
    (\<forall>j. parentIndex i < j \<longrightarrow> t ! j = tree ! j)"
  using assms
proof (induction f i tree rule: plru_up.induct)
  case (1 f i tree)
  let ?p = "parentIndex i" and ?t = "tree[parentIndex i := f (isRightSubtree i)]"
  show ?case
  proof (cases "?p = 0")
    case True
    then show ?thesis using "1.prems" by (simp add: plru_up.simps [of f i] Let_def)
  next
    case False
    then have less: "parentIndex ?p < ?p" by (simp add: parent_less)
    then obtain t where t: "plru_up f ?p ?t = Inr t" "length t = length ?t"
        "\<forall>j. parentIndex ?p < j \<longrightarrow> t ! j = ?t ! j"
      using "1.IH" [OF refl refl "1.prems"(2) False] "1.prems"(2) False by auto
    have "t ! ?p = f (isRightSubtree i)" using t(3) less "1.prems"(2) by simp
    moreover have "t ! j = tree ! j" if "?p < j" for j using t(3) less that by simp
    ultimately show ?thesis using t(1,2) "1.prems"(2) False by (simp add: plru_up.simps [of f i] Let_def)
  qed
qed

lemma up_inner:
  assumes "parentIndex i < length tree" "parentIndex i \<noteq> 0"
  shows "plru_up f i tree = plru_up f (parentIndex i) (tree[parentIndex i := f (isRightSubtree i)])"
  using assms by (simp add: plru_up.simps [of f i] Let_def)

lemma up_towards:
  assumes "0 < i" "parentIndex i < length tree" "plru_up (\<lambda>right. right) i tree = Inr t"
  shows "plru_walk t 0 = plru_walk t i"
  using assms
proof (induction "\<lambda>right :: bool. right" i tree rule: plru_up.induct)
  case (1 i tree)
  let ?p = "parentIndex i"
  from up_total [OF "1.prems"(1,2), of "\<lambda>right. right"] "1.prems"(3)
  have t: "length t = length tree" "t ! ?p = isRightSubtree i" by auto
  then have step: "plru_walk t ?p = plru_walk t i"
    using walk_inner [of ?p t] child_parent [OF "1.prems"(1)] "1.prems"(2) by simp
  show ?case
  proof (cases "?p = 0")
    case False
    then have "plru_walk t 0 = plru_walk t ?p"
      using "1.hyps" [OF refl refl "1.prems"(2) False] "1.prems"(2,3) parent_less [of ?p] by (simp add: up_inner)
    then show ?thesis using step by simp
  qed (use step in simp)
qed

text \<open>The child of the root above a node.\<close>

function top_node :: "nat \<Rightarrow> nat" where
  "top_node i = (if i \<le> 2 then i else top_node (parentIndex i))"
  by pat_completeness auto
termination by (relation "measure id") (auto simp: parentIndex_def)

declare top_node.simps [simp del]

lemma top_node_parent:
  assumes "parentIndex i \<noteq> 0" "i \<noteq> 0"
  shows "top_node (parentIndex i) = top_node i"
proof -
  have "2 < i" using assms unfolding parentIndex_def by presburger
  then show ?thesis by (simp add: top_node.simps [of i])
qed

lemma top_node_child: "0 < p \<Longrightarrow> top_node (child_of p right) = top_node p"
  using top_node_parent [of "child_of p right"]
  by (simp add: parent_child) (simp add: child_of_def rightSubtreeIndex_def leftSubtreeIndex_def)

lemma walk_top: "0 < i \<Longrightarrow> top_node (plru_walk tree i) = top_node i"
proof (induction tree i rule: plru_walk.induct)
  case (1 tree i)
  show ?case
  proof (cases "i < length tree")
    case True
    have "0 < child_of i (tree ! i)" by (simp add: child_of_def rightSubtreeIndex_def leftSubtreeIndex_def)
    then show ?thesis using "1.IH" [OF True] "1.prems" True by (simp add: walk_inner top_node_child flip: child_of_def)
  qed (simp add: walk_leaf)
qed

lemma up_root:
  assumes "0 < i" "parentIndex i < length tree" "plru_up f i tree = Inr t"
  shows "t ! 0 = f (isRightSubtree (top_node i))"
  using assms
proof (induction f i tree rule: plru_up.induct)
  case (1 f i tree)
  show ?case
  proof (cases "parentIndex i = 0")
    case True
    then have "i \<le> 2" using "1.prems"(1) by (simp add: parentIndex_def split: if_splits) 
    then show ?thesis using up_total [OF "1.prems"(1,2), of f] "1.prems"(3) True by (auto simp: top_node.simps)
  next
    case False
    then show ?thesis
      using "1.IH" [OF refl refl "1.prems"(2) False] "1.prems" parent_less [of "parentIndex i"]
      by (simp add: up_inner top_node_parent)
  qed
qed

lemma up_away:
  assumes "0 < i" "parentIndex i < length tree" "plru_up (\<lambda>right. \<not> right) i tree = Inr t"
  shows "plru_walk t 0 \<noteq> i"
proof
  let ?c = "child_of 0 (\<not> isRightSubtree (top_node i))"
  assume i: "plru_walk t 0 = i"
  have "0 < length t" using up_total [OF assms(1,2), of "\<lambda>right. \<not> right"] assms(2,3) by auto
  then have "plru_walk t 0 = plru_walk t ?c"
    using walk_inner [of 0 t] up_root [OF assms] by simp
  moreover have c: "0 < ?c" "?c \<le> 2" by (simp_all add: child_of_def rightSubtreeIndex_def leftSubtreeIndex_def)
  ultimately have "top_node i = ?c" using walk_top [OF c(1), of t] i by (simp add: top_node.simps)
  then show False by (auto simp: child_of_def isRightSubtree_def rightSubtreeIndex_def leftSubtreeIndex_def split: if_splits)
qed

section \<open>The entries of a set\<close>

text \<open>The candidates of one set: \<open>numLeaves\<close> entries on one tree, in the order of its leaves.\<close>

definition plru_set :: "nat \<Rightarrow> TreePLRUState \<Rightarrow> TreePLRUReplData list \<Rightarrow> bool" where
  "plru_set n g ds \<longleftrightarrow> (\<exists>tr < length (pl_trees g). length (pl_trees g ! tr) = n - 1 \<and>
     ds = map (\<lambda>k. \<lparr>pl_index = k + n - 1, pl_tree = tr\<rparr>) [0..<n])"

primrec plru_instantiate_many :: "nat \<Rightarrow> nat \<Rightarrow> TreePLRUState \<Rightarrow> TreePLRUReplData list \<times> TreePLRUState" where
  "plru_instantiate_many numLeaves 0 g = ([], g)"
| "plru_instantiate_many numLeaves (Suc m) g =
     (let (ds, g') = plru_instantiate_many numLeaves m g; (d, g'') = plru_instantiateEntry numLeaves g'
      in (ds @ [d], g''))"

lemma trees_needed:
  assumes "0 < (n :: nat)"
  shows "(m + n - 1) div n = (if m mod n = 0 then m div n else m div n + 1)"
proof (cases "m mod n = 0")
  case True
  then have "m + n - 1 = (n - 1) + n * (m div n)" using assms mult_div_mod_eq [of n m] by linarith
  then have "(m + n - 1) div n = m div n + (n - 1) div n" using assms by (metis div_mult_self2 not_gr_zero)
  then show ?thesis using assms True by simp
next
  case False
  have "n * (m div n + 1) = n * (m div n) + n" by simp
  with False have "m + n - 1 = (m mod n - 1) + n * (m div n + 1)"
    using mult_div_mod_eq [of n m] by linarith
  then have "(m + n - 1) div n = (m div n + 1) + (m mod n - 1) div n" using assms by (metis div_mult_self2 not_gr_zero)
  moreover have "(m mod n - 1) div n = 0" using assms mod_less_divisor [of n m] by (intro div_less) linarith
  ultimately show ?thesis using False by simp
qed

lemma instantiate_many_shape:
  assumes "0 < n"
  shows "plru_instantiate_many n m \<lparr>pl_count = 0, pl_trees = []\<rparr>
    = (map (\<lambda>k. \<lparr>pl_index = k mod n + n - 1, pl_tree = k div n\<rparr>) [0..<m],
       \<lparr>pl_count = m, pl_trees = replicate ((m + n - 1) div n) (replicate (n - 1) False)\<rparr>)"
proof (induction m)
  case (Suc m)
  have "(Suc m + n - 1) div n = m div n + 1" using assms by simp
  then show ?case using Suc trees_needed [OF assms, of m] by (simp add: plru_instantiateEntry_def Let_def replicate_append_same)
qed (use assms in simp)

lemma leaf_parent:
  assumes "2 \<le> n" "k < n"
  shows "0 < k + n - 1 \<and> parentIndex (k + n - 1) < n - 1"
proof -
  have "(k + n - 1 - 1) div 2 < n - 1" by (rule less_mult_imp_div_less) (use assms in linarith)
  then show ?thesis using assms by (simp add: parentIndex_def)
qed

lemma plru_set_update:
  assumes set: "plru_set n g ds" and n: "2 \<le> n" and k: "k < n"
  shows "\<exists>t. plru_up f (k + n - 1) (pl_trees g ! pl_tree (hd ds)) = Inr t \<and> length t = n - 1 \<and>
    plru_update f (ds ! k) g = Inr (ds ! k, g\<lparr>pl_trees := (pl_trees g)[pl_tree (hd ds) := t]\<rparr>)"
proof -
  obtain tr where tr: "tr < length (pl_trees g)" "length (pl_trees g ! tr) = n - 1"
      "ds = map (\<lambda>k. \<lparr>pl_index = k + n - 1, pl_tree = tr\<rparr>) [0..<n]"
    using set by (auto simp: plru_set_def)
  have h: "pl_tree (hd ds) = tr" using tr(3) n by (simp add: hd_map)
  have dk: "ds ! k = \<lparr>pl_index = k + n - 1, pl_tree = tr\<rparr>" using tr(3) k by simp
  obtain t where "plru_up f (k + n - 1) (pl_trees g ! tr) = Inr t" "length t = n - 1"
    using leaf_parent [OF n k] up_total [of "k + n - 1" "pl_trees g ! tr" f] tr(2) by auto
  then show ?thesis using tr(1) by (simp add: plru_update_def h dk)
qed

lemma plru_set_victim:
  assumes "plru_set n g ds" "1 \<le> n"
  shows "plru_getVictim n ds g = Inr (plru_walk (pl_trees g ! pl_tree (hd ds)) 0 - (n - 1)) \<and>
    plru_walk (pl_trees g ! pl_tree (hd ds)) 0 - (n - 1) < n \<and>
    n - 1 \<le> plru_walk (pl_trees g ! pl_tree (hd ds)) 0"
proof -
  obtain tr where tr: "tr < length (pl_trees g)" "length (pl_trees g ! tr) = n - 1"
      "ds = map (\<lambda>k. \<lparr>pl_index = k + n - 1, pl_tree = tr\<rparr>) [0..<n]"
    using assms by (auto simp: plru_set_def)
  have h: "pl_tree (hd ds) = tr" "ds \<noteq> []" "length ds = n" using tr(3) assms(2) by (simp_all add: hd_map)
  have "n - 1 \<le> plru_walk (pl_trees g ! tr) 0 \<and> plru_walk (pl_trees g ! tr) 0 \<le> 2 * (n - 1)"
    using walk_range [of 0 "pl_trees g ! tr"] tr(2) by simp
  then show ?thesis using tr(1) assms(2) by (auto simp: plru_getVictim_def Let_def h)
qed

lemma plru_set_keep:
  assumes "plru_set n g ds" "length t = n - 1" "1 \<le> n"
  shows "plru_set n (g\<lparr>pl_trees := (pl_trees g)[pl_tree (hd ds) := t]\<rparr>) ds \<and>
    (pl_trees (g\<lparr>pl_trees := (pl_trees g)[pl_tree (hd ds) := t]\<rparr>)) ! pl_tree (hd ds) = t"
  using assms by (auto simp: plru_set_def hd_map)

section \<open>Properties\<close>

text \<open>C23: Tree pseudo-LRU does what it is for. The entries of a fresh table, taken in groups of
  \<open>numLeaves\<close>, form sets on a tree of their own. For every set, in every state of its tree, the
  victim search returns one of its candidates; an entry that is touched is not the next victim,
  and an entry that is invalidated is.\<close>

theorem tree_plru_victims:
  assumes n: "2 \<le> n" and set: "plru_set n g ds" and k: "k < n"
  shows "(\<exists>i < n. getVictim (tree_plru n) inp ds g = Inr (i, ds, g)) \<and>
    (\<exists>d g' i. rp_touch (tree_plru n) inp (ds ! k) g = Inr (d, g') \<and> plru_set n g' ds \<and>
       getVictim (tree_plru n) inp ds g' = Inr (i, ds, g') \<and> i < n \<and> i \<noteq> k) \<and>
    (\<exists>d g'. rp_invalidate (tree_plru n) (ds ! k) g = Inr (d, g') \<and> plru_set n g' ds \<and>
       getVictim (tree_plru n) inp ds g' = Inr (k, ds, g'))"
proof (intro conjI)
  have pos: "0 < k + n - 1" "parentIndex (k + n - 1) < n - 1"
    using leaf_parent [OF n k] by simp_all
  have tl: "length (pl_trees g ! pl_tree (hd ds)) = n - 1" using set n by (auto simp: plru_set_def hd_map)
  show "\<exists>i < n. getVictim (tree_plru n) inp ds g = Inr (i, ds, g)"
    using plru_set_victim [OF set] n by (simp add: tree_plru_def)
  obtain t where t: "plru_up (\<lambda>r. \<not> r) (k + n - 1) (pl_trees g ! pl_tree (hd ds)) = Inr t" "length t = n - 1"
      "plru_update (\<lambda>r. \<not> r) (ds ! k) g = Inr (ds ! k, g\<lparr>pl_trees := (pl_trees g)[pl_tree (hd ds) := t]\<rparr>)"
    using plru_set_update [OF set n k, of "\<lambda>r. \<not> r"] by auto
  note s = plru_set_keep [OF set t(2)]
  show "\<exists>d g' i. rp_touch (tree_plru n) inp (ds ! k) g = Inr (d, g') \<and> plru_set n g' ds \<and>
       getVictim (tree_plru n) inp ds g' = Inr (i, ds, g') \<and> i < n \<and> i \<noteq> k"
    using t(3) s n plru_set_victim [OF conjunct1 [OF s]] up_away [OF pos(1) _ t(1)] tl pos(2)
    by (auto simp: tree_plru_def plru_touch_def)
  obtain u where u: "plru_up (\<lambda>r. r) (k + n - 1) (pl_trees g ! pl_tree (hd ds)) = Inr u" "length u = n - 1"
      "plru_update (\<lambda>r. r) (ds ! k) g = Inr (ds ! k, g\<lparr>pl_trees := (pl_trees g)[pl_tree (hd ds) := u]\<rparr>)"
    using plru_set_update [OF set n k, of "\<lambda>r. r"] by auto
  note s = plru_set_keep [OF set u(2)]
  show "\<exists>d g'. rp_invalidate (tree_plru n) (ds ! k) g = Inr (d, g') \<and> plru_set n g' ds \<and>
       getVictim (tree_plru n) inp ds g' = Inr (k, ds, g')"
    using u(2,3) s n plru_set_victim [OF conjunct1 [OF s]] up_towards [OF pos(1) _ u(1)] tl pos(2)
    by (simp add: tree_plru_def plru_invalidate_def walk_leaf)
qed

theorem tree_plru_victims_witness:
  "\<exists>d g' i. rp_touch (tree_plru 2) \<lparr>rp_tick = 0, rp_draw = 0\<rparr> \<lparr>pl_index = 1, pl_tree = 0\<rparr>
      \<lparr>pl_count = 2, pl_trees = [[False]]\<rparr> = Inr (d, g') \<and>
    getVictim (tree_plru 2) \<lparr>rp_tick = 0, rp_draw = 0\<rparr>
      [\<lparr>pl_index = 1, pl_tree = 0\<rparr>, \<lparr>pl_index = 2, pl_tree = 0\<rparr>] g'
      = Inr (i, [\<lparr>pl_index = 1, pl_tree = 0\<rparr>, \<lparr>pl_index = 2, pl_tree = 0\<rparr>], g') \<and> i < 2 \<and> i \<noteq> 0"
proof -
  have "[0..<2] = [0, 1::nat]" by (simp add: upt_conv_Cons)
  then have s: "plru_set 2 \<lparr>pl_count = 2, pl_trees = [[False]]\<rparr>
      [\<lparr>pl_index = 1, pl_tree = 0\<rparr>, \<lparr>pl_index = 2, pl_tree = 0\<rparr>]"
    by (simp add: plru_set_def)
  show ?thesis using tree_plru_victims [OF _ s, of 0 "\<lparr>rp_tick = 0, rp_draw = 0\<rparr>"] by auto
qed

text \<open>The trees of a fresh policy fit the sets of a table: when the entries of a table with
  \<open>m\<close> sets of \<open>n\<close> ways are instantiated in order, set \<open>j\<close> gets the entries of tree \<open>j\<close>, and
  no two sets share a tree.\<close>

theorem plru_sets_of_fresh_table:
  assumes "1 \<le> n" "j < m" "newTreePLRU n = Inr g" "plru_instantiate_many n (m * n) g = (ds, g')"
  shows "plru_set n g' (take n (drop (j * n) ds)) \<and> (\<forall>d \<in> set (take n (drop (j * n) ds)). pl_tree d = j)"
proof -
  have g: "g = \<lparr>pl_count = 0, pl_trees = []\<rparr>" using assms(1,3) by (auto simp: newTreePLRU_def split: if_splits)
  have r: "ds = map (\<lambda>k. \<lparr>pl_index = k mod n + n - 1, pl_tree = k div n\<rparr>) [0..<m * n]"
    "pl_trees g' = replicate m (replicate (n - 1) False)"
    using assms(1,4) instantiate_many_shape [of n "m * n"] trees_needed [of n "m * n"] g by auto
  have len: "j * n + n \<le> m * n" using assms(2) by (metis Suc_leI add.commute mult_Suc mult_le_mono1)
  have "take n (drop (j * n) ds) ! i = \<lparr>pl_index = i + n - 1, pl_tree = j\<rparr>" if "i < n" for i
  proof -
    have b: "j * n + i < m * n" using that len by linarith
    have "length ds = m * n" by (simp add: r)
    with b have "j * n \<le> length ds" by linarith
    then have "take n (drop (j * n) ds) ! i = ds ! (j * n + i)" using that by simp
    then show ?thesis using that b by (simp add: r)
  qed
  then have "take n (drop (j * n) ds) = map (\<lambda>k. \<lparr>pl_index = k + n - 1, pl_tree = j\<rparr>) [0..<n]"
    using len by (intro nth_equalityI) (simp_all add: r)
  then show ?thesis using assms(2) by (auto simp: plru_set_def r(2))
qed

theorem plru_sets_of_fresh_table_witness:
  "\<exists>ds g'. plru_instantiate_many 2 (3 * 2) \<lparr>pl_count = 0, pl_trees = []\<rparr> = (ds, g') \<and>
    plru_set 2 g' (take 2 (drop (1 * 2) ds))"
proof -
  obtain ds g' where r: "plru_instantiate_many 2 (3 * 2) \<lparr>pl_count = 0, pl_trees = []\<rparr> = (ds, g')"
    by (cases "plru_instantiate_many 2 (3 * 2) \<lparr>pl_count = 0, pl_trees = []\<rparr>")
  have "newTreePLRU 2 = Inr \<lparr>pl_count = 0, pl_trees = []\<rparr>" by (simp add: newTreePLRU_def)
  with plru_sets_of_fresh_table [of 2 1 3, OF _ _ _ r] show ?thesis using r by auto
qed

text \<open>With a single leaf the tree is empty, and every touch, reset and invalidation fails with
  an index out of range, although the constructor accepts one leaf.\<close>

theorem plru_one_leaf_throws:
  "\<exists>g d g'. newTreePLRU 1 = Inr g \<and> instantiateEntry (tree_plru 1) g = Inr (d, g') \<and>
    rp_touch (tree_plru 1) inp d g' = Inl (OutOfRange ''tree->at'') \<and>
    rp_reset (tree_plru 1) inp d g' = Inl (OutOfRange ''tree->at'') \<and>
    rp_invalidate (tree_plru 1) d g' = Inl (OutOfRange ''tree->at'')"
  by (simp add: newTreePLRU_def tree_plru_def plru_instantiateEntry_def plru_touch_def plru_reset_def
      plru_invalidate_def plru_update_def plru_up.simps parentIndex_def Let_def)

end
