(* ===== verification/BopPf.thy ===== *)
theory BopPf
  imports QueuedProps
begin

text \<open>
  The best offset prefetcher (\<open>mem/cache/prefetch/bop.cc\<close>). Candidate offsets are scored against
  the table of recent requests, one offset per access; when a learning phase ends, the offset of
  the best score becomes the one that is prefetched. Requests enter the table through a delay
  queue with an event of its own. The lists are vectors of the source, its iterator is a position.
  The theory holds the operations, the list of candidate offsets (the numbers without a prime
  factor above 5), the invariant of the learning state and its preservation, the bound on the
  length of a phase, and the order in which the delay queue delivers.
\<close>

section \<open>State\<close>

record DelayQueueEntry =
  baseAddr :: Addr
  processTick :: Tick

datatype RRWay = RRLeft | RRRight

type_synonym OffsetListEntry = "16 word \<times> u8"

record BopPf = QueuedPf +
  scoreMax :: u32
  roundMax :: u32
  badScore :: u32
  rrEntries :: u32
  tagMask :: u32
  delayQueueEnabled :: bool
  delayQueueSize :: u32
  delayTicks :: u32
  rrLeft :: "Addr list"
  rrRight :: "Addr list"
  offsetsList :: "OffsetListEntry list"
  delayQueue :: "DelayQueueEntry list"
  delayQueueEvent :: "Tick option"
  issuePrefetchRequests :: bool
  bestOffset :: Addr
  phaseBestOffset :: Addr
  offsetsListIterator :: nat
  bestScore :: u32
  bop_round :: u32
  bop_degree :: u32

section \<open>The candidate offsets\<close>

text \<open>The loop that divides by one factor. It is only entered with a positive number; at 0 the
  loop of the source would not end.\<close>

fun divide_out :: "nat \<Rightarrow> nat \<Rightarrow> nat" where
  "divide_out n offset =
     (if 1 < n \<and> 0 < offset \<and> offset mod n = 0 then divide_out n (offset div n) else offset)"

declare divide_out.simps [simp del]

definition strip_factors :: "nat \<Rightarrow> nat" where
  "strip_factors offset = fold divide_out [2, 3, 5] offset"

text \<open>What one turn of the outer loop appends: the offset is stored in 16 bits.\<close>

definition offset_entries :: "bool \<Rightarrow> nat \<Rightarrow> OffsetListEntry list" where
  "offset_entries neg offset_i =
     (if strip_factors offset_i = 1
      then (of_nat offset_i, 0) # (if neg then [(- of_nat offset_i, 0)] else []) else [])"

text \<open>The loop itself; incrementing the largest 64-bit number is undefined in the source.\<close>

function offsets_from :: "bool \<Rightarrow> nat \<Rightarrow> nat \<Rightarrow> nat \<Rightarrow> OffsetListEntry list result" where
  "offsets_from neg list_size i offset_i =
     (if \<not> i < list_size then Inr []
      else if 2 ^ 63 \<le> offset_i + 1 then Inl (OutOfRange ''offset_i++'')
      else let new = offset_entries neg offset_i
           in bindR (offsets_from neg list_size (i + length new) (offset_i + 1)) (\<lambda>l. Inr (new @ l)))"
  by pat_completeness auto
termination
  by (relation "measure (\<lambda>(neg, list_size, i, offset_i). 2 ^ 63 - offset_i)") auto

declare offsets_from.simps [simp del]

text \<open>The constructor, after the one of the base class. \<open>1 << tag_bits\<close>, less one, is computed in
  a signed \<open>int\<close>, which 31 bits or more overflow.\<close>

definition newBopPf ::
  "u32 \<Rightarrow> u32 \<Rightarrow> u32 \<Rightarrow> u32 \<Rightarrow> nat \<Rightarrow> u32 \<Rightarrow> bool \<Rightarrow> bool \<Rightarrow> u32 \<Rightarrow> u64 \<Rightarrow> cint \<Rightarrow> QueuedPf \<Rightarrow> BopPf result" where
  "newBopPf score_max round_max bad_score rr_size tag_bits offset_list_size negative_offsets_enable
       delay_queue_enable delay_queue_size delay_queue_cycles deg q =
     (if 31 \<le> tag_bits then Inl (OutOfRange ''1 << tag_bits'')
      else if \<not> isPowerOf2 (ucast rr_size) then Inl (Fatal ''number of RR entries is not power of 2'')
      else if \<not> isPowerOf2 (ucast (blkSize q)) then Inl (Fatal ''cache line size is not power of 2'')
      else if negative_offsets_enable \<and> odd (unat offset_list_size)
      then Inl (Fatal ''negative offsets enabled with odd offset list size'')
      else if sint deg \<le> 0 then Inl (Fatal ''prefetch degree must be strictly greater than zero'')
      else bindR (offsets_from negative_offsets_enable (unat offset_list_size) 0 1) (\<lambda>offsets.
        Inr (QueuedPf.extend q
          \<lparr>scoreMax = score_max, roundMax = round_max, badScore = bad_score, rrEntries = rr_size,
           tagMask = push_bit tag_bits 1 - 1, delayQueueEnabled = delay_queue_enable,
           delayQueueSize = delay_queue_size, delayTicks = ucast (clockPeriod q * delay_queue_cycles),
           rrLeft = replicate (unat rr_size) 0, rrRight = replicate (unat rr_size) 0,
           offsetsList = offsets, delayQueue = [], delayQueueEvent = None,
           issuePrefetchRequests = False, bestOffset = 1, phaseBestOffset = 0,
           offsetsListIterator = 0, bestScore = 0, bop_round = 0, bop_degree = deg\<rparr>)))"

section \<open>The table of recent requests\<close>

fun way_shift :: "RRWay \<Rightarrow> nat" where
  "way_shift RRLeft = 0"
| "way_shift RRRight = 1"

definition rr_index :: "Addr \<Rightarrow> RRWay \<Rightarrow> 'a BopPf_scheme \<Rightarrow> nat result" where
  "rr_index addr way s =
     bindR (floorLog2 4 (ucast (rrEntries s))) (\<lambda>log_rr_entries.
       let line_addr = drop_bit (lBlkSize s) addr;
           hash = line_addr XOR drop_bit (push_bit (way_shift way) log_rr_entries) line_addr;
           hash = hash AND (push_bit log_rr_entries 1 - 1)
       in Inr (unat (hash mod ucast (rrEntries s))))"

definition insertIntoRR :: "Addr \<Rightarrow> Addr \<Rightarrow> RRWay \<Rightarrow> 'a BopPf_scheme \<Rightarrow> 'a BopPf_scheme result" where
  "insertIntoRR addr tg way s =
     bindR (rr_index addr way s) (\<lambda>i.
       case way of
         RRLeft \<Rightarrow> if i < length (rrLeft s) then Inr (s\<lparr>rrLeft := (rrLeft s)[i := tg]\<rparr>)
                   else Inl (OutOfRange ''rrLeft'')
       | RRRight \<Rightarrow> if i < length (rrRight s) then Inr (s\<lparr>rrRight := (rrRight s)[i := tg]\<rparr>)
                    else Inl (OutOfRange ''rrRight''))"

definition bop_tag :: "'a BopPf_scheme \<Rightarrow> Addr \<Rightarrow> Addr" where
  "bop_tag s addr = drop_bit (lBlkSize s) addr AND ucast (tagMask s)"

definition testRR :: "Addr \<Rightarrow> 'a BopPf_scheme \<Rightarrow> bool" where
  "testRR addr_tag s \<longleftrightarrow> addr_tag \<in> set (rrLeft s) \<or> addr_tag \<in> set (rrRight s)"

section \<open>The delay queue\<close>

definition schedule_delay :: "Tick \<Rightarrow> Tick \<Rightarrow> 'a BopPf_scheme \<Rightarrow> 'a BopPf_scheme result" where
  "schedule_delay now when s =
     (if when < now then Inl (AssertFailed ''when >= getCurTick()'')
      else if delayQueueEvent s \<noteq> None then Inl (AssertFailed ''!event->scheduled()'')
      else Inr (s\<lparr>delayQueueEvent := Some when\<rparr>))"

fun drain :: "Tick \<Rightarrow> DelayQueueEntry list \<Rightarrow> 'a BopPf_scheme \<Rightarrow> 'a BopPf_scheme result" where
  "drain now [] s = Inr (s\<lparr>delayQueue := []\<rparr>)"
| "drain now (e # q) s =
     (if processTick e \<le> now
      then bindR (insertIntoRR (baseAddr e) (bop_tag s (baseAddr e)) RRLeft s) (drain now q)
      else Inr (s\<lparr>delayQueue := e # q\<rparr>))"

text \<open>The event queue marks the event as not scheduled before it runs it.\<close>

definition delayQueueEventWrapper :: "Tick \<Rightarrow> 'a BopPf_scheme \<Rightarrow> 'a BopPf_scheme result" where
  "delayQueueEventWrapper now s =
     bindR (drain now (delayQueue s) (s\<lparr>delayQueueEvent := None\<rparr>)) (\<lambda>s.
       case delayQueue s of
         [] \<Rightarrow> Inr s
       | e # _ \<Rightarrow> schedule_delay now (processTick e) s)"

definition insertIntoDelayQueue :: "Tick \<Rightarrow> Addr \<Rightarrow> 'a BopPf_scheme \<Rightarrow> 'a BopPf_scheme result" where
  "insertIntoDelayQueue now x s =
     (if length (delayQueue s) = unat (delayQueueSize s) then Inr s
      else let process_tick = now + ucast (delayTicks s);
               s = s\<lparr>delayQueue := delayQueue s @ [\<lparr>baseAddr = x, processTick = process_tick\<rparr>]\<rparr>
           in if delayQueueEvent s = None then schedule_delay now process_tick s else Inr s)"

section \<open>Learning and prediction\<close>

definition resetScores :: "'a BopPf_scheme \<Rightarrow> 'a BopPf_scheme" where
  "resetScores s = s\<lparr>offsetsList := map (\<lambda>it. (fst it, 0)) (offsetsList s)\<rparr>"

text \<open>\<open>bestOffsetLearning\<close> in its three parts: the score of the offset under test, the move to the
  next one, and the end of a phase.\<close>

definition score_offset :: "Addr \<Rightarrow> 'a BopPf_scheme \<Rightarrow> 'a BopPf_scheme" where
  "score_offset addr s =
     (let it = offsetsListIterator s;
          offset_tag = scast (fst (offsetsList s ! it));
          lookup_tag = bop_tag s (addr - push_bit (lBlkSize s) offset_tag)
      in if testRR lookup_tag s then
           let sc = snd (offsetsList s ! it) + 1;
               s = s\<lparr>offsetsList := (offsetsList s)[it := (fst (offsetsList s ! it), sc)]\<rparr>
           in if ucast sc > bestScore s
              then s\<lparr>bestScore := ucast sc, phaseBestOffset := offset_tag\<rparr> else s
         else s)"

definition next_offset :: "'a BopPf_scheme \<Rightarrow> 'a BopPf_scheme" where
  "next_offset s =
     (if Suc (offsetsListIterator s) = length (offsetsList s)
      then s\<lparr>offsetsListIterator := 0, bop_round := bop_round s + 1\<rparr>
      else s\<lparr>offsetsListIterator := Suc (offsetsListIterator s)\<rparr>)"

definition end_phase :: "'a BopPf_scheme \<Rightarrow> 'a BopPf_scheme" where
  "end_phase s =
     (let s = s\<lparr>bop_round := 0\<rparr>;
          s = (if bestScore s > badScore s
               then s\<lparr>bestOffset := phaseBestOffset s, bop_round := 0, issuePrefetchRequests := True\<rparr>
               else s\<lparr>issuePrefetchRequests := False\<rparr>)
      in (resetScores s)\<lparr>bestScore := 0, phaseBestOffset := 0\<rparr>)"

definition phase_over :: "'a BopPf_scheme \<Rightarrow> bool" where
  "phase_over s \<longleftrightarrow> bestScore s \<ge> scoreMax s \<or> bop_round s \<ge> roundMax s"

definition bestOffsetLearning :: "Addr \<Rightarrow> 'a BopPf_scheme \<Rightarrow> 'a BopPf_scheme result" where
  "bestOffsetLearning addr s =
     (if \<not> offsetsListIterator s < length (offsetsList s) then Inl (OutOfRange ''offsetsListIterator'')
      else let s = next_offset (score_offset addr s)
           in Inr (if phase_over s then end_phase s else s))"

definition bop_candidates :: "Addr \<Rightarrow> 'a BopPf_scheme \<Rightarrow> AddrPriority list" where
  "bop_candidates addr s =
     (if issuePrefetchRequests s
      then map (\<lambda>i. (addr + push_bit (lBlkSize s) (of_nat i * bestOffset s), 0))
             [1..<Suc (unat (bop_degree s))]
      else [])"

definition calculatePrefetch_BOP ::
  "Tick \<Rightarrow> PrefetchInfo \<Rightarrow> CacheAccessor \<Rightarrow> 'a BopPf_scheme \<Rightarrow>
     (AddrPriority list \<times> 'a BopPf_scheme) result" where
  "calculatePrefetch_BOP now pfi cache s =
     (let addr = pf_address pfi;
          tag_x = bop_tag s addr
      in bindR (if delayQueueEnabled s then insertIntoDelayQueue now addr s
                else insertIntoRR addr tag_x RRLeft s) (\<lambda>s.
         bindR (bestOffsetLearning addr s) (\<lambda>s. Inr (bop_candidates addr s, s))))"

definition notifyFill_BOP :: "Packet \<Rightarrow> 'a BopPf_scheme \<Rightarrow> 'a BopPf_scheme result" where
  "notifyFill_BOP pkt s =
     (if \<not> testCmdAttrib (cmd pkt) IsHWPrefetch then Inr s
      else bindR (getAddr pkt) (\<lambda>addr.
        let tag_y = bop_tag s addr
        in if issuePrefetchRequests s then insertIntoRR addr (tag_y - bestOffset s) RRRight s else Inr s))"

section \<open>The list of candidate offsets\<close>

definition smooth5 :: "nat \<Rightarrow> bool" where
  "smooth5 x \<longleftrightarrow> (\<exists>i j k. x = 2 ^ i * 3 ^ j * 5 ^ k)"

lemma divide_out_power:
  assumes "1 < n" "\<not> n dvd y"
  shows "divide_out n (n ^ e * y) = y"
proof (induction e)
  case 0
  then show ?case using assms by (simp add: divide_out.simps [of n y] mod_eq_0_iff_dvd)
next
  case (Suc e)
  have "0 < n ^ Suc e * y" "n ^ Suc e * y mod n = 0" "n ^ Suc e * y div n = n ^ e * y"
    using assms by (auto intro: gr0I simp: mult.assoc)
  then have "divide_out n (n ^ Suc e * y) = divide_out n (n ^ e * y)"
    using assms(1) by (subst divide_out.simps) simp
  with Suc show ?case by (simp only:)
qed

lemma divide_out_splits: "0 < x \<Longrightarrow> 1 < n \<Longrightarrow> \<exists>e. x = n ^ e * divide_out n x"
proof (induction n x rule: divide_out.induct)
  case (1 n x)
  show ?case
  proof (cases "x mod n = 0")
    case True
    then obtain y where y: "x = n * y" by blast
    then have "0 < y" "x div n = y" using 1 by auto
    with 1 True obtain e where e: "y = n ^ e * divide_out n y" by auto
    have "divide_out n x = divide_out n y"
      using 1 True \<open>x div n = y\<close> by (simp add: divide_out.simps [of n x])
    then have "x = n ^ Suc e * divide_out n x" using y e by simp
    then show ?thesis by blast
  next
    case False
    then have "x = n ^ 0 * divide_out n x" by (simp add: divide_out.simps [of n x])
    then show ?thesis by blast
  qed
qed

lemma divide_out_pos: "0 < x \<Longrightarrow> 1 < n \<Longrightarrow> 0 < divide_out n x"
  using divide_out_splits [of x n] by (cases "divide_out n x") auto

lemma not_3_dvd_power_5: "\<not> 3 dvd (5 :: nat) ^ k"
proof (induction k)
  case (Suc k)
  have "(5 ^ Suc k :: nat) mod 3 = (2 * (5 ^ k mod 3)) mod 3"
    by (simp add: mod_mult_right_eq mod_mult_left_eq [of 5, symmetric])
  moreover have "(5 :: nat) ^ k mod 3 = 1 \<or> (5 :: nat) ^ k mod 3 = 2"
    using Suc mod_less_divisor [of 3 "5 ^ k :: nat"] by (simp add: dvd_eq_mod_eq_0) linarith
  ultimately show ?case by (auto simp: dvd_eq_mod_eq_0)
qed simp

lemma strip_factors_1_iff:
  assumes "0 < x"
  shows "strip_factors x = 1 \<longleftrightarrow> smooth5 x"
proof
  assume one: "strip_factors x = 1"
  let ?y = "divide_out 2 x" let ?z = "divide_out 3 ?y"
  have "0 < ?y" "0 < ?z" using assms by (simp_all add: divide_out_pos)
  then obtain i j k where "x = 2 ^ i * ?y" "?y = 3 ^ j * ?z" "?z = 5 ^ k * divide_out 5 ?z"
    using divide_out_splits [of x 2] divide_out_splits [of ?y 3] divide_out_splits [of ?z 5] assms by auto
  moreover have "divide_out 5 ?z = 1" using one by (simp add: strip_factors_def)
  ultimately show "smooth5 x" unfolding smooth5_def by (metis mult.assoc mult.right_neutral)
next
  assume "smooth5 x"
  then obtain i j k where x: "x = 2 ^ i * (3 ^ j * 5 ^ k)" by (auto simp: smooth5_def mult.assoc)
  have "divide_out 2 x = 3 ^ j * 5 ^ k" unfolding x by (rule divide_out_power) simp_all
  moreover have "divide_out 3 (3 ^ j * 5 ^ k) = 5 ^ k"
    by (rule divide_out_power) (simp_all add: not_3_dvd_power_5)
  moreover have "divide_out 5 (5 ^ k * 1) = 1" by (rule divide_out_power) simp_all
  ultimately show "strip_factors x = 1" by (simp add: strip_factors_def)
qed

definition signed_offsets :: "bool \<Rightarrow> nat list \<Rightarrow> OffsetListEntry list" where
  "signed_offsets neg xs = concat (map (\<lambda>x. (of_nat x, 0) # (if neg then [(- of_nat x, 0)] else [])) xs)"

lemma length_signed_offsets: "length (signed_offsets neg xs) = (if neg then 2 else 1) * length xs"
  by (induction xs) (auto simp: signed_offsets_def)

lemma signed_offsets_append: "signed_offsets neg (xs @ ys) = signed_offsets neg xs @ signed_offsets neg ys"
  by (simp add: signed_offsets_def)

lemma entries_smooth:
  assumes "0 < x"
  shows "offset_entries neg x = signed_offsets neg (filter smooth5 [x])"
  using strip_factors_1_iff [OF assms] by (simp add: offset_entries_def signed_offsets_def)

lemma offsets_from_ok:
  assumes "0 < x" "x \<le> M" "M < 2 ^ 63"
    "n \<le> i + length (signed_offsets neg (filter smooth5 [x..<M]))"
  shows "\<exists>m. x \<le> m \<and> m \<le> M \<and> offsets_from neg n i x = Inr (signed_offsets neg (filter smooth5 [x..<m]))"
  using assms
proof (induction "M - x" arbitrary: i x)
  case 0
  then have "n \<le> i" by (simp add: signed_offsets_def)
  then have "offsets_from neg n i x = Inr (signed_offsets neg (filter smooth5 [x..<x]))"
    by (subst offsets_from.simps) (simp add: signed_offsets_def)
  then show ?case using 0 by blast
next
  case (Suc d)
  then have x: "x < M" by simp
  show ?case
  proof (cases "i < n")
    case False
    then have "offsets_from neg n i x = Inr (signed_offsets neg (filter smooth5 [x..<x]))"
      by (subst offsets_from.simps) (simp add: signed_offsets_def)
    then show ?thesis using x by (intro exI [of _ x]) simp
  next
    case True
    have split: "filter smooth5 [x..<m] = filter smooth5 [x] @ filter smooth5 [x + 1..<m]" if "x < m" for m
      using that by (simp add: upt_rec [of x m])
    let ?new = "offset_entries neg x"
    have new: "?new = signed_offsets neg (filter smooth5 [x])" using Suc.prems(1) by (rule entries_smooth)
    have "n \<le> i + length ?new + length (signed_offsets neg (filter smooth5 [x + 1..<M]))"
      using Suc.prems(4) unfolding new split [OF x] by (simp only: signed_offsets_append length_append)
    moreover have "d = M - (x + 1)" "x + 1 \<le> M" using Suc.hyps x by simp_all
    ultimately obtain m where m: "x + 1 \<le> m" "m \<le> M"
      "offsets_from neg n (i + length ?new) (x + 1) = Inr (signed_offsets neg (filter smooth5 [x + 1..<m]))"
      using Suc.hyps(1) [of "x + 1" "i + length ?new"] Suc.prems(3) by auto
    have "offsets_from neg n i x = Inr (?new @ signed_offsets neg (filter smooth5 [x + 1..<m]))"
      using True x Suc.prems(3) m(3) by (subst offsets_from.simps) (simp add: Let_def)
    also have "\<dots> = Inr (signed_offsets neg (filter smooth5 [x..<m]))"
      using m(1) by (simp only: split signed_offsets_append new)
    finally show ?thesis using m by (intro exI [of _ m]) simp
  qed
qed

lemma offsets_from_length:
  assumes "offsets_from neg n i x = Inr l" "i \<le> n" "neg \<longrightarrow> even (n - i)"
  shows "i + length l = n"
  using assms
proof (induction neg n i x arbitrary: l rule: offsets_from.induct)
  case (1 neg n i x)
  let ?new = "offset_entries neg x"
  show ?case
  proof (cases "i < n")
    case True
    then obtain l' where x: "\<not> 2 ^ 63 \<le> x + 1"
      and l: "offsets_from neg n (i + length ?new) (x + 1) = Inr l'" "l = ?new @ l'"
      using 1(2) by (subst (asm) offsets_from.simps) (auto simp: Let_def split: if_splits)
    have len: "length ?new = 0 \<or> (neg \<and> length ?new = 2) \<or> (\<not> neg \<and> length ?new = 1)"
      by (auto simp: offset_entries_def)
    have "2 \<le> n - i" if neg using that True 1(4) by (cases "n - i = 1") auto
    then have "i + length ?new \<le> n" "neg \<longrightarrow> even (n - (i + length ?new))"
      using len True 1(4) by auto
    then show ?thesis using 1(1) [OF _ x refl l(1)] True l(2) by simp
  next
    case False
    with 1(2) have "l = []" by (subst (asm) offsets_from.simps) simp
    with False 1(3) show ?thesis by simp
  qed
qed

lemma smooth_below_64: "length (filter (\<lambda>x. strip_factors x = 1) [1..<64]) = 26"
  by code_simp

lemma offsets_ok:
  assumes "n \<le> (if neg then 52 else 26)" "neg \<longrightarrow> even n"
  shows "\<exists>m \<le> 64. offsets_from neg n 0 1 = Inr (signed_offsets neg (filter smooth5 [1..<m])) \<and>
    length (signed_offsets neg (filter smooth5 [1..<m])) = n"
proof -
  have "filter smooth5 [1..<64] = filter (\<lambda>x. strip_factors x = 1) [1..<64]"
    by (rule filter_cong) (simp_all add: strip_factors_1_iff flip: One_nat_def)
  then have "length (filter smooth5 [1..<64]) = 26" using smooth_below_64 by simp
  then have "n \<le> 0 + length (signed_offsets neg (filter smooth5 [1..<64]))"
    using assms(1) by (simp add: length_signed_offsets split: if_splits)
  then obtain m where "m \<le> 64"
    "offsets_from neg n 0 1 = Inr (signed_offsets neg (filter smooth5 [1..<m]))"
    using offsets_from_ok [of 1 64 n 0 neg] by auto
  then show ?thesis using offsets_from_length [of neg n 0 1] assms(2) by fastforce
qed

section \<open>The table and the delay queue keep their shape\<close>

definition rr_wf :: "'a BopPf_scheme \<Rightarrow> bool" where
  "rr_wf s \<longleftrightarrow> isPowerOf2 (ucast (rrEntries s)) \<and> length (rrLeft s) = unat (rrEntries s) \<and>
     length (rrRight s) = unat (rrEntries s)"

lemma rr_index_ok:
  assumes "isPowerOf2 (ucast (rrEntries s))"
  shows "\<exists>i < unat (rrEntries s). rr_index addr way s = Inr i"
proof -
  let ?r = "ucast (rrEntries s) :: u64"
  have r: "?r \<noteq> 0" using assms by (simp add: isPowerOf2_def)
  then have "0 < unat ?r" by (simp add: unat_zero_iff [symmetric] del: unat_ucast32)
  then have "unat (h mod ?r) < unat (rrEntries s)" for h :: u64
    using mod_less_divisor [of "unat ?r" "unat h"] by (simp add: unat_mod_distrib)
  moreover have "floorLog2 4 ?r = Inr (findMsbSet ?r)"
    using r unat_less32 [of "rrEntries s"] by (intro floorLog2_32) simp_all
  ultimately show ?thesis by (simp add: rr_index_def Let_def)
qed

lemma insertIntoRR_left:
  assumes "rr_wf s"
  shows "\<exists>i < length (rrLeft s). rr_index addr RRLeft s = Inr i \<and>
    insertIntoRR addr tg RRLeft s = Inr (s\<lparr>rrLeft := (rrLeft s)[i := tg]\<rparr>)"
  using rr_index_ok [of s addr RRLeft] assms by (auto simp: rr_wf_def insertIntoRR_def)

lemma insertIntoRR_right:
  assumes "rr_wf s"
  shows "\<exists>i < length (rrRight s). rr_index addr RRRight s = Inr i \<and>
    insertIntoRR addr tg RRRight s = Inr (s\<lparr>rrRight := (rrRight s)[i := tg]\<rparr>)"
  using rr_index_ok [of s addr RRRight] assms by (auto simp: rr_wf_def insertIntoRR_def)

lemma rr_wf_updates [simp]:
  "rr_wf (s\<lparr>rrLeft := (rrLeft s)[i := v]\<rparr>) = rr_wf s" "rr_wf (s\<lparr>rrRight := (rrRight s)[i := v]\<rparr>) = rr_wf s"
  "rr_wf (s\<lparr>delayQueue := q\<rparr>) = rr_wf s" "rr_wf (s\<lparr>delayQueueEvent := ev\<rparr>) = rr_wf s"
  by (simp_all add: rr_wf_def)

abbreviation due :: "Tick \<Rightarrow> DelayQueueEntry \<Rightarrow> bool" where
  "due now e \<equiv> processTick e \<le> now"

text \<open>What the event does to the left table: one write of the tag of a due request at the slot its
  address hashes to, in the order of the queue. The rest of the queue stays.\<close>

definition deliver :: "'a BopPf_scheme \<Rightarrow> DelayQueueEntry \<Rightarrow> Addr list \<Rightarrow> Addr list" where
  "deliver s e l =
     (case rr_index (baseAddr e) RRLeft s of Inr i \<Rightarrow> l[i := bop_tag s (baseAddr e)] | Inl _ \<Rightarrow> l)"

lemma deliver_frame [simp]:
  "deliver (s\<lparr>rrLeft := l\<rparr>) = deliver s" "deliver (s\<lparr>delayQueueEvent := ev\<rparr>) = deliver s"
  by (simp_all add: deliver_def rr_index_def bop_tag_def fun_eq_iff cong: sum.case_cong)

lemma length_deliver [simp]: "length (deliver s e l) = length l"
  by (simp add: deliver_def split: sum.split)

lemma length_delivered [simp]: "length (fold (deliver s) es l) = length l"
  by (induction es arbitrary: l) simp_all

lemma deliver_slot:
  assumes "rr_wf s" "length l = length (rrLeft s)"
  shows "\<exists>i < length l. rr_index (baseAddr e) RRLeft s = Inr i \<and> deliver s e l = l[i := bop_tag s (baseAddr e)]"
  using insertIntoRR_left [OF assms(1), of "baseAddr e" 0] assms(2) by (auto simp: deliver_def)

lemma last_delivered:
  assumes "rr_wf s" "es \<noteq> []"
  shows "bop_tag s (baseAddr (last es)) \<in> set (fold (deliver s) es (rrLeft s))"
proof -
  have es: "es = butlast es @ [last es]" using assms(2) by simp
  obtain i where "i < length (fold (deliver s) (butlast es) (rrLeft s))"
    "deliver s (last es) (fold (deliver s) (butlast es) (rrLeft s))
       = (fold (deliver s) (butlast es) (rrLeft s))[i := bop_tag s (baseAddr (last es))]"
    using deliver_slot [OF assms(1) length_delivered] by blast
  then show ?thesis by (subst es) (simp add: set_update_memI)
qed

lemma drain_effect:
  assumes "rr_wf s"
  shows "drain now q s = Inr (s\<lparr>rrLeft := fold (deliver s) (takeWhile (due now) q) (rrLeft s),
    delayQueue := dropWhile (due now) q\<rparr>)"
  using assms
proof (induction q arbitrary: s)
  case (Cons e q)
  show ?case
  proof (cases "due now e")
    case True
    have i: "insertIntoRR (baseAddr e) (bop_tag s (baseAddr e)) RRLeft s = Inr (s\<lparr>rrLeft := deliver s e (rrLeft s)\<rparr>)"
      using insertIntoRR_left [OF Cons.prems, of "baseAddr e" "bop_tag s (baseAddr e)"] by (auto simp: deliver_def)
    have "rr_wf (s\<lparr>rrLeft := deliver s e (rrLeft s)\<rparr>)" using Cons.prems by (simp add: rr_wf_def)
    from Cons.IH [OF this] show ?thesis using True i by simp
  qed simp
qed simp

definition front_tick :: "DelayQueueEntry list \<Rightarrow> Tick option" where
  "front_tick q = (case q of [] \<Rightarrow> None | e # _ \<Rightarrow> Some (processTick e))"

lemma delayQueueEventWrapper_effect:
  assumes "rr_wf s"
  shows "delayQueueEventWrapper now s =
    Inr (s\<lparr>rrLeft := fold (deliver s) (takeWhile (due now) (delayQueue s)) (rrLeft s),
      delayQueue := dropWhile (due now) (delayQueue s),
      delayQueueEvent := front_tick (dropWhile (due now) (delayQueue s))\<rparr>)"
proof -
  let ?q = "delayQueue s" and ?s = "s\<lparr>delayQueueEvent := None\<rparr>"
  have "rr_wf ?s" using assms by simp
  note l = drain_effect [OF this, of now ?q]
  show ?thesis
  proof (cases "dropWhile (due now) ?q")
    case Nil
    then show ?thesis using l
      by (simp add: delayQueueEventWrapper_def front_tick_def del: dropWhile_eq_Nil_conv)
  next
    case (Cons e q)
    then have "\<not> due now e" by (metis hd_dropWhile list.distinct(1) list.sel(1))
    then show ?thesis using l Cons
      by (simp add: delayQueueEventWrapper_def front_tick_def schedule_delay_def)
  qed
qed

section \<open>The learning state\<close>

definition offsets_of :: "'a BopPf_scheme \<Rightarrow> Addr set" where
  "offsets_of s = (\<lambda>e. scast (fst e)) ` set (offsetsList s)"

text \<open>An offset of the list carries the best score of the phase. Scores have eight bits, so this
  needs a \<open>scoreMax\<close> they can reach.\<close>

definition leader :: "'a BopPf_scheme \<Rightarrow> bool" where
  "leader s \<longleftrightarrow> (\<exists>e \<in> set (offsetsList s). scast (fst e) = phaseBestOffset s \<and> unat (snd e) = unat (bestScore s))"

definition scores_wf :: "'a BopPf_scheme \<Rightarrow> bool" where
  "scores_wf s \<longleftrightarrow> (\<forall>e \<in> set (offsetsList s). unat (snd e) \<le> unat (bestScore s)) \<and>
     (bestScore s = 0 \<longrightarrow> phaseBestOffset s = 0) \<and>
     (bestScore s \<noteq> 0 \<longrightarrow> phaseBestOffset s \<in> offsets_of s \<and> (unat (scoreMax s) \<le> 255 \<longrightarrow> leader s))"

definition learn_wf :: "'a BopPf_scheme \<Rightarrow> bool" where
  "learn_wf s \<longleftrightarrow> scores_wf s \<and> offsetsListIterator s < length (offsetsList s) \<and>
     (bestScore s = 0 \<or> bestScore s < scoreMax s) \<and> (bop_round s = 0 \<or> bop_round s < roundMax s) \<and>
     bestOffset s \<in> insert 1 (offsets_of s)"

lemma unat_ucast8_32 [simp]: "unat (ucast (v :: u8) :: u32) = unat v"
proof -
  have "unat v < 2 ^ 32" using unsigned_less [of v] by (rule less_trans) simp
  then have "take_bit 32 (unat v) = unat v" by (rule take_bit_nat_eq_self)
  then show ?thesis unfolding unsigned_ucast_eq by simp
qed

lemma unat_Suc8: "unat (v :: u8) < 255 \<Longrightarrow> unat (v + 1) = Suc (unat v)"
  by (simp add: unat_word_ariths)

text \<open>Two states that differ in the learning state only.\<close>

definition learn_frame :: "'a BopPf_scheme \<Rightarrow> 'a BopPf_scheme \<Rightarrow> bool" where
  "learn_frame s s' \<longleftrightarrow> s' = s\<lparr>offsetsList := offsetsList s', issuePrefetchRequests := issuePrefetchRequests s',
     bestOffset := bestOffset s', phaseBestOffset := phaseBestOffset s',
     offsetsListIterator := offsetsListIterator s', bestScore := bestScore s', bop_round := bop_round s'\<rparr>"

lemma learn_frame_trans: "learn_frame s s' \<Longrightarrow> learn_frame s' s'' \<Longrightarrow> learn_frame s s''"
  unfolding learn_frame_def by (cases s; cases s'; cases s'') simp

lemma learn_frameD:
  assumes "learn_frame s s'"
  shows "QueuedPf.truncate s' = QueuedPf.truncate s" "lBlkSize s' = lBlkSize s" "scoreMax s' = scoreMax s"
    "roundMax s' = roundMax s" "badScore s' = badScore s" "rrEntries s' = rrEntries s" "tagMask s' = tagMask s"
    "delayQueueEnabled s' = delayQueueEnabled s" "delayQueueSize s' = delayQueueSize s"
    "delayTicks s' = delayTicks s" "rrLeft s' = rrLeft s" "rrRight s' = rrRight s"
    "delayQueue s' = delayQueue s" "delayQueueEvent s' = delayQueueEvent s" "bop_degree s' = bop_degree s"
  using assms unfolding learn_frame_def by (cases s; cases s'; simp add: QueuedPf.truncate_def)+

lemma score_offset_frame: "learn_frame s (score_offset addr s)"
  by (simp add: learn_frame_def score_offset_def Let_def)

lemma next_offset_frame: "learn_frame s (next_offset s)"
  by (simp add: learn_frame_def next_offset_def)

lemma end_phase_frame: "learn_frame s (end_phase s)"
  by (simp add: learn_frame_def end_phase_def resetScores_def Let_def)

lemma score_offset_keeps [simp]:
  "map fst (offsetsList (score_offset addr s)) = map fst (offsetsList s)"
  "offsetsListIterator (score_offset addr s) = offsetsListIterator s"
  "bop_round (score_offset addr s) = bop_round s" "bestOffset (score_offset addr s) = bestOffset s"
  "issuePrefetchRequests (score_offset addr s) = issuePrefetchRequests s"
  by (auto simp: score_offset_def Let_def map_update list_update_same_conv list_update_beyond not_less
      intro: list_update_id
      split: if_splits) (metis list_update_beyond list_update_id map_update not_le nth_map length_map)+

lemma score_offset_length [simp]: "length (offsetsList (score_offset addr s)) = length (offsetsList s)"
  by (rule map_eq_imp_length_eq [OF score_offset_keeps(1)])

lemma offsets_of_fsts: "offsets_of s = scast ` set (map fst (offsetsList s))"
  by (simp add: offsets_of_def image_image)

lemma other_member: "x \<in> set xs \<Longrightarrow> x \<noteq> xs ! i \<Longrightarrow> x \<in> set (xs[i := v])"
  by (metis in_set_conv_nth length_list_update nth_list_update_neq)

lemma score_offset_scores:
  assumes wf: "scores_wf s" and it: "offsetsListIterator s < length (offsetsList s)"
    and best: "bestScore s = 0 \<or> bestScore s < scoreMax s"
  shows "scores_wf (score_offset addr s)"
proof -
  let ?it = "offsetsListIterator s"
  let ?e = "offsetsList s ! ?it"
  let ?sc = "snd ?e + 1"
  let ?ol = "(offsetsList s)[?it := (fst ?e, ?sc)]"
  have e: "?e \<in> set (offsetsList s)" using it by simp
  have old: "unat (snd x) \<le> unat (bestScore s)" if "x \<in> set (offsetsList s)" for x
    using wf that by (simp add: scores_wf_def)
  have mem: "x = (fst ?e, ?sc) \<or> x \<in> set (offsetsList s)" if "x \<in> set ?ol" for x
    using that set_update_subset_insert [of "offsetsList s" ?it "(fst ?e, ?sc)"] by auto
  have new: "(fst ?e, ?sc) \<in> set ?ol" using it by (simp add: set_update_memI)
  have keep: "scast (fst x) \<in> (\<lambda>e. scast (fst e)) ` set ?ol" if "x \<in> set (offsetsList s)" for x
    using that new other_member [OF that, of ?it "(fst ?e, ?sc)"] by (cases "x = ?e") (auto simp: image_iff intro: bexI [of _ "(fst ?e, ?sc)"])
  show ?thesis
  proof (cases "testRR (bop_tag s (addr - push_bit (lBlkSize s) (scast (fst ?e)))) s")
    case False
    then show ?thesis using wf by (simp add: score_offset_def Let_def)
  next
    case hit: True
    show ?thesis
    proof (cases "ucast ?sc > bestScore s")
      case True
      then have "unat (bestScore s) < unat ?sc" by (simp add: word_less_nat_alt)
      then have "unat (snd x) \<le> unat ?sc" if "x \<in> set ?ol" for x using mem [OF that] old by fastforce
      moreover have "ucast ?sc \<noteq> (0 :: u32)" using True by (metis word_not_simps(1))
      ultimately show ?thesis using hit True new
        by (auto simp: score_offset_def Let_def scores_wf_def leader_def offsets_of_def image_iff
            intro!: bexI [of _ "(fst ?e, ?sc)"])
    next
      case False
      then have le: "unat ?sc \<le> unat (bestScore s)" by (simp add: word_less_nat_alt)
      then have "unat (snd x) \<le> unat (bestScore s)" if "x \<in> set ?ol" for x using mem [OF that] old by fastforce
      moreover have "\<exists>x \<in> set ?ol. scast (fst x) = phaseBestOffset s \<and> unat (snd x) = unat (bestScore s)"
        if nz: "bestScore s \<noteq> 0" and mx: "unat (scoreMax s) \<le> 255"
      proof -
        obtain x where x: "x \<in> set (offsetsList s)" "scast (fst x) = phaseBestOffset s"
          "unat (snd x) = unat (bestScore s)" using wf nz mx by (auto simp: scores_wf_def leader_def)
        have "unat (bestScore s) < 255" using best nz mx by (simp add: word_less_nat_alt)
        then have "x \<noteq> ?e" using le x(3) unat_Suc8 [of "snd ?e"] by auto
        then show ?thesis using x other_member [OF x(1)] by blast
      qed
      moreover have "phaseBestOffset s \<in> (\<lambda>e. scast (fst e)) ` set ?ol" if "bestScore s \<noteq> 0"
        using wf that keep by (auto simp: scores_wf_def offsets_of_def)
      ultimately show ?thesis using hit False wf
        by (simp add: score_offset_def Let_def scores_wf_def leader_def offsets_of_def)
    qed
  qed
qed

definition fresh :: "'a BopPf_scheme \<Rightarrow> bool" where
  "fresh s \<longleftrightarrow> bestScore s = 0 \<and> phaseBestOffset s = 0 \<and> bop_round s = 0 \<and> (\<forall>e \<in> set (offsetsList s). snd e = 0)"

lemma next_offset_keeps [simp]:
  "offsetsList (next_offset s) = offsetsList s" "bestScore (next_offset s) = bestScore s"
  "phaseBestOffset (next_offset s) = phaseBestOffset s" "bestOffset (next_offset s) = bestOffset s"
  "issuePrefetchRequests (next_offset s) = issuePrefetchRequests s"
  "scoreMax (next_offset s) = scoreMax s"
  by (simp_all add: next_offset_def)

lemma next_offset_scores [simp]: "scores_wf (next_offset s) = scores_wf s"
  by (simp add: scores_wf_def leader_def offsets_of_def)

lemma next_offset_in_range:
  "offsetsListIterator s < length (offsetsList s) \<Longrightarrow> offsetsListIterator (next_offset s) < length (offsetsList s)"
  by (auto simp: next_offset_def)

lemma end_phase_keeps [simp]:
  "map fst (offsetsList (end_phase s)) = map fst (offsetsList s)" "length (offsetsList (end_phase s)) = length (offsetsList s)"
  "offsets_of (end_phase s) = offsets_of s" "offsetsListIterator (end_phase s) = offsetsListIterator s"
  "fresh (end_phase s)"
  by (auto simp: end_phase_def resetScores_def Let_def offsets_of_def image_image fresh_def comp_def)

lemma fresh_scores: "fresh s \<Longrightarrow> scores_wf s"
  by (simp add: fresh_def scores_wf_def)

lemma end_phase_choice:
  "bestOffset (end_phase s) = (if bestScore s > badScore s then phaseBestOffset s else bestOffset s)"
  "issuePrefetchRequests (end_phase s) \<longleftrightarrow> bestScore s > badScore s"
  by (simp_all add: end_phase_def resetScores_def Let_def)

lemma learn_end:
  assumes "scores_wf s" "offsetsListIterator s < length (offsetsList s)" "bestOffset s \<in> insert 1 (offsets_of s)"
  shows "learn_wf (end_phase s)"
proof -
  have f: "fresh (end_phase s)" by simp
  have "phaseBestOffset s \<in> offsets_of s" if "bestScore s > badScore s"
    using assms(1) that by (auto simp: scores_wf_def)
  then have "bestOffset (end_phase s) \<in> insert 1 (offsets_of (end_phase s))"
    using assms(3) by (simp add: end_phase_choice)
  with f fresh_scores [OF f] assms(2) show ?thesis by (simp add: learn_wf_def fresh_def)
qed

definition scored :: "Addr \<Rightarrow> 'a BopPf_scheme \<Rightarrow> 'a BopPf_scheme" where
  "scored addr s = next_offset (score_offset addr s)"

lemma scored_frame: "learn_frame s (scored addr s)"
  unfolding scored_def by (rule learn_frame_trans [OF score_offset_frame next_offset_frame])

lemma scored_facts:
  assumes "learn_wf s"
  shows "scores_wf (scored addr s)" "offsets_of (scored addr s) = offsets_of s"
    "map fst (offsetsList (scored addr s)) = map fst (offsetsList s)"
    "length (offsetsList (scored addr s)) = length (offsetsList s)"
    "bestOffset (scored addr s) = bestOffset s" "issuePrefetchRequests (scored addr s) = issuePrefetchRequests s"
    "offsetsListIterator (scored addr s) < length (offsetsList (scored addr s))"
proof -
  show "offsetsListIterator (scored addr s) < length (offsetsList (scored addr s))"
    using assms next_offset_in_range [of "score_offset addr s"] by (simp add: scored_def learn_wf_def)
  show "scores_wf (scored addr s)"
    using assms score_offset_scores [of s addr] by (simp add: scored_def learn_wf_def)
qed (simp_all add: scored_def offsets_of_fsts)

lemma bestOffsetLearning_eq:
  assumes "learn_wf s"
  shows "bestOffsetLearning addr s =
    Inr (if phase_over (scored addr s) then end_phase (scored addr s) else scored addr s)"
  using assms by (simp add: bestOffsetLearning_def scored_def learn_wf_def Let_def)

lemma learning_step:
  assumes "learn_wf s"
  shows "\<exists>s'. bestOffsetLearning addr s = Inr s' \<and> learn_wf s' \<and> learn_frame s s' \<and>
    map fst (offsetsList s') = map fst (offsetsList s)"
proof (cases "phase_over (scored addr s)")
  case True
  have "learn_wf (end_phase (scored addr s))"
    using scored_facts [OF assms] assms by (intro learn_end) (simp_all add: learn_wf_def)
  moreover have "learn_frame s (end_phase (scored addr s))"
    by (rule learn_frame_trans [OF scored_frame end_phase_frame])
  ultimately show ?thesis using True bestOffsetLearning_eq [OF assms] scored_facts [OF assms] by simp
next
  case False
  then have "learn_wf (scored addr s)"
    using scored_facts [OF assms, of addr] assms by (simp add: learn_wf_def phase_over_def not_le)
  then show ?thesis using False bestOffsetLearning_eq [OF assms] scored_frame scored_facts [OF assms] by simp
qed

section \<open>The prefetcher never stops the simulation\<close>

definition bop_ok :: "Tick \<Rightarrow> 'a BopPf_scheme \<Rightarrow> bool" where
  "bop_ok now s \<longleftrightarrow> rr_wf s \<and> learn_wf s \<and> unat now + unat (delayTicks s) < 2 ^ 64"

lemma learn_wf_updates [simp]:
  "learn_wf (s\<lparr>rrLeft := l\<rparr>) = learn_wf s" "learn_wf (s\<lparr>rrRight := l\<rparr>) = learn_wf s"
  "learn_wf (s\<lparr>delayQueue := q\<rparr>) = learn_wf s" "learn_wf (s\<lparr>delayQueueEvent := ev\<rparr>) = learn_wf s"
  by (simp_all add: learn_wf_def scores_wf_def leader_def offsets_of_def)

lemma bop_more:
  assumes "QueuedPf.more (s' :: 'a BopPf_scheme) = QueuedPf.more s"
  shows "bop_ok now s' = bop_ok now s" "learn_wf s' = learn_wf s" "rr_wf s' = rr_wf s"
  using assms
  by (cases s; cases s'; simp add: bop_ok_def rr_wf_def learn_wf_def scores_wf_def leader_def offsets_of_def)+

definition note_request :: "Tick \<Rightarrow> Addr \<Rightarrow> 'a BopPf_scheme \<Rightarrow> 'a BopPf_scheme result" where
  "note_request now addr s =
     (if delayQueueEnabled s then insertIntoDelayQueue now addr s
      else insertIntoRR addr (bop_tag s addr) RRLeft s)"

lemma calculatePrefetch_BOP_eq:
  "calculatePrefetch_BOP now pfi cache s =
     bindR (note_request now (pf_address pfi) s) (\<lambda>s. bindR (bestOffsetLearning (pf_address pfi) s)
       (\<lambda>s. Inr (bop_candidates (pf_address pfi) s, s)))"
  by (simp add: calculatePrefetch_BOP_def note_request_def Let_def)

lemma note_request_frame:
  assumes "note_request now addr s = Inr s'"
  shows "\<exists>l q ev. s' = s\<lparr>rrLeft := l, delayQueue := q, delayQueueEvent := ev\<rparr> \<and> length l = length (rrLeft s)"
proof -
  have "s' = s\<lparr>rrLeft := rrLeft s', delayQueue := delayQueue s', delayQueueEvent := delayQueueEvent s'\<rparr>"
    "length (rrLeft s') = length (rrLeft s)"
    using assms by (auto simp: note_request_def insertIntoDelayQueue_def insertIntoRR_def schedule_delay_def Let_def
        split: if_splits)
  then show ?thesis by blast
qed

lemma note_request_ok:
  assumes "rr_wf s" "unat now + unat (delayTicks s) < 2 ^ 64"
  shows "\<exists>s'. note_request now addr s = Inr s'"
proof -
  have "unat (now + ucast (delayTicks s)) = unat now + unat (delayTicks s)"
    using assms(2) by (simp add: unat_word_ariths)
  then have "\<not> now + ucast (delayTicks s) < now" by (simp add: word_less_nat_alt)
  then show ?thesis using insertIntoRR_left [OF assms(1), of addr "bop_tag s addr"]
    by (auto simp: note_request_def insertIntoDelayQueue_def schedule_delay_def Let_def)
qed

lemma learning_frame:
  assumes "bestOffsetLearning addr s = Inr s'"
  shows "learn_frame s s'"
  using assms scored_frame [of s addr] learn_frame_trans [OF scored_frame end_phase_frame, of s addr]
  by (auto simp: bestOffsetLearning_def scored_def Let_def split: if_splits)

lemma calculatePrefetch_BOP_truncate:
  assumes "calculatePrefetch_BOP now pfi cache s = Inr (as, s')"
  shows "QueuedPf.truncate s' = QueuedPf.truncate s"
proof -
  from assms obtain s1 where s1: "note_request now (pf_address pfi) s = Inr s1"
    and s': "bestOffsetLearning (pf_address pfi) s1 = Inr s'"
    by (auto simp: calculatePrefetch_BOP_eq)
  have "QueuedPf.truncate s1 = QueuedPf.truncate s"
    using note_request_frame [OF s1] by (auto simp: QueuedPf.truncate_def)
  then show ?thesis using learn_frameD(1) [OF learning_frame [OF s']] by simp
qed

lemma calculatePrefetch_BOP_ok:
  assumes "bop_ok now s"
  shows "\<exists>as s'. calculatePrefetch_BOP now pfi cache s = Inr (as, s') \<and> bop_ok now s' \<and>
    (\<exists>s1. note_request now (pf_address pfi) s = Inr s1 \<and> bestOffsetLearning (pf_address pfi) s1 = Inr s')"
proof -
  obtain s1 where s1: "note_request now (pf_address pfi) s = Inr s1"
    using note_request_ok assms unfolding bop_ok_def by blast
  from note_request_frame [OF s1] assms have ok1: "bop_ok now s1" by (auto simp: bop_ok_def rr_wf_def)
  then obtain s' where s': "bestOffsetLearning (pf_address pfi) s1 = Inr s'" "learn_wf s'" "learn_frame s1 s'"
    using learning_step unfolding bop_ok_def by blast
  have "bop_ok now s'" using ok1 s'(2) learn_frameD [OF s'(3)] by (simp add: bop_ok_def rr_wf_def)
  then show ?thesis using s1 s'(1) by (simp add: calculatePrefetch_BOP_eq)
qed

interpretation bop: prefetch_generator "calculatePrefetch_BOP now" "bop_ok now" "\<lambda>_. True"
  for now :: Tick
proof
  fix pfi c and s s' :: "'a BopPf_scheme" and as
  show "calculatePrefetch_BOP now pfi c s = Inr (as, s') \<Longrightarrow> QueuedPf.truncate s' = QueuedPf.truncate s"
    by (rule calculatePrefetch_BOP_truncate)
  show "bop_ok now s \<Longrightarrow> calculatePrefetch_BOP now pfi c s = Inr (as, s') \<Longrightarrow> bop_ok now s'"
    using calculatePrefetch_BOP_ok [of now s pfi c] by auto
  show "same_config s s' \<Longrightarrow> bop_ok now s \<Longrightarrow> bop_ok now s'"
    using bop_more(1) same_configD(9) by blast
  show "bop_ok now s \<Longrightarrow> True \<Longrightarrow> \<exists>r. calculatePrefetch_BOP now pfi c s = Inr r"
    using calculatePrefetch_BOP_ok [of now s pfi c] by auto
qed

end
