(* ===== verification/BopProps.thy ===== *)
theory BopProps
  imports BopPf
begin

text \<open>
  Properties of the best offset prefetcher: what its constructor builds, that an access never
  stops the simulation, which offset a learning phase selects and how long a phase can last, the
  delay queue over time, and what becomes of the tag a prefetch fill records.
\<close>

section \<open>Construction\<close>

definition smooth_list :: "bool \<Rightarrow> nat \<Rightarrow> int list" where
  "smooth_list neg m =
     concat (map (\<lambda>x. int x # (if neg then [- int x] else [])) (filter smooth5 [1..<m]))"

lemma sint_small16:
  assumes "x < 2 ^ 15"
  shows "sint (of_nat x :: 16 word) = int x" "sint (- of_nat x :: 16 word) = - int x"
proof -
  have "sint (word_of_int k :: 16 word) = k" if "- (2 ^ 15) \<le> k" "k < 2 ^ 15" for k
    using that by (simp add: sint_sbintrunc' signed_take_bit_int_eq_self)
  from this [of "int x"] this [of "- int x"] assms
  show "sint (of_nat x :: 16 word) = int x" "sint (- of_nat x :: 16 word) = - int x"
    by (simp_all add: of_nat_less_numeral_power_cancel_iff)
qed

lemma sint_signed_offsets:
  assumes "\<forall>x \<in> set xs. x < 2 ^ 15"
  shows "map (\<lambda>e. sint (fst e)) (signed_offsets neg xs)
    = concat (map (\<lambda>x. int x # (if neg then [- int x] else [])) xs)"
  using assms by (induction xs) (auto simp: signed_offsets_def sint_small16)

lemma signed_offsets_scores: "e \<in> set (signed_offsets neg xs) \<Longrightarrow> snd e = 0"
  by (auto simp: signed_offsets_def split: if_splits)

text \<open>C16: The constructor of the best offset prefetcher, for a list of up to 26 offsets (52 with the negative ones),
  builds exactly the smallest offsets without a prime factor above 5, each followed by its
  negation when negative offsets are on, none of them changed by the 16 bits it is stored in, and
  the state it leaves is a valid learning state.\<close>

theorem bop_construction:
  assumes size: "0 < offset_list_size" "unat offset_list_size \<le> (if neg then 52 else 26)"
      "neg \<longrightarrow> even (unat offset_list_size)"
    and config: "tag_bits \<le> 30" "isPowerOf2 (ucast rr_size)" "isPowerOf2 (ucast (blkSize q))" "0 < sint deg"
    and time: "unat now < 2 ^ 63"
  shows "\<exists>s m. newBopPf score_max round_max bad_score rr_size tag_bits offset_list_size neg
      delay delay_size delay_cycles deg q = Inr s \<and> bop_ok now s \<and>
    map (\<lambda>e. sint (fst e)) (offsetsList s) = smooth_list neg m \<and> length (offsetsList s) = unat offset_list_size"
proof -
  obtain m where m: "m \<le> 64"
    "offsets_from neg (unat offset_list_size) 0 1 = Inr (signed_offsets neg (filter smooth5 [1..<m]))"
    "length (signed_offsets neg (filter smooth5 [1..<m])) = unat offset_list_size"
    using offsets_ok [OF size(2,3)] by blast
  let ?l = "signed_offsets neg (filter smooth5 [1..<m])"
  obtain s where s: "newBopPf score_max round_max bad_score rr_size tag_bits offset_list_size neg
      delay delay_size delay_cycles deg q = Inr s" "offsetsList s = ?l" "offsetsListIterator s = 0"
      "bestScore s = 0" "phaseBestOffset s = 0" "bop_round s = 0" "bestOffset s = 1" "rrEntries s = rr_size"
      "length (rrLeft s) = unat rr_size" "length (rrRight s) = unat rr_size"
    using config size(3) m(2) by (simp add: newBopPf_def QueuedPf.defs)
  have "learn_wf s" using m(3) size(1) s signed_offsets_scores [of _ neg "filter smooth5 [1..<m]"]
    by (simp add: learn_wf_def scores_wf_def word_gt_0 unat_gt_0)
  moreover have "unat now + unat (delayTicks s) < 2 ^ 64" using time unat_less32 [of "delayTicks s"] by simp
  ultimately have "bop_ok now s" using s config(2) by (simp add: bop_ok_def rr_wf_def)
  moreover have "map (\<lambda>e. sint (fst e)) ?l = smooth_list neg m"
    unfolding smooth_list_def using m(1) by (intro sint_signed_offsets) auto
  ultimately show ?thesis using s(1,2) m(3) by auto
qed

theorem bop_construction_witness:
  "\<exists>s m. newBopPf 31 100 10 64 12 46 True True 15 60 1 (ex_queued [] []) = Inr s \<and> bop_ok 0 s \<and>
    map (\<lambda>e. sint (fst e)) (offsetsList s) = smooth_list True m \<and> length (offsetsList s) = 46"
proof -
  have "isPowerOf2 (ucast (blkSize (ex_queued [] [])))" using ex_base_wf [of "[]" "[]"] by (simp add: base_wf_def)
  moreover have "isPowerOf2 (ucast (64 :: u32))" by (simp add: isPowerOf2_def)
  ultimately show ?thesis
    using bop_construction [of 46 True 12 64 "ex_queued [] []" 1 0 31 100 10 True 15 60] by simp
qed

section \<open>Accesses\<close>

definition ex_bop :: BopPf where
  "ex_bop = QueuedPf.extend (ex_queued [] [])
     \<lparr>scoreMax = 2, roundMax = 3, badScore = 1, rrEntries = 2, tagMask = 0xFFF, delayQueueEnabled = True,
      delayQueueSize = 15, delayTicks = 500, rrLeft = [0, 0x40], rrRight = [0, 0],
      offsetsList = [(1, 1), (2, 0)], delayQueue = [], delayQueueEvent = None, issuePrefetchRequests = False,
      bestOffset = 1, phaseBestOffset = 1, offsetsListIterator = 0, bestScore = 1, bop_round = 1, bop_degree = 2\<rparr>"

lemmas ex_bop_simps = ex_bop_def QueuedPf.defs ex_queued_def

lemma ex_bop_ok: "bop_ok 1000 ex_bop"
  by (simp add: ex_bop_simps bop_ok_def rr_wf_def learn_wf_def scores_wf_def leader_def offsets_of_def isPowerOf2_def)

lemma ex_bop_good: "good (bop_ok 1000) ex_bop"
proof -
  have t: "QueuedPf.truncate ex_bop = ex_queued [] []" by (simp add: ex_bop_simps)
  have "queued_wf (ex_queued [] [])" "roomy (ex_queued [] [])"
    using ex_base_wf [of "[]" "[]"] by (simp_all add: queued_wf_def roomy_def ex_queued_def)
  then show ?thesis using truncate_wf [of ex_bop] ex_bop_ok by (simp add: good_def t)
qed

text \<open>C14: The best offset prefetcher never stops the simulation: from every well-formed state, whatever
  access the cache reports, with or without a program counter, is filtered, counted and processed to
  the end, candidates queued included, and the queues, the table and the learning state are
  well-formed afterwards; so is what a fill or the event of the delay queue leaves. The access has a
  physical address, without which the probe panics by design, and its request has a program
  counter if it has a virtual address, as every request built by the constructors does.\<close>

theorem bop_notify_safe:
  assumes "good (bop_ok (curTick env)) s" "pkt_addr pkt \<noteq> None" "req_paddr (req pkt) \<noteq> None" "request_wf (req pkt)"
  shows "(\<exists>s'. probeNotify (\<lambda>pkt cache pfi. notify_queued (calculatePrefetch_BOP (curTick env)) env pkt pfi)
        pkt cache miss s = Inr s' \<and> good (bop_ok (curTick env)) s') \<and>
    (\<exists>s'. delayQueueEventWrapper (curTick env) s = Inr s' \<and> good (bop_ok (curTick env)) s') \<and>
    (\<forall>a. pkt_addr fill = Some a \<longrightarrow> (\<exists>s'. notifyFill_BOP fill s = Inr s' \<and> good (bop_ok (curTick env)) s'))"
proof (intro conjI allI impI)
  show "\<exists>s'. probeNotify (\<lambda>pkt cache pfi. notify_queued (calculatePrefetch_BOP (curTick env)) env pkt pfi)
      pkt cache miss s = Inr s' \<and> good (bop_ok (curTick env)) s'"
    by (rule bop.probe_total [OF assms(1) _ assms(2-4)]) simp
  have rr: "rr_wf s" and ok: "bop_ok (curTick env) s" using assms(1) by (simp_all add: good_def bop_ok_def)
  have keep: "good (bop_ok (curTick env)) s'" if "QueuedPf.truncate s' = QueuedPf.truncate s" "bop_ok (curTick env) s'"
    for s' using assms(1) that truncate_frame(1-3) [OF that(1)] by (simp add: good_def)
  show "\<exists>s'. delayQueueEventWrapper (curTick env) s = Inr s' \<and> good (bop_ok (curTick env)) s'"
    unfolding delayQueueEventWrapper_effect [OF rr] using ok
    by (auto intro!: keep simp: QueuedPf.truncate_def bop_ok_def rr_wf_def)
  fix a assume "pkt_addr fill = Some a"
  then show "\<exists>s'. notifyFill_BOP fill s = Inr s' \<and> good (bop_ok (curTick env)) s'"
    using insertIntoRR_right [OF rr, of a "bop_tag s a - bestOffset s"] ok keep [of s]
    by (auto intro!: keep simp: notifyFill_BOP_def getAddr_def QueuedPf.truncate_def bop_ok_def rr_wf_def Let_def)
qed

theorem bop_notify_safe_witness:
  "(\<exists>s'. probeNotify (\<lambda>pkt cache pfi. notify_queued (calculatePrefetch_BOP 1000) ex_env pkt pfi)
     ex_packet (env_cache ex_env) True ex_bop = Inr s' \<and> good (bop_ok 1000) s') \<and>
   (\<exists>s'. notifyFill_BOP ex_packet ex_bop = Inr s')"
proof -
  have c: "curTick ex_env = 1000" by (simp add: ex_env_def)
  have "pkt_addr ex_packet \<noteq> None" "req_paddr (req ex_packet) \<noteq> None" "request_wf (req ex_packet)"
    by (simp_all add: ex_packet_def physRequest_def request_wf_def)
  note safe = bop_notify_safe [of ex_env ex_bop, unfolded c, OF ex_bop_good this, of "env_cache ex_env" True ex_packet]
  obtain a where "pkt_addr ex_packet = Some a" by (simp add: ex_packet_def)
  then show ?thesis using safe by blast
qed

section \<open>Learning phases\<close>

text \<open>The scores an access leaves before the check for the end of the phase.\<close>

definition scores_at :: "Tick \<Rightarrow> Addr \<Rightarrow> 'a BopPf_scheme \<Rightarrow> 'a BopPf_scheme option" where
  "scores_at now addr s = (case note_request now addr s of Inl _ \<Rightarrow> None | Inr s1 \<Rightarrow> Some (scored addr s1))"

definition ends_phase :: "Tick \<Rightarrow> Addr \<Rightarrow> 'a BopPf_scheme \<Rightarrow> bool" where
  "ends_phase now addr s \<longleftrightarrow> (case scores_at now addr s of None \<Rightarrow> False | Some t \<Rightarrow> phase_over t)"

lemma note_request_learn:
  assumes "note_request now addr s = Inr s1"
  shows "learn_wf s1 = learn_wf s" "badScore s1 = badScore s" "scoreMax s1 = scoreMax s" "roundMax s1 = roundMax s"
    "offsetsList s1 = offsetsList s" "offsetsListIterator s1 = offsetsListIterator s" "bop_round s1 = bop_round s"
    "bestOffset s1 = bestOffset s" "rr_wf s1 = rr_wf s" "delayTicks s1 = delayTicks s"
  using note_request_frame [OF assms] by (auto simp: rr_wf_def)

lemma scored_config [simp]:
  "badScore (scored addr s) = badScore s" "scoreMax (scored addr s) = scoreMax s" "roundMax (scored addr s) = roundMax s"
  using learn_frameD [OF scored_frame] by blast+

lemma access_result:
  assumes "learn_wf s" "calculatePrefetch_BOP now pfi cache s = Inr (as, s')"
    "scores_at now (pf_address pfi) s = Some t"
  shows "s' = (if ends_phase now (pf_address pfi) s then end_phase t else t)"
proof -
  obtain s1 where s1: "note_request now (pf_address pfi) s = Inr s1" "t = scored (pf_address pfi) s1"
    using assms(3) by (auto simp: scores_at_def split: sum.splits)
  have "learn_wf s1" using assms(1) note_request_learn [OF s1(1)] by simp
  then show ?thesis using assms(2) s1 bestOffsetLearning_eq [of s1 "pf_address pfi"]
    by (auto simp: calculatePrefetch_BOP_eq ends_phase_def scores_at_def)
qed

text \<open>C9: When an access ends a learning phase, the offset that is prefetched from then on has the
  largest score of all candidates, provided some score exceeds \<open>badScore\<close>; otherwise prefetching
  is switched off and the old offset stays. The scores start again from zero. (Scores have eight
  bits, so \<open>scoreMax\<close> must be one they can reach.)\<close>

theorem bop_phase_choice:
  assumes "bop_ok now s" "unat (scoreMax s) \<le> 255" "calculatePrefetch_BOP now pfi cache s = Inr (as, s')"
    "scores_at now (pf_address pfi) s = Some t" "ends_phase now (pf_address pfi) s"
  shows "fresh s' \<and>
    (if \<exists>e \<in> set (offsetsList t). unat (badScore s) < unat (snd e)
     then issuePrefetchRequests s' \<and> (\<exists>e \<in> set (offsetsList t). scast (fst e) = bestOffset s' \<and>
       (\<forall>e' \<in> set (offsetsList t). snd e' \<le> snd e))
     else \<not> issuePrefetchRequests s' \<and> bestOffset s' = bestOffset s)"
proof -
  obtain s1 where s1: "note_request now (pf_address pfi) s = Inr s1" "t = scored (pf_address pfi) s1"
    using assms(4) by (auto simp: scores_at_def split: sum.splits)
  have wf1: "learn_wf s1" using assms(1) note_request_learn [OF s1(1)] by (simp add: bop_ok_def)
  have sc: "scores_wf t" using scored_facts(1) [OF wf1] s1(2) by simp
  have cfg: "badScore t = badScore s" "scoreMax t = scoreMax s" "bestOffset t = bestOffset s"
    using note_request_learn [OF s1(1)] s1(2) scored_facts(5) [OF wf1] by simp_all
  have s': "s' = end_phase t" using access_result [OF _ assms(3,4)] assms(1,5) by (simp add: bop_ok_def)
  have max: "unat (snd e) \<le> unat (bestScore t)" if "e \<in> set (offsetsList t)" for e
    using sc that by (simp add: scores_wf_def)
  show ?thesis
  proof (cases "badScore t < bestScore t")
    case True
    then have nz: "bestScore t \<noteq> 0" by (metis word_not_simps(1))
    then obtain e where e: "e \<in> set (offsetsList t)" "scast (fst e) = phaseBestOffset t"
      "unat (snd e) = unat (bestScore t)"
      using sc assms(2) cfg by (auto simp: scores_wf_def leader_def)
    then have "\<forall>e' \<in> set (offsetsList t). snd e' \<le> snd e" using max by (simp add: word_le_nat_alt)
    moreover have "\<exists>e \<in> set (offsetsList t). unat (badScore s) < unat (snd e)"
      using True e(1,3) cfg by (intro bexI [of _ e]) (simp_all add: word_less_nat_alt)
    ultimately show ?thesis using e True unfolding s' by (simp add: end_phase_choice) blast
  next
    case False
    then have "\<not> (\<exists>e \<in> set (offsetsList t). unat (badScore s) < unat (snd e))"
      using max cfg by (fastforce simp: word_less_nat_alt)
    then show ?thesis using False cfg unfolding s' by (auto simp: end_phase_choice)
  qed
qed

theorem bop_phase_choice_witness:
  "\<exists>as s'. calculatePrefetch_BOP 1000 (ex_info 0x1040) (env_cache ex_env) ex_bop = Inr (as, s') \<and> fresh s' \<and>
    issuePrefetchRequests s' \<and> as = [(0x1080, 0), (0x10C0, 0)]"
proof -
  obtain t where t: "scores_at 1000 0x1040 ex_bop = Some t" "offsetsList t = [(1, 2), (2, 0)]" "phase_over t"
    by (simp add: ex_bop_simps scores_at_def note_request_def insertIntoDelayQueue_def schedule_delay_def scored_def
        score_offset_def next_offset_def testRR_def bop_tag_def phase_over_def Let_def)
  obtain as s' where s': "calculatePrefetch_BOP 1000 (ex_info 0x1040) (env_cache ex_env) ex_bop = Inr (as, s')"
    using calculatePrefetch_BOP_ok [OF ex_bop_ok] by blast
  have "as = [(0x1080, 0), (0x10C0, 0)]" using s'
    by (simp add: ex_bop_simps calculatePrefetch_BOP_eq note_request_def insertIntoDelayQueue_def schedule_delay_def
        bestOffsetLearning_def score_offset_def next_offset_def testRR_def bop_tag_def phase_over_def end_phase_def
        resetScores_def bop_candidates_def ex_info_def Let_def upt_rec)
  moreover have "fresh s' \<and> issuePrefetchRequests s'"
    using bop_phase_choice [OF ex_bop_ok _ s', of t] t
    by (simp add: ex_info_def ends_phase_def) (simp add: ex_bop_simps)
  ultimately show ?thesis using s' by blast
qed

text \<open>The position within a phase, and what the code can do between two ticks.\<close>

definition learn_pos :: "'a BopPf_scheme \<Rightarrow> nat" where
  "learn_pos s = unat (bop_round s) * length (offsetsList s) + offsetsListIterator s"

lemma learn_pos_bound:
  assumes "learn_wf s"
  shows "learn_pos s < max 1 (unat (roundMax s)) * length (offsetsList s)"
proof -
  have it: "offsetsListIterator s < length (offsetsList s)" using assms by (simp add: learn_wf_def)
  have "unat (bop_round s) < max 1 (unat (roundMax s))"
    using assms by (auto simp: learn_wf_def word_less_nat_alt)
  then have "Suc (unat (bop_round s)) * length (offsetsList s) \<le> max 1 (unat (roundMax s)) * length (offsetsList s)"
    by (intro mult_le_mono1) simp
  with it show ?thesis by (simp add: learn_pos_def)
qed

lemma learn_pos_next:
  assumes "learn_wf s"
  shows "learn_pos (scored addr s) = Suc (learn_pos s)"
proof -
  have r: "unat (bop_round s + 1) = Suc (unat (bop_round s))"
  proof -
    have "unat (bop_round s) < 2 ^ 32 - 1"
      using assms unat_less32 [of "roundMax s"] by (auto simp: learn_wf_def word_less_nat_alt)
    then show ?thesis by (simp add: unat_word_ariths)
  qed
  show ?thesis using assms r by (auto simp: learn_pos_def scored_def next_offset_def learn_wf_def)
qed

datatype BopAction = BopAccess Tick CacheAccessor PrefetchInfo | BopFill Packet | BopDelay Tick

text \<open>A run, and for each access in it whether it ended a phase.\<close>

fun bop_run :: "BopAction list \<Rightarrow> 'a BopPf_scheme \<Rightarrow> (bool list \<times> 'a BopPf_scheme) result" where
  "bop_run [] s = Inr ([], s)"
| "bop_run (BopAccess now cache pfi # acts) s =
     bindR (calculatePrefetch_BOP now pfi cache s) (\<lambda>(as, s1).
     bindR (bop_run acts s1) (\<lambda>(fs, s2). Inr (ends_phase now (pf_address pfi) s # fs, s2)))"
| "bop_run (BopFill pkt # acts) s = bindR (notifyFill_BOP pkt s) (bop_run acts)"
| "bop_run (BopDelay now # acts) s = bindR (delayQueueEventWrapper now s) (bop_run acts)"

lemma access_step:
  assumes "rr_wf s" "learn_wf s" "calculatePrefetch_BOP now pfi cache s = Inr (as, s')"
  shows "rr_wf s' \<and> learn_wf s' \<and> roundMax s' = roundMax s \<and> length (offsetsList s') = length (offsetsList s) \<and>
    (\<not> ends_phase now (pf_address pfi) s \<longrightarrow> learn_pos s' = Suc (learn_pos s))"
proof -
  let ?a = "pf_address pfi"
  obtain s1 where s1: "note_request now ?a s = Inr s1" and b: "bestOffsetLearning ?a s1 = Inr s'"
    using assms(3) by (auto simp: calculatePrefetch_BOP_eq)
  have t: "scores_at now ?a s = Some (scored ?a s1)" using s1 by (simp add: scores_at_def)
  note n = note_request_learn [OF s1]
  have wf1: "learn_wf s1" using assms(2) n by simp
  then obtain s2 where s2: "bestOffsetLearning ?a s1 = Inr s2" "learn_wf s2" "learn_frame s1 s2"
    "map fst (offsetsList s2) = map fst (offsetsList s1)" using learning_step by blast
  with b have wf: "learn_wf s'" and fr: "learn_frame s1 s'"
    and fs: "map fst (offsetsList s') = map fst (offsetsList s1)" by simp_all
  have "learn_pos s' = Suc (learn_pos s)" if "\<not> ends_phase now ?a s"
    using access_result [OF assms(2,3) t] that learn_pos_next [OF wf1, of ?a] n by (simp add: learn_pos_def)
  moreover have "length (offsetsList s') = length (offsetsList s)" "roundMax s' = roundMax s"
    using map_eq_imp_length_eq [OF fs] learn_frameD(4) [OF fr] n by simp_all
  moreover have "rr_wf s'" using assms(1) n(9) learn_frameD(6,11,12) [OF fr] by (simp add: rr_wf_def)
  ultimately show ?thesis using wf by blast
qed

lemma fill_step:
  assumes "rr_wf s" "notifyFill_BOP pkt s = Inr s'"
  shows "\<exists>r. s' = s\<lparr>rrRight := r\<rparr> \<and> length r = length (rrRight s)"
proof (cases "testCmdAttrib (cmd pkt) IsHWPrefetch \<and> issuePrefetchRequests s")
  case True
  with assms(2) obtain a where a: "insertIntoRR a (bop_tag s a - bestOffset s) RRRight s = Inr s'"
    by (simp add: notifyFill_BOP_def Let_def) blast
  obtain i where "insertIntoRR a (bop_tag s a - bestOffset s) RRRight s
      = Inr (s\<lparr>rrRight := (rrRight s)[i := bop_tag s a - bestOffset s]\<rparr>)"
    using insertIntoRR_right [OF assms(1)] by blast
  then have "s' = s\<lparr>rrRight := (rrRight s)[i := bop_tag s a - bestOffset s]\<rparr>" using a by simp
  then show ?thesis by (intro exI) (rule conjI, assumption, simp)
next
  case False
  then have "s' = s" using assms(2) by (simp add: notifyFill_BOP_def Let_def split: if_splits)
  then have "s' = s\<lparr>rrRight := rrRight s\<rparr>" by simp
  then show ?thesis by blast
qed

lemma delay_step:
  assumes "rr_wf s" "delayQueueEventWrapper now s = Inr s'"
  shows "\<exists>l q ev. s' = s\<lparr>rrLeft := l, delayQueue := q, delayQueueEvent := ev\<rparr> \<and> length l = length (rrLeft s)"
  using assms(2) unfolding delayQueueEventWrapper_effect [OF assms(1)] by (metis Inr_inject length_delivered)

lemma run_bound:
  assumes "bop_run acts s = Inr (fs, s')" "rr_wf s" "learn_wf s" "k \<le> length fs" "True \<notin> set (take k fs)"
  shows "learn_pos s + k < max 1 (unat (roundMax s)) * length (offsetsList s)"
  using assms
proof (induction acts s arbitrary: fs s' k rule: bop_run.induct)
  case (1 s)
  then show ?case using learn_pos_bound by simp
next
  case (2 now cache pfi acts s)
  then obtain as s1 fs1 where s1: "calculatePrefetch_BOP now pfi cache s = Inr (as, s1)"
    and r: "bop_run acts s1 = Inr (fs1, s')" and fs: "fs = ends_phase now (pf_address pfi) s # fs1"
    by auto
  note st = access_step [OF 2(3,4) s1]
  show ?case
  proof (cases k)
    case 0
    then show ?thesis using learn_pos_bound [OF 2(4)] by simp
  next
    case (Suc j)
    have "learn_pos s1 + j < max 1 (unat (roundMax s1)) * length (offsetsList s1)"
      using 2(1) [OF r] st 2(5,6) fs Suc by simp
    then show ?thesis using st 2(6) fs Suc by simp
  qed
next
  case (3 pkt acts s)
  then obtain s1 where s1: "notifyFill_BOP pkt s = Inr s1" and r: "bop_run acts s1 = Inr (fs, s')" by auto
  obtain rr where "s1 = s\<lparr>rrRight := rr\<rparr>" "length rr = length (rrRight s)" using fill_step [OF 3(3) s1] by blast
  then have "rr_wf s1" "learn_wf s1" "learn_pos s1 = learn_pos s" "roundMax s1 = roundMax s"
    "offsetsList s1 = offsetsList s" using 3(3,4) by (simp_all add: rr_wf_def learn_pos_def)
  with 3(1) [OF r this(1,2) 3(5,6)] show ?case by (simp only:)
next
  case (4 now acts s)
  then obtain s1 where s1: "delayQueueEventWrapper now s = Inr s1" and r: "bop_run acts s1 = Inr (fs, s')" by auto
  obtain l q ev where "s1 = s\<lparr>rrLeft := l, delayQueue := q, delayQueueEvent := ev\<rparr>" "length l = length (rrLeft s)"
    using delay_step [OF 4(3) s1] by blast
  then have "rr_wf s1" "learn_wf s1" "learn_pos s1 = learn_pos s" "roundMax s1 = roundMax s"
    "offsetsList s1 = offsetsList s" using 4(3,4) by (simp_all add: rr_wf_def learn_pos_def)
  with 4(1) [OF r this(1,2) 4(5,6)] show ?case by (simp only:)
qed

text \<open>C8: A learning phase cannot go on for ever: whatever fills and delay events come in between, among
  any \<open>roundMax\<close> times the number of offsets consecutive accesses there is one that ends a phase
  and thereby decides anew which offset is prefetched, or whether any is.\<close>

theorem bop_phase_bound:
  assumes "bop_run acts s = Inr (fs, s')" "rr_wf s" "learn_wf s"
    "max 1 (unat (roundMax s)) * length (offsetsList s) \<le> length fs"
  shows "True \<in> set (take (max 1 (unat (roundMax s)) * length (offsetsList s)) fs)"
proof (rule ccontr)
  assume "\<not> ?thesis"
  from run_bound [OF assms this] show False by simp
qed

theorem bop_phase_bound_witness:
  "\<exists>fs s'. bop_run (replicate 6 (BopAccess 1000 (env_cache ex_env) (ex_info 0x9040))) ex_bop = Inr (fs, s') \<and>
     True \<in> set (take 6 fs)"
proof -
  have ok: "rr_wf ex_bop" "learn_wf ex_bop" using ex_bop_ok by (simp_all add: bop_ok_def)
  have cfg: "max 1 (unat (roundMax ex_bop)) * length (offsetsList ex_bop) = 6" by (simp add: ex_bop_simps)
  have "\<exists>fs s'. bop_run (replicate n (BopAccess 1000 c pfi)) s = Inr (fs, s') \<and> length fs = n"
    if "bop_ok 1000 s" for n c pfi and s :: BopPf
    using that
  proof (induction n arbitrary: s)
    case (Suc n)
    then obtain as s1 where "calculatePrefetch_BOP 1000 pfi c s = Inr (as, s1)" "bop_ok 1000 s1"
      using calculatePrefetch_BOP_ok by blast
    with Suc.IH [of s1] show ?case by auto
  qed simp
  from this [OF ex_bop_ok] obtain fs s' where
    "bop_run (replicate 6 (BopAccess 1000 (env_cache ex_env) (ex_info 0x9040))) ex_bop = Inr (fs, s')" "length fs = 6"
    by blast
  with bop_phase_bound [OF this(1) ok] cfg show ?thesis by simp
qed

section \<open>The delay queue over time\<close>

text \<open>Steps with the tick they happen at: time does not run backwards, and no step happens after a
  tick for which the event of the delay queue is scheduled before that event has run.\<close>

inductive bop_timed :: "Tick \<times> 'a BopPf_scheme \<Rightarrow> Tick \<times> 'a BopPf_scheme \<Rightarrow> bool" where
  timed_access: "now \<le> now' \<Longrightarrow> (\<And>w. delayQueueEvent s = Some w \<Longrightarrow> now' \<le> w) \<Longrightarrow>
    unat now' + unat (delayTicks s) < 2 ^ 64 \<Longrightarrow>
    calculatePrefetch_BOP now' pfi cache s = Inr (as, s') \<Longrightarrow> bop_timed (now, s) (now', s')"
| timed_fill: "now \<le> now' \<Longrightarrow> (\<And>w. delayQueueEvent s = Some w \<Longrightarrow> now' \<le> w) \<Longrightarrow>
    unat now' + unat (delayTicks s) < 2 ^ 64 \<Longrightarrow>
    notifyFill_BOP pkt s = Inr s' \<Longrightarrow> bop_timed (now, s) (now', s')"
| timed_event: "delayQueueEvent s = Some w \<Longrightarrow> unat w + unat (delayTicks s) < 2 ^ 64 \<Longrightarrow>
    delayQueueEventWrapper w s = Inr s' \<Longrightarrow> bop_timed (now, s) (w, s')"

definition delay_wf :: "Tick \<Rightarrow> 'a BopPf_scheme \<Rightarrow> bool" where
  "delay_wf now s \<longleftrightarrow> delayQueueEvent s = front_tick (delayQueue s) \<and>
     sorted (map processTick (delayQueue s)) \<and> length (delayQueue s) \<le> unat (delayQueueSize s) \<and>
     (\<forall>e \<in> set (delayQueue s). now \<le> processTick e \<and> unat (processTick e) \<le> unat now + unat (delayTicks s))"

lemma delay_wf_later:
  assumes "delay_wf now s" "now \<le> now'" "\<And>w. delayQueueEvent s = Some w \<Longrightarrow> now' \<le> w"
  shows "delay_wf now' s"
proof -
  have "now' \<le> processTick e" if "e \<in> set (delayQueue s)" for e
  proof -
    have "delayQueue s \<noteq> []" using that by auto
    then obtain f q where q: "delayQueue s = f # q" by (auto simp: neq_Nil_conv)
    then have "now' \<le> processTick f" using assms(1,3) by (simp add: delay_wf_def front_tick_def)
    moreover have "processTick f \<le> processTick e" using assms(1) q that by (auto simp: delay_wf_def)
    ultimately show ?thesis by simp
  qed
  moreover have "unat (processTick e) \<le> unat now' + unat (delayTicks s)" if "e \<in> set (delayQueue s)" for e
    using assms(1,2) that by (fastforce simp: delay_wf_def word_le_nat_alt)
  ultimately show ?thesis using assms(1) by (simp add: delay_wf_def)
qed

lemma note_request_delay:
  assumes wf: "delay_wf now s" and fits: "unat now + unat (delayTicks s) < 2 ^ 64"
    and n: "note_request now addr s = Inr s1"
  shows "delay_wf now s1"
proof (cases "delayQueueEnabled s \<and> length (delayQueue s) \<noteq> unat (delayQueueSize s)")
  case True
  let ?t = "now + ucast (delayTicks s)"
  have t: "unat ?t = unat now + unat (delayTicks s)" using fits by (simp add: unat_word_ariths)
  have last: "processTick e \<le> ?t" if "e \<in> set (delayQueue s)" for e
    using wf that t by (simp add: delay_wf_def word_le_nat_alt)
  have ev: "delayQueueEvent s = front_tick (delayQueue s)" using wf by (simp add: delay_wf_def)
  have "s1 = s\<lparr>delayQueue := delayQueue s @ [\<lparr>baseAddr = addr, processTick = ?t\<rparr>],
      delayQueueEvent := (if delayQueue s = [] then Some ?t else delayQueueEvent s)\<rparr>"
    using n True ev by (cases "delayQueue s")
      (auto simp: note_request_def insertIntoDelayQueue_def schedule_delay_def front_tick_def Let_def split: if_splits)
  moreover have "front_tick (delayQueue s @ [\<lparr>baseAddr = addr, processTick = ?t\<rparr>])
      = (if delayQueue s = [] then Some ?t else delayQueueEvent s)"
    unfolding ev by (cases "delayQueue s") (simp_all add: front_tick_def)
  moreover have "now \<le> ?t" using t by (simp add: word_le_nat_alt)
  ultimately show ?thesis using wf True last t by (auto simp: delay_wf_def sorted_append)
next
  case False
  then have "delayQueue s1 = delayQueue s" "delayQueueEvent s1 = delayQueueEvent s"
    using n by (auto simp: note_request_def insertIntoDelayQueue_def insertIntoRR_def split: if_splits)
  moreover have "delayQueueSize s1 = delayQueueSize s" "delayTicks s1 = delayTicks s"
    using note_request_frame [OF n] by auto
  ultimately show ?thesis using wf by (simp add: delay_wf_def)
qed

lemma delay_wf_frame:
  assumes "delayQueue s' = delayQueue s" "delayQueueEvent s' = delayQueueEvent s" "delayQueueSize s' = delayQueueSize s"
    "delayTicks s' = delayTicks s"
  shows "delay_wf now s' = delay_wf now s"
  using assms by (simp add: delay_wf_def)

lemma due_of_sorted:
  fixes w :: Tick
  shows "sorted (map processTick q) \<Longrightarrow> dropWhile (due w) q = filter (\<lambda>e. w < processTick e) q"
  by (induction q) (auto simp: not_le filter_id_conv intro!: filter_True [symmetric])

lemma due_prefix:
  fixes w :: Tick
  assumes "sorted (map processTick q)" "\<And>e. e \<in> set q \<Longrightarrow> w \<le> processTick e"
  shows "filter (\<lambda>e. processTick e = w) q = takeWhile (due w) q"
  using assms
proof (induction q)
  case (Cons f q)
  have IH: "filter (\<lambda>e. processTick e = w) q = takeWhile (due w) q" using Cons by simp
  show ?case
  proof (cases "processTick f = w")
    case True
    then show ?thesis using IH by simp
  next
    case False
    then have "w < processTick f" using Cons.prems(2) [of f] by simp
    moreover have "processTick e \<noteq> w" if "e \<in> set q" for e
      using Cons.prems(1) that \<open>w < processTick f\<close> by fastforce
    ultimately show ?thesis by (auto simp: filter_empty_conv)
  qed
qed simp

lemma event_effect:
  assumes rr: "rr_wf s" and wf: "delay_wf now s" and ev: "delayQueueEvent s = Some w"
  shows "\<exists>s'. delayQueueEventWrapper w s = Inr s' \<and> rr_wf s' \<and> learn_wf s' = learn_wf s \<and> delay_wf w s' \<and>
    length (delayQueue s') < length (delayQueue s)"
proof -
  let ?q = "filter (\<lambda>e. w < processTick e) (delayQueue s)"
  have "sorted (map processTick (delayQueue s))" using wf by (simp add: delay_wf_def)
  note d = due_of_sorted [OF this, of w]
  obtain l where l: "length l = length (rrLeft s)"
    "delayQueueEventWrapper w s = Inr (s\<lparr>rrLeft := l, delayQueue := ?q, delayQueueEvent := front_tick ?q\<rparr>)"
    using delayQueueEventWrapper_effect [OF rr, of w] unfolding d by (metis length_delivered)
  obtain f q where f: "delayQueue s = f # q" "processTick f = w"
    using wf ev by (cases "delayQueue s") (auto simp: delay_wf_def front_tick_def)
  have "unat now \<le> unat w" using wf f by (auto simp: delay_wf_def word_le_nat_alt)
  then have "unat (processTick e) \<le> unat w + unat (delayTicks s)" if "e \<in> set (delayQueue s)" for e
    using wf that by (fastforce simp: delay_wf_def)
  moreover have "length ?q < length (delayQueue s)" using f by (simp add: less_Suc_eq_le)
  moreover have "length (delayQueue s) \<le> unat (delayQueueSize s)" using wf by (simp add: delay_wf_def)
  moreover have "sorted (map processTick ?q)" using wf by (simp add: delay_wf_def sorted_filter)
  ultimately have "delay_wf w (s\<lparr>rrLeft := l, delayQueue := ?q, delayQueueEvent := front_tick ?q\<rparr>)"
    by (simp add: delay_wf_def less_imp_le)
  then show ?thesis using l rr \<open>length ?q < length (delayQueue s)\<close> by (simp add: rr_wf_def)
qed

definition timed_ok :: "Tick \<times> 'a BopPf_scheme \<Rightarrow> bool" where
  "timed_ok c \<longleftrightarrow> rr_wf (snd c) \<and> learn_wf (snd c) \<and> delay_wf (fst c) (snd c)"

lemma timed_step:
  assumes "bop_timed c c'" "timed_ok c"
  shows "timed_ok c'"
  using assms
proof (induction rule: bop_timed.induct)
  case (timed_access now now' s pfi cache as s')
  have ok: "rr_wf s" "learn_wf s" "delay_wf now s" using timed_access(5) by (simp_all add: timed_ok_def)
  have wf: "delay_wf now' s" by (rule delay_wf_later [OF ok(3) timed_access(1,2)])
  obtain s1 where s1: "note_request now' (pf_address pfi) s = Inr s1" "bestOffsetLearning (pf_address pfi) s1 = Inr s'"
    using timed_access(4) by (auto simp: calculatePrefetch_BOP_eq)
  have "delay_wf now' s1" by (rule note_request_delay [OF wf timed_access(3) s1(1)])
  then have "delay_wf now' s'"
    using delay_wf_frame [OF learn_frameD(13,14,9,10) [OF learning_frame [OF s1(2)]]] by simp
  then show ?case using access_step [OF ok(1,2) timed_access(4)] by (simp add: timed_ok_def)
next
  case (timed_fill now now' s pkt s')
  have ok: "rr_wf s" "learn_wf s" "delay_wf now s" using timed_fill(5) by (simp_all add: timed_ok_def)
  have wf: "delay_wf now' s" by (rule delay_wf_later [OF ok(3) timed_fill(1,2)])
  obtain r where "s' = s\<lparr>rrRight := r\<rparr>" "length r = length (rrRight s)" using fill_step [OF ok(1) timed_fill(4)] by blast
  then show ?case using wf ok by (simp add: timed_ok_def delay_wf_def rr_wf_def)
next
  case (timed_event s w s' now)
  have ok: "rr_wf s" "learn_wf s" "delay_wf now s" using timed_event(4) by (simp_all add: timed_ok_def)
  show ?case using event_effect [OF ok(1,3) timed_event(1)] timed_event(3) ok(2) by (auto simp: timed_ok_def)
qed

lemma timed_reachable: "bop_timed\<^sup>*\<^sup>* c c' \<Longrightarrow> timed_ok c \<Longrightarrow> timed_ok c'"
  by (induction rule: rtranclp_induct) (auto intro: timed_step)

text \<open>C13: The delay queue delivers in order and on time. In every reachable state the queue is within
  its size and ordered by the tick its entries are due at, none of which is past or more than the
  delay ahead, and the event is scheduled exactly for the first entry. When it runs, it succeeds:
  it takes exactly the entries that are due at that tick, at least one, from the queue, writes
  their tags to the left table, each to the slot its address hashes to and in the order of the
  queue, so that an access finds the tag of the last of them, schedules itself for the first
  entry that remains, and changes nothing else.\<close>

theorem bop_delay_order:
  assumes "bop_timed\<^sup>*\<^sup>* (start, s0) (now, s)" "rr_wf s0" "learn_wf s0" "delayQueue s0 = []" "delayQueueEvent s0 = None"
  shows "delay_wf now s \<and> (\<forall>w. delayQueueEvent s = Some w \<longrightarrow>
    now \<le> w \<and> (\<exists>es rest s'. delayQueueEventWrapper w s = Inr s' \<and> delayQueue s = es @ rest \<and>
      es = filter (\<lambda>e. processTick e = w) (delayQueue s) \<and> es \<noteq> [] \<and>
      s' = s\<lparr>rrLeft := fold (deliver s) es (rrLeft s), delayQueue := rest, delayQueueEvent := front_tick rest\<rparr> \<and>
      (\<forall>e \<in> set es. \<exists>i < length (rrLeft s). rr_index (baseAddr e) RRLeft s = Inr i) \<and>
      testRR (bop_tag s (baseAddr (last es))) s'))"
proof -
  have "timed_ok (start, s0)" using assms(2-5) by (simp add: timed_ok_def delay_wf_def front_tick_def)
  with timed_reachable [OF assms(1)] have ok: "timed_ok (now, s)" by blast
  then have wf: "rr_wf s" "delay_wf now s" by (simp_all add: timed_ok_def)
  show ?thesis
  proof (intro conjI allI impI)
    show "delay_wf now s" by (rule wf(2))
    fix w assume ev: "delayQueueEvent s = Some w"
    let ?es = "takeWhile (due w) (delayQueue s)" and ?rest = "dropWhile (due w) (delayQueue s)"
    obtain f q where f: "delayQueue s = f # q" "processTick f = w"
      using wf(2) ev by (cases "delayQueue s") (auto simp: delay_wf_def front_tick_def)
    show "now \<le> w" using wf(2) f by (simp add: delay_wf_def)
    have sorted: "sorted (map processTick (delayQueue s))" using wf(2) by (simp add: delay_wf_def)
    have ge: "w \<le> processTick e" if "e \<in> set (delayQueue s)" for e using that f sorted by auto
    have es: "?es = filter (\<lambda>e. processTick e = w) (delayQueue s)" by (rule due_prefix [OF sorted ge, symmetric])
    have ne: "?es \<noteq> []" using f by simp
    let ?s' = "s\<lparr>rrLeft := fold (deliver s) ?es (rrLeft s), delayQueue := ?rest, delayQueueEvent := front_tick ?rest\<rparr>"
    have found: "testRR (bop_tag s (baseAddr (last ?es))) ?s'"
      using last_delivered [OF wf(1) ne] by (simp add: testRR_def)
    have slot: "\<exists>i < length (rrLeft s). rr_index (baseAddr e) RRLeft s = Inr i" for e
      using insertIntoRR_left [OF wf(1), of "baseAddr e"] by blast
    show "\<exists>es rest s'. delayQueueEventWrapper w s = Inr s' \<and> delayQueue s = es @ rest \<and>
        es = filter (\<lambda>e. processTick e = w) (delayQueue s) \<and> es \<noteq> [] \<and>
        s' = s\<lparr>rrLeft := fold (deliver s) es (rrLeft s), delayQueue := rest, delayQueueEvent := front_tick rest\<rparr> \<and>
        (\<forall>e \<in> set es. \<exists>i < length (rrLeft s). rr_index (baseAddr e) RRLeft s = Inr i) \<and>
        testRR (bop_tag s (baseAddr (last es))) s'"
      by (rule exI [of _ ?es], rule exI [of _ ?rest], rule exI [of _ ?s'], intro conjI ballI)
        (rule delayQueueEventWrapper_effect [OF wf(1)] takeWhile_dropWhile_id [symmetric] es ne refl slot found)+
  qed
qed

theorem bop_delay_order_witness:
  "\<exists>s s'. bop_timed\<^sup>*\<^sup>* (1000, ex_bop) (1000, s) \<and> delay_wf 1000 s \<and> delayQueueEvent s = Some 1500 \<and>
     delayQueueEventWrapper 1500 s = Inr s' \<and> testRR (bop_tag s 0x1040) s'"
proof -
  obtain as s s1 where s: "calculatePrefetch_BOP 1000 (ex_info 0x1040) (env_cache ex_env) ex_bop = Inr (as, s)"
    "note_request 1000 (pf_address (ex_info 0x1040)) ex_bop = Inr s1"
    "bestOffsetLearning (pf_address (ex_info 0x1040)) s1 = Inr s"
    using calculatePrefetch_BOP_ok [OF ex_bop_ok] by blast
  have "bop_timed (1000, ex_bop) (1000, s)"
    by (rule timed_access [OF _ _ _ s(1)]) (simp_all add: ex_bop_simps)
  then have run: "bop_timed\<^sup>*\<^sup>* (1000, ex_bop) (1000, s)" by blast
  let ?e = "\<lparr>baseAddr = 0x1040, processTick = 1500\<rparr>"
  have "delayQueueEvent s1 = Some 1500 \<and> delayQueue s1 = [?e]" using s(2)
    by (auto simp: ex_bop_simps note_request_def insertIntoDelayQueue_def schedule_delay_def ex_info_def Let_def)
  then have e: "delayQueueEvent s = Some 1500" "delayQueue s = [?e]"
    using learn_frameD(13,14) [OF learning_frame [OF s(3)]] by simp_all
  have "rr_wf ex_bop" "learn_wf ex_bop" "delayQueue ex_bop = []" "delayQueueEvent ex_bop = None"
    using ex_bop_ok by (simp_all add: bop_ok_def) (simp_all add: ex_bop_simps)
  note o = bop_delay_order [OF run this]
  from e o obtain es rest s' where "delayQueueEventWrapper 1500 s = Inr s'" "testRR (bop_tag s (baseAddr (last es))) s'"
    "es = filter (\<lambda>e. processTick e = 1500) (delayQueue s)" by metis
  then show ?thesis using o run e by (intro exI [of _ s] exI [of _ s'] conjI) simp_all
qed

section \<open>Prefetch fills\<close>

lemma bop_tag_le: "unat (bop_tag s a) \<le> unat (tagMask s)"
  unfolding bop_tag_def using unat_and_mask_le [of "drop_bit (lBlkSize s) a" "ucast (tagMask s)"] by simp

text \<open>C38: A prefetch fill is recorded by the tag of its block less the current offset, a difference
  that is not cut to the bits of a tag. When the offset exceeds the tag it wraps around, and the
  value the fill leaves in the table is no tag of any address: no later access can find it, and
  the fill, which displaced an entry, teaches the prefetcher nothing.\<close>

theorem bop_fill_lost:
  assumes "rr_wf s" "issuePrefetchRequests s" "testCmdAttrib (cmd pkt) IsHWPrefetch" "pkt_addr pkt = Some a"
    "unat (bop_tag s a) < unat (bestOffset s)" "unat (bestOffset s) < 2 ^ 63"
  shows "\<exists>i s'. notifyFill_BOP pkt s = Inr s' \<and> i < length (rrRight s) \<and>
    (\<forall>j. j \<noteq> i \<longrightarrow> rrRight s' ! j = rrRight s ! j) \<and> (\<forall>x. bop_tag s x \<noteq> rrRight s' ! i)"
proof -
  let ?v = "bop_tag s a - bestOffset s"
  obtain i where i: "i < length (rrRight s)"
    "insertIntoRR a ?v RRRight s = Inr (s\<lparr>rrRight := (rrRight s)[i := ?v]\<rparr>)"
    using insertIntoRR_right [OF assms(1), of a ?v] by blast
  have "2 ^ 63 \<le> unat ?v"
    using assms(5,6) unat_sub_if' [of "bop_tag s a" "bestOffset s"] by simp
  then have "bop_tag s x \<noteq> ?v" for x
    using bop_tag_le [of s x] unat_less32 [of "tagMask s"] by auto
  then show ?thesis using i assms(2-4)
    by (intro exI [of _ i] exI [of _ "s\<lparr>rrRight := (rrRight s)[i := ?v]\<rparr>"])
       (simp add: notifyFill_BOP_def getAddr_def Let_def)
qed

theorem bop_fill_lost_witness:
  "\<exists>i s'. notifyFill_BOP (ex_packet\<lparr>pkt_addr := Some 0x40\<rparr>) (ex_bop\<lparr>issuePrefetchRequests := True, bestOffset := 2\<rparr>) = Inr s' \<and>
     (\<forall>x. bop_tag ex_bop x \<noteq> rrRight s' ! i)"
proof -
  let ?s = "ex_bop\<lparr>issuePrefetchRequests := True, bestOffset := 2\<rparr>"
  have "rr_wf ?s" using ex_bop_ok by (simp add: bop_ok_def rr_wf_def)
  moreover have "bop_tag ?s x = bop_tag ex_bop x" for x by (simp add: bop_tag_def)
  moreover have "unat (bop_tag ex_bop 0x40) < 2" by (simp add: bop_tag_def ex_bop_simps)
  moreover have "testCmdAttrib (cmd ex_packet) IsHWPrefetch" by (simp add: ex_packet_def testCmdAttrib_def buildAttributes_def)
  ultimately show ?thesis
    using bop_fill_lost [of ?s "ex_packet\<lparr>pkt_addr := Some 0x40\<rparr>" "0x40"] by auto
qed

end
