(* ===== verification/MultiPf.thy ===== *)
theory MultiPf
  imports BopPf TaggedPf StridePf
begin

text \<open>
  The multi prefetcher (\<open>mem/cache/prefetch/multi.cc\<close>): a list of prefetchers that share one port to
  the cache. Each gets the notifications of the cache by itself; the multi prefetcher only hands
  on their packets, starting one place further in the list at every request. What it calls on a
  sub-prefetcher is the record \<open>SubOps\<close>; its contract is a locale, interpreted for the queued
  prefetchers of this development. The two counters of the rotation are eight bits wide.
\<close>

section \<open>State and operations\<close>

record 'c SubOps =
  sub_setParentInfo :: "u32 \<Rightarrow> 'c \<Rightarrow> 'c result"
  sub_nextReady :: "'c \<Rightarrow> Tick"
  sub_getPacket :: "Env \<Rightarrow> 'c \<Rightarrow> (Packet option \<times> 'c) result"
  sub_prefetchUnused :: "'c \<Rightarrow> 'c"
  sub_incrDemandMhsrMisses :: "'c \<Rightarrow> 'c"

record 'c MultiPf = BasePf +
  prefetchers :: "'c list"
  lastChosenPf :: u8

definition newMultiPf :: "'c list \<Rightarrow> BasePf \<Rightarrow> 'c MultiPf" where
  "newMultiPf pfs b = BasePf.extend b \<lparr>prefetchers = pfs, lastChosenPf = 0\<rparr>"

fun map_result :: "('c \<Rightarrow> 'c result) \<Rightarrow> 'c list \<Rightarrow> 'c list result" where
  "map_result f [] = Inr []"
| "map_result f (c # cs) = bindR (f c) (\<lambda>c'. bindR (map_result f cs) (\<lambda>cs'. Inr (c' # cs')))"

definition setParentInfo_Multi :: "'c SubOps \<Rightarrow> u32 \<Rightarrow> 'c MultiPf \<Rightarrow> 'c MultiPf result" where
  "setParentInfo_Multi ops blk_size s =
     bindR (map_result (sub_setParentInfo ops blk_size) (prefetchers s)) (\<lambda>pfs. Inr (s\<lparr>prefetchers := pfs\<rparr>))"

definition nextPrefetchReadyTime_Multi :: "'c SubOps \<Rightarrow> 'c MultiPf \<Rightarrow> Tick" where
  "nextPrefetchReadyTime_Multi ops s =
     fold (\<lambda>pf next_ready. min next_ready (sub_nextReady ops pf)) (prefetchers s) MaxTick"

text \<open>\<open>(i + 1) % prefetchers.size()\<close>, stored in eight bits.\<close>

definition next_turn :: "nat \<Rightarrow> u8 \<Rightarrow> u8 result" where
  "next_turn n i = (if n = 0 then Inl (NotFinite ''% prefetchers.size()'') else Inr (of_nat ((unat i + 1) mod n)))"

text \<open>The loop over the sub-prefetchers; the second argument counts its remaining turns.\<close>

fun ask_in_turn :: "'c SubOps \<Rightarrow> nat \<Rightarrow> Env \<Rightarrow> u8 \<Rightarrow> 'c MultiPf \<Rightarrow> (Packet option \<times> 'c MultiPf) result" where
  "ask_in_turn ops 0 env pf_turn s = Inr (None, s)"
| "ask_in_turn ops (Suc k) env pf_turn s =
     (if sub_nextReady ops (prefetchers s ! unat pf_turn) \<le> curTick env
      then bindR (sub_getPacket ops env (prefetchers s ! unat pf_turn)) (\<lambda>(pkt, pf).
        case pkt of
          None \<Rightarrow> Inl (Panic ''Prefetcher is ready but didn't return a packet.'')
        | Some p \<Rightarrow>
            Inr (Some p, s\<lparr>prefetchers := (prefetchers s)[unat pf_turn := pf],
              prefetchStats := (prefetchStats s)\<lparr>pfIssued := pfIssued (prefetchStats s) + 1\<rparr>,
              issuedPrefetches := issuedPrefetches s + 1\<rparr>))
      else bindR (next_turn (length (prefetchers s)) pf_turn) (\<lambda>t. ask_in_turn ops k env t s))"

definition getPacket_Multi :: "'c SubOps \<Rightarrow> Env \<Rightarrow> 'c MultiPf \<Rightarrow> (Packet option \<times> 'c MultiPf) result" where
  "getPacket_Multi ops env s =
     bindR (next_turn (length (prefetchers s)) (lastChosenPf s)) (\<lambda>t.
       ask_in_turn ops (length (prefetchers s)) env t (s\<lparr>lastChosenPf := t\<rparr>))"

definition prefetchUnused_Multi :: "'c SubOps \<Rightarrow> 'c MultiPf \<Rightarrow> 'c MultiPf" where
  "prefetchUnused_Multi ops s = s\<lparr>prefetchers := map (sub_prefetchUnused ops) (prefetchers s)\<rparr>"

definition incrDemandMhsrMisses_Multi :: "'c SubOps \<Rightarrow> 'c MultiPf \<Rightarrow> 'c MultiPf" where
  "incrDemandMhsrMisses_Multi ops s = s\<lparr>prefetchers := map (sub_incrDemandMhsrMisses ops) (prefetchers s)\<rparr>"

text \<open>Notifications are ignored.\<close>

definition notify_Multi :: "Packet \<Rightarrow> CacheAccessor \<Rightarrow> PrefetchInfo \<Rightarrow> 'c MultiPf \<Rightarrow> 'c MultiPf result" where
  "notify_Multi pkt cache pfi s = Inr s"

definition notifyFill_Multi :: "Packet \<Rightarrow> CacheAccessor \<Rightarrow> 'c MultiPf \<Rightarrow> 'c MultiPf result" where
  "notifyFill_Multi pkt cache s = Inr s"

section \<open>The rotation\<close>

definition rotation :: "nat \<Rightarrow> nat \<Rightarrow> nat list" where
  "rotation n t = map (\<lambda>k. (t + k) mod n) [0..<n]"

lemma set_rotation: "t < n \<Longrightarrow> set (rotation n t) = {..<n}"
proof -
  assume t: "t < n"
  have "j \<in> (\<lambda>k. (t + k) mod n) ` {0..<n}" if "j < n" for j
  proof
    show "j = (t + (j + n - t) mod n) mod n"
      using that t by (simp add: mod_add_right_eq)
  qed (use that in simp)
  then show ?thesis using t by (auto simp: rotation_def)
qed

lemma rotation_hd: "t < n \<Longrightarrow> rotation n t = t # map (\<lambda>k. (t + k) mod n) [1..<n]"
  by (simp add: rotation_def upt_conv_Cons)

lemma next_turn_small:
  assumes "0 < n" "n \<le> 256"
  shows "\<exists>t. next_turn n i = Inr t \<and> unat t = (unat i + 1) mod n"
proof -
  have "(unat i + 1) mod n < 256" using assms mod_less_divisor [of n "unat i + 1"] by linarith
  then show ?thesis using assms(1) by (simp add: next_turn_def unat_of_nat)
qed

lemma nextPrefetchReadyTime_Multi_le:
  "nextPrefetchReadyTime_Multi ops s \<le> t \<longleftrightarrow> MaxTick \<le> t \<or> (\<exists>c \<in> set (prefetchers s). sub_nextReady ops c \<le> t)"
proof -
  have "fold (\<lambda>pf next_ready. min next_ready (sub_nextReady ops pf)) cs m \<le> t
      \<longleftrightarrow> m \<le> t \<or> (\<exists>c \<in> set cs. sub_nextReady ops c \<le> t)" for cs m
    by (induction cs arbitrary: m) (auto simp: min_le_iff_disj)
  then show ?thesis by (simp add: nextPrefetchReadyTime_Multi_def)
qed

section \<open>What the multi prefetcher relies on\<close>

definition served :: "nat \<Rightarrow> 'c \<Rightarrow> 'c MultiPf \<Rightarrow> 'c MultiPf" where
  "served j c s = s\<lparr>prefetchers := (prefetchers s)[j := c],
     prefetchStats := (prefetchStats s)\<lparr>pfIssued := pfIssued (prefetchStats s) + 1\<rparr>,
     issuedPrefetches := issuedPrefetches s + 1\<rparr>"

definition multi_wf :: "('c \<Rightarrow> bool) \<Rightarrow> 'c MultiPf \<Rightarrow> bool" where
  "multi_wf sinv s \<longleftrightarrow> list_all sinv (prefetchers s) \<and> 0 < length (prefetchers s) \<and> length (prefetchers s) \<le> 256 \<and>
     unat (lastChosenPf s) < length (prefetchers s)"

abbreviation is_ready :: "'c SubOps \<Rightarrow> Env \<Rightarrow> 'c MultiPf \<Rightarrow> nat \<Rightarrow> bool" where
  "is_ready ops env s j \<equiv> sub_nextReady ops (prefetchers s ! j) \<le> curTick env"

definition turn_after :: "'c MultiPf \<Rightarrow> nat" where
  "turn_after s = (unat (lastChosenPf s) + 1) mod length (prefetchers s)"

fun multi_run :: "'c SubOps \<Rightarrow> Env list \<Rightarrow> 'c MultiPf \<Rightarrow> 'c MultiPf result" where
  "multi_run ops [] s = Inr s"
| "multi_run ops (env # envs) s = bindR (getPacket_Multi ops env s) (\<lambda>(pkt, s'). multi_run ops envs s')"

locale sub_prefetcher =
  fixes ops :: "'c SubOps" and sinv :: "'c \<Rightarrow> bool"
  assumes ready_packet: "sinv c \<Longrightarrow> curTick env < MaxTick \<Longrightarrow> sub_nextReady ops c \<le> curTick env \<Longrightarrow>
      \<exists>p c'. sub_getPacket ops env c = Inr (Some p, c') \<and> sinv c'"
    and unused_inv: "sinv c \<Longrightarrow> sinv (sub_prefetchUnused ops c)"
    and misses_inv: "sinv c \<Longrightarrow> sinv (sub_incrDemandMhsrMisses ops c)"
begin

lemma ask_in_turn_first_ready:
  assumes "list_all sinv (prefetchers s)" "length (prefetchers s) = n" "n \<le> 256" "unat t < n" "curTick env < MaxTick"
  shows "case find (is_ready ops env s) (map (\<lambda>i. (unat t + i) mod n) [0..<k]) of
      None \<Rightarrow> ask_in_turn ops k env t s = Inr (None, s)
    | Some j \<Rightarrow> \<exists>p c. sub_getPacket ops env (prefetchers s ! j) = Inr (Some p, c) \<and> sinv c \<and>
        ask_in_turn ops k env t s = Inr (Some p, served j c s)"
  using assms(4)
proof (induction k arbitrary: t)
  case (Suc k)
  have split: "map (\<lambda>i. (unat t + i) mod n) [0..<Suc k] = unat t # map (\<lambda>i. (Suc (unat t) + i) mod n) [0..<k]"
    using Suc.prems by (simp add: upt_conv_Cons map_Suc_upt [symmetric] del: upt_Suc)
  show ?case
  proof (cases "is_ready ops env s (unat t)")
    case True
    have "sinv (prefetchers s ! unat t)" using assms(1,2) Suc.prems by (simp add: list_all_length)
    from ready_packet [OF this assms(5) True] True show ?thesis
      unfolding split by (auto simp: served_def)
  next
    case False
    obtain t' where t': "next_turn n t = Inr t'" "unat t' = Suc (unat t) mod n"
      using next_turn_small [of n t] Suc.prems assms(3) by auto
    then have lt: "unat t' < n" using Suc.prems by simp
    have "map (\<lambda>i. (unat t' + i) mod n) [0..<k] = map (\<lambda>i. (Suc (unat t) + i) mod n) [0..<k]"
      unfolding t'(2) by (simp add: mod_add_left_eq)
    then have f: "find (is_ready ops env s) (map (\<lambda>i. (unat t + i) mod n) [0..<Suc k])
        = find (is_ready ops env s) (map (\<lambda>i. (unat t' + i) mod n) [0..<k])"
      unfolding split using False by (simp only: find.simps if_False)
    have ask: "ask_in_turn ops (Suc k) env t s = ask_in_turn ops k env t' s"
      using False t'(1) assms(2) by simp
    show ?thesis unfolding f ask by (rule Suc.IH [OF lt])
  qed
qed simp

lemma getPacket_first_ready:
  assumes "multi_wf sinv s" "curTick env < MaxTick"
  shows "case find (is_ready ops env s) (rotation (length (prefetchers s)) (turn_after s)) of
      None \<Rightarrow> getPacket_Multi ops env s = Inr (None, s\<lparr>lastChosenPf := of_nat (turn_after s)\<rparr>)
    | Some j \<Rightarrow> \<exists>p c. sub_getPacket ops env (prefetchers s ! j) = Inr (Some p, c) \<and> sinv c \<and>
        getPacket_Multi ops env s = Inr (Some p, served j c (s\<lparr>lastChosenPf := of_nat (turn_after s)\<rparr>))"
proof -
  let ?n = "length (prefetchers s)"
  have n: "0 < ?n" "?n \<le> 256" "list_all sinv (prefetchers s)" using assms(1) by (auto simp: multi_wf_def)
  obtain t where t: "next_turn ?n (lastChosenPf s) = Inr t" "unat t = turn_after s"
    using next_turn_small [OF n(1,2)] by (auto simp: turn_after_def)
  have t_eq: "t = of_nat (turn_after s)" unfolding t(2) [symmetric] by simp
  have "unat t < ?n" using n(1) t(2) by (simp add: turn_after_def)
  from ask_in_turn_first_ready [of "s\<lparr>lastChosenPf := t\<rparr>", OF _ _ n(2) this assms(2), of ?n] n(3)
  show ?thesis using t(1) unfolding rotation_def t(2) t_eq [symmetric]
    by (simp add: getPacket_Multi_def split: option.splits)
qed

lemma getPacket_next:
  assumes "multi_wf sinv s" "curTick env < MaxTick"
  shows "\<exists>po s'. getPacket_Multi ops env s = Inr (po, s') \<and> multi_wf sinv s' \<and>
    length (prefetchers s') = length (prefetchers s) \<and> unat (lastChosenPf s') = turn_after s \<and>
    (po = None \<longleftrightarrow> find (is_ready ops env s) (rotation (length (prefetchers s)) (turn_after s)) = None)"
proof -
  let ?n = "length (prefetchers s)" and ?f = "find (is_ready ops env s) (rotation (length (prefetchers s)) (turn_after s))"
  have n: "0 < ?n" "?n \<le> 256" "list_all sinv (prefetchers s)" using assms(1) by (auto simp: multi_wf_def)
  have lt: "turn_after s < ?n" using n(1) by (simp add: turn_after_def)
  then have u: "unat (of_nat (turn_after s) :: u8) = turn_after s" using n(2) by (simp add: unat_of_nat)
  show ?thesis
  proof (cases ?f)
    case None
    then show ?thesis using getPacket_first_ready [OF assms] n lt u by (simp add: multi_wf_def)
  next
    case (Some j)
    then obtain p c where c: "sinv c"
      "getPacket_Multi ops env s = Inr (Some p, served j c (s\<lparr>lastChosenPf := of_nat (turn_after s)\<rparr>))"
      using getPacket_first_ready [OF assms] by auto
    have "list_all sinv ((prefetchers s)[j := c])"
      using n(3) c(1) set_update_subset_insert [of "prefetchers s" j c] by (auto simp: list_all_iff)
    then show ?thesis using c(2) Some n lt u by (simp add: multi_wf_def served_def)
  qed
qed

lemma packet_iff_ready:
  assumes "multi_wf sinv s" "curTick env < MaxTick"
  shows "\<exists>po s'. getPacket_Multi ops env s = Inr (po, s') \<and> multi_wf sinv s' \<and>
    (po \<noteq> None \<longleftrightarrow> nextPrefetchReadyTime_Multi ops s \<le> curTick env)"
proof -
  let ?n = "length (prefetchers s)"
  have "turn_after s < ?n" using assms(1) by (simp add: turn_after_def multi_wf_def)
  then have "find (is_ready ops env s) (rotation ?n (turn_after s)) \<noteq> None \<longleftrightarrow> (\<exists>j < ?n. is_ready ops env s j)"
    by (auto simp: find_None_iff set_rotation)
  also have "\<dots> \<longleftrightarrow> nextPrefetchReadyTime_Multi ops s \<le> curTick env"
    using assms(2) by (force simp: nextPrefetchReadyTime_Multi_le in_set_conv_nth not_le [symmetric])
  finally have "find (is_ready ops env s) (rotation ?n (turn_after s)) = None
      \<longleftrightarrow> \<not> nextPrefetchReadyTime_Multi ops s \<le> curTick env" by blast
  then show ?thesis using getPacket_next [OF assms] by (elim exE conjE) (intro exI conjI, assumption+, simp)
qed

lemma run_turn:
  assumes "multi_run ops envs s = Inr s'" "multi_wf sinv s" "\<forall>env \<in> set envs. curTick env < MaxTick"
  shows "multi_wf sinv s' \<and> length (prefetchers s') = length (prefetchers s) \<and>
    unat (lastChosenPf s') = (unat (lastChosenPf s) + length envs) mod length (prefetchers s)"
  using assms
proof (induction envs arbitrary: s)
  case Nil
  then show ?case by (simp add: multi_wf_def)
next
  case (Cons env envs)
  then obtain po s1 where s1: "getPacket_Multi ops env s = Inr (po, s1)" "multi_wf sinv s1"
    "length (prefetchers s1) = length (prefetchers s)" "unat (lastChosenPf s1) = turn_after s"
    using getPacket_next [of s env] by auto
  with Cons have "multi_run ops envs s1 = Inr s'" by simp
  from Cons.IH [OF this s1(2)] Cons.prems(3) s1(3,4) show ?case
    by (simp add: turn_after_def mod_add_left_eq)
qed

lemma own_turn:
  assumes "multi_wf sinv s" "curTick env < MaxTick" "is_ready ops env s (turn_after s)"
  shows "\<exists>p c s'. getPacket_Multi ops env s = Inr (Some p, s') \<and>
    sub_getPacket ops env (prefetchers s ! turn_after s) = Inr (Some p, c) \<and>
    prefetchers s' = (prefetchers s)[turn_after s := c]"
proof -
  let ?n = "length (prefetchers s)"
  have "turn_after s < ?n" using assms(1) by (simp add: turn_after_def multi_wf_def)
  then have "find (is_ready ops env s) (rotation ?n (turn_after s)) = Some (turn_after s)"
    using assms(3) by (simp add: rotation_hd)
  then show ?thesis using getPacket_first_ready [OF assms(1,2)] by (auto simp: served_def)
qed

lemma no_starvation:
  assumes wf: "multi_wf sinv s" and j: "j < length (prefetchers s)"
    and k: "length envs = (j + length (prefetchers s) - turn_after s) mod length (prefetchers s)"
    and run: "multi_run ops envs s = Inr s'" and time: "\<forall>e \<in> set envs. curTick e < MaxTick"
    and last: "curTick env < MaxTick" "is_ready ops env s' j"
  shows "\<exists>p c s''. getPacket_Multi ops env s' = Inr (Some p, s'') \<and>
    sub_getPacket ops env (prefetchers s' ! j) = Inr (Some p, c) \<and> prefetchers s'' = (prefetchers s')[j := c]"
proof -
  let ?n = "length (prefetchers s)" and ?l = "unat (lastChosenPf s)"
  have "0 < ?n" using j by (rule le_less_trans [OF le0])
  then have "turn_after s < ?n" by (simp add: turn_after_def)
  then have b: "(turn_after s + (j + ?n - turn_after s)) mod ?n = j" using j by simp
  have "(?l + length envs + 1) mod ?n = ((?l + 1) + length envs) mod ?n" by (simp only: ac_simps)
  also have "\<dots> = (turn_after s + (j + ?n - turn_after s)) mod ?n"
    unfolding k turn_after_def by (simp only: mod_add_right_eq mod_add_left_eq)
  finally have n: "(?l + length envs + 1) mod ?n = j" unfolding b .
  have r: "multi_wf sinv s'" "length (prefetchers s') = ?n" "unat (lastChosenPf s') = (?l + length envs) mod ?n"
    using run_turn [OF run wf time] by simp_all
  have t: "turn_after s' = j" unfolding turn_after_def r(2,3) by (simp only: n mod_add_left_eq)
  show ?thesis using own_turn [OF r(1) last(1)] last(2) unfolding t by simp
qed

lemma counts_wf:
  assumes "multi_wf sinv s"
  shows "multi_wf sinv (prefetchUnused_Multi ops s) \<and> multi_wf sinv (incrDemandMhsrMisses_Multi ops s)"
  using assms unused_inv misses_inv
  by (simp add: multi_wf_def prefetchUnused_Multi_def incrDemandMhsrMisses_Multi_def list_all_iff)

end

text \<open>The rotation counts in eight bits, so the sub-prefetchers from the 257th on are never asked,
  ready or not.\<close>

lemma ask_in_turn_first_256:
  "ask_in_turn ops k env t s = Inr (po, s') \<Longrightarrow> 256 \<le> j \<Longrightarrow> prefetchers s' ! j = prefetchers s ! j"
proof (induction k arbitrary: t)
  case (Suc k)
  have "unat t \<noteq> j" using unat_u8_less [of t] Suc.prems(2) by simp
  then show ?case using Suc by (auto split: if_splits option.splits)
qed simp

lemma beyond_256_unserved:
  "getPacket_Multi ops env s = Inr (po, s') \<Longrightarrow> 256 \<le> j \<Longrightarrow> prefetchers s' ! j = prefetchers s ! j"
  by (auto simp: getPacket_Multi_def dest!: ask_in_turn_first_256)

section \<open>The queued prefetchers as sub-prefetchers\<close>

datatype Sub =
    SubTagged TaggedPf
  | SubStride "(bool, unit) StridePf"
  | SubBop BopPf

fun subSetParentInfo :: "u32 \<Rightarrow> Sub \<Rightarrow> Sub result" where
  "subSetParentInfo blk (SubTagged p) = bindR (setParentInfo blk p) (\<lambda>p. Inr (SubTagged p))"
| "subSetParentInfo blk (SubStride p) = bindR (setParentInfo blk p) (\<lambda>p. Inr (SubStride p))"
| "subSetParentInfo blk (SubBop p) = bindR (setParentInfo blk p) (\<lambda>p. Inr (SubBop p))"

fun subNextReady :: "Sub \<Rightarrow> Tick" where
  "subNextReady (SubTagged p) = nextPrefetchReadyTime p"
| "subNextReady (SubStride p) = nextPrefetchReadyTime p"
| "subNextReady (SubBop p) = nextPrefetchReadyTime p"

fun subGetPacket :: "Env \<Rightarrow> Sub \<Rightarrow> (Packet option \<times> Sub) result" where
  "subGetPacket env (SubTagged p) = bindR (getPacket env p) (\<lambda>(po, p). Inr (po, SubTagged p))"
| "subGetPacket env (SubStride p) = bindR (getPacket env p) (\<lambda>(po, p). Inr (po, SubStride p))"
| "subGetPacket env (SubBop p) = bindR (getPacket env p) (\<lambda>(po, p). Inr (po, SubBop p))"

fun subPrefetchUnused :: "Sub \<Rightarrow> Sub" where
  "subPrefetchUnused (SubTagged p) = SubTagged (prefetchUnused p)"
| "subPrefetchUnused (SubStride p) = SubStride (prefetchUnused p)"
| "subPrefetchUnused (SubBop p) = SubBop (prefetchUnused p)"

fun subIncrDemandMhsrMisses :: "Sub \<Rightarrow> Sub" where
  "subIncrDemandMhsrMisses (SubTagged p) = SubTagged (incrDemandMhsrMisses p)"
| "subIncrDemandMhsrMisses (SubStride p) = SubStride (incrDemandMhsrMisses p)"
| "subIncrDemandMhsrMisses (SubBop p) = SubBop (incrDemandMhsrMisses p)"

definition subOps :: "Sub SubOps" where
  "subOps = \<lparr>sub_setParentInfo = subSetParentInfo, sub_nextReady = subNextReady, sub_getPacket = subGetPacket,
     sub_prefetchUnused = subPrefetchUnused, sub_incrDemandMhsrMisses = subIncrDemandMhsrMisses\<rparr>"

definition queue_ok :: "'a QueuedPf_scheme \<Rightarrow> bool" where
  "queue_ok p \<longleftrightarrow> queued_wf p \<and> roomy p"

fun subInv :: "Sub \<Rightarrow> bool" where
  "subInv (SubTagged p) = queue_ok p"
| "subInv (SubStride p) = queue_ok p"
| "subInv (SubBop p) = queue_ok p"

lemma ready_getPacket:
  assumes "queue_ok p" "curTick env < MaxTick" "nextPrefetchReadyTime p \<le> curTick env"
  shows "\<exists>pkt p'. getPacket env p = Inr (Some pkt, p') \<and> queue_ok p'"
proof -
  have wf: "queued_wf p" "roomy p" "base_wf p" using assms(1) by (simp_all add: queue_ok_def roomy_def)
  have "pfq p \<noteq> []" using assms(2,3) by (auto simp: nextPrefetchReadyTime_def)
  obtain po p' where g: "getPacket env p = Inr (po, p')" using getPacket_ok [OF wf(1,2)] by blast
  from g have "po \<noteq> None" by (cases rule: getPacket_cases) (use \<open>pfq p \<noteq> []\<close> in auto)
  moreover have "kept p p'" by (rule getPacket_kept [OF g wf(1,3)])
  then have "queue_ok p'" using wf(2) roomy_config [of p p'] by (simp add: queue_ok_def kept_def)
  ultimately show ?thesis using g by auto
qed

lemma queue_ok_stats [simp]:
  "queue_ok (prefetchUnused p) = queue_ok p" "queue_ok (incrDemandMhsrMisses p) = queue_ok p"
  by (simp_all add: queue_ok_def queued_wf_def roomy_def base_wf_def aligned_def blockAddress_def
      prefetchUnused_def incrDemandMhsrMisses_def)

interpretation subs: sub_prefetcher subOps subInv
proof unfold_locales
  fix c and env :: Env
  assume c: "subInv c" "curTick env < MaxTick" "sub_nextReady subOps c \<le> curTick env"
  show "\<exists>p c'. sub_getPacket subOps env c = Inr (Some p, c') \<and> subInv c'"
  proof (cases c)
    case (SubTagged p)
    with c obtain pkt p' where "getPacket env p = Inr (Some pkt, p')" "queue_ok p'"
      using ready_getPacket [of p env] by (auto simp: subOps_def)
    then show ?thesis using SubTagged by (simp add: subOps_def)
  next
    case (SubStride p)
    with c obtain pkt p' where "getPacket env p = Inr (Some pkt, p')" "queue_ok p'"
      using ready_getPacket [of p env] by (auto simp: subOps_def)
    then show ?thesis using SubStride by (simp add: subOps_def)
  next
    case (SubBop p)
    with c obtain pkt p' where "getPacket env p = Inr (Some pkt, p')" "queue_ok p'"
      using ready_getPacket [of p env] by (auto simp: subOps_def)
    then show ?thesis using SubBop by (simp add: subOps_def)
  qed
next
  fix c
  assume "subInv c"
  then show "subInv (sub_prefetchUnused subOps c)" "subInv (sub_incrDemandMhsrMisses subOps c)"
    by (cases c; simp add: subOps_def)+
qed

section \<open>Properties\<close>

lemma ex_queue_ok: "queue_ok (ex_queued [(1, ex_deferred 0x1040 0)] [])" "queue_ok (ex_queued [] [])"
  using ex_base_wf [of "[(1, ex_deferred 0x1040 0)]" "[]"] ex_base_wf [of "[]" "[]"]
  by (auto simp: queue_ok_def ex_defs queued_wf_def roomy_def ready_def aligned_def blockAddress_def
      newDeferredPacket_def dkey_def)

lemma queue_ok_truncate: "queue_ok (QueuedPf.truncate p) = queue_ok p"
  using truncate_wf [of p] by (simp add: queue_ok_def)

definition ex_multi :: "Sub MultiPf" where
  "ex_multi = newMultiPf [SubTagged ex_tagged, SubTagged (ex_tagged\<lparr>pfq := [(1, ex_deferred 0x1040 0)]\<rparr>)]
     (BasePf.truncate ex_tagged)"

lemma ex_multi_wf: "multi_wf subInv ex_multi"
proof -
  have "queue_ok ex_tagged" using ex_queue_ok(2) queue_ok_truncate [of ex_tagged]
    by (simp add: ex_tagged_def QueuedPf.defs ex_queued_def)
  moreover have "queue_ok (ex_tagged\<lparr>pfq := [(1, ex_deferred 0x1040 0)]\<rparr>)"
    using ex_queue_ok(1) queue_ok_truncate [of "ex_tagged\<lparr>pfq := [(1, ex_deferred 0x1040 0)]\<rparr>"]
    by (simp add: ex_tagged_def QueuedPf.defs ex_queued_def)
  ultimately show ?thesis by (simp add: ex_multi_def newMultiPf_def BasePf.defs multi_wf_def)
qed

text \<open>C17: With up to 256 well-formed sub-prefetchers, the multi prefetcher hands out a packet exactly when
  the time it announces as its next ready time has come; it never panics over a ready
  sub-prefetcher that has nothing to give.\<close>

theorem multi_packet_iff_ready:
  assumes "multi_wf subInv s" "curTick env < MaxTick"
  shows "\<exists>po s'. getPacket_Multi subOps env s = Inr (po, s') \<and> multi_wf subInv s' \<and>
    (po \<noteq> None \<longleftrightarrow> nextPrefetchReadyTime_Multi subOps s \<le> curTick env)"
  by (rule subs.packet_iff_ready [OF assms])

theorem multi_packet_iff_ready_witness:
  "\<exists>p s'. getPacket_Multi subOps ex_env ex_multi = Inr (Some p, s')"
proof -
  have "curTick ex_env < MaxTick" by (simp add: ex_env_def MaxTick_def)
  moreover have "nextPrefetchReadyTime_Multi subOps ex_multi \<le> curTick ex_env"
    by (simp add: nextPrefetchReadyTime_Multi_le ex_multi_def newMultiPf_def BasePf.defs subOps_def
        nextPrefetchReadyTime_def ex_deferred_def newDeferredPacket_def ex_env_def)
  ultimately show ?thesis using multi_packet_iff_ready [OF ex_multi_wf, of ex_env] by auto
qed

text \<open>C11: No sub-prefetcher starves. Among as many consecutive requests as there are sub-prefetchers,
  each of them has one at which it comes first: if it has a packet ready then, that is the packet
  handed out, and only that sub-prefetcher changes.\<close>

theorem multi_no_starvation:
  assumes "multi_wf subInv s" "j < length (prefetchers s)"
    "length envs = (j + length (prefetchers s) - turn_after s) mod length (prefetchers s)"
    "multi_run subOps envs s = Inr s'" "\<forall>e \<in> set envs. curTick e < MaxTick"
    "curTick env < MaxTick" "is_ready subOps env s' j"
  shows "length envs < length (prefetchers s) \<and> (\<exists>p c s''. getPacket_Multi subOps env s' = Inr (Some p, s'') \<and>
    sub_getPacket subOps env (prefetchers s' ! j) = Inr (Some p, c) \<and> prefetchers s'' = (prefetchers s')[j := c])"
  using subs.no_starvation [OF assms] assms(2,3) by (cases "prefetchers s") simp_all

theorem multi_no_starvation_witness:
  "\<exists>p c s''. getPacket_Multi subOps ex_env ex_multi = Inr (Some p, s'') \<and>
     prefetchers s'' = (prefetchers ex_multi)[1 := c]"
proof -
  have "length (prefetchers ex_multi) = 2" "turn_after ex_multi = 1"
    by (simp_all add: ex_multi_def newMultiPf_def BasePf.defs turn_after_def)
  moreover have "is_ready subOps ex_env ex_multi 1" "curTick ex_env < MaxTick"
    by (simp_all add: ex_multi_def newMultiPf_def BasePf.defs subOps_def nextPrefetchReadyTime_def
        ex_deferred_def newDeferredPacket_def ex_env_def MaxTick_def)
  ultimately show ?thesis using multi_no_starvation [OF ex_multi_wf, of 1 "[]" ex_multi ex_env] by auto
qed

end
