(* ===== verification/SetDueling.thy ===== *)
theory SetDueling
  imports Replacement BaseUtil
begin

text \<open>
  Set dueling (\<open>mem/cache/tags/dueling.cc\<close>) and the replacement policy that lets two others duel
  (\<open>mem/cache/replacement_policies/dueling_rp.cc\<close>). A monitor marks the first and the last entries
  of every constituency as samples of one of two teams and counts, up for one and down for the
  other, the misses in them. The policy keeps the data of both its sub-policies for every entry
  and asks for victims the one whose samples miss less. The static counter of monitors is an
  argument of the constructor. The saturating counter is the 32-bit instance of its template.
\<close>

section \<open>The 32-bit saturating counter\<close>

record SatCounter32 =
  maxVal32 :: u32
  counter32 :: u32

definition newSatCounter32 :: "nat \<Rightarrow> SatCounter32 result" where
  "newSatCounter32 nbits =
     (if nbits > 32 then Inl (Fatal ''Number of bits exceeds counter size'')
      else Inr \<lparr>maxVal32 = ucast ((push_bit nbits 1 :: u64) - 1), counter32 = 0\<rparr>)"

definition sc32_incr :: "SatCounter32 \<Rightarrow> SatCounter32" where
  "sc32_incr c = (if counter32 c < maxVal32 c then c\<lparr>counter32 := counter32 c + 1\<rparr> else c)"

definition sc32_decr :: "SatCounter32 \<Rightarrow> SatCounter32" where
  "sc32_decr c = (if counter32 c > 0 then c\<lparr>counter32 := counter32 c - 1\<rparr> else c)"

definition sc32_shr :: "nat \<Rightarrow> SatCounter32 \<Rightarrow> SatCounter32" where
  "sc32_shr n c = c\<lparr>counter32 := drop_bit n (counter32 c)\<rparr>"

definition sc32_saturate :: "SatCounter32 \<Rightarrow> SatCounter32" where
  "sc32_saturate c = c\<lparr>counter32 := maxVal32 c\<rparr>"

text \<open>A counter of no bits has no saturation; every comparison with it is false.\<close>

definition calcSaturation32 :: "SatCounter32 \<Rightarrow> rat option" where
  "calcSaturation32 c =
     (if maxVal32 c = 0 then None else Some (fdiv (double_of (counter32 c)) (double_of (maxVal32 c))))"

definition saturation32_less :: "SatCounter32 \<Rightarrow> rat \<Rightarrow> bool" where
  "saturation32_less c t = (case calcSaturation32 c of None \<Rightarrow> False | Some s \<Rightarrow> s < t)"

definition saturation32_geq :: "SatCounter32 \<Rightarrow> rat \<Rightarrow> bool" where
  "saturation32_geq c t = (case calcSaturation32 c of None \<Rightarrow> False | Some s \<Rightarrow> s \<ge> t)"

section \<open>Duelers and monitors\<close>

record Dueler =
  dl_isSample :: u64
  dl_team :: u64

definition newDueler :: Dueler where
  "newDueler = \<lparr>dl_isSample = 0, dl_team = 0\<rparr>"

definition setSample :: "u64 \<Rightarrow> bool \<Rightarrow> 'a Dueler_scheme \<Rightarrow> 'a Dueler_scheme result" where
  "setSample i team d =
     (if popCount i \<noteq> 1 then Inl (Panic ''The id must have a single bit set.'')
      else if dl_isSample d AND i \<noteq> 0 then Inl (Panic ''This dueler is already a sample for id'')
      else let d = d\<lparr>dl_isSample := dl_isSample d OR i\<rparr>
           in Inr (if team then d\<lparr>dl_team := dl_team d OR i\<rparr> else d))"

text \<open>Whether the entry is a sample, and its team.\<close>

definition isSample :: "u64 \<Rightarrow> 'a Dueler_scheme \<Rightarrow> bool \<times> bool" where
  "isSample i d = (dl_isSample d AND i \<noteq> 0, dl_team d AND i \<noteq> 0)"

record DuelingMonitor =
  dm_id :: u64
  constituencySize :: u64
  teamSize :: u64
  lowThreshold :: rat
  highThreshold :: rat
  selector :: SatCounter32
  regionCounter :: cint
  winner :: bool

definition NUM_DUELERS :: u64 where
  "NUM_DUELERS = 2"

text \<open>The identifier is a shift of a signed 32-bit one, widened to 64 bits: a shift by 31 sets the
  sign bit and the 32 bits above it, a longer one is undefined. The result is the monitor and the
  number of instances.\<close>

definition newDuelingMonitor ::
  "u64 \<Rightarrow> u64 \<Rightarrow> nat \<Rightarrow> rat \<Rightarrow> rat \<Rightarrow> nat \<Rightarrow> (DuelingMonitor \<times> nat) result" where
  "newDuelingMonitor constituency_size team_size num_bits low_threshold high_threshold numInstances =
     (if numInstances \<ge> 32 then Inl (OutOfRange ''1 << numInstances'')
      else bindR (newSatCounter32 num_bits) (\<lambda>sel.
        if constituency_size < NUM_DUELERS * team_size
        then Inl (Fatal ''There must be at least team size entries per team in a constituency'')
        else if numInstances > 63 then Inl (Fatal ''Too many Dueling instances'')
        else if low_threshold \<le> 0 \<or> high_threshold \<ge> 1
        then Inl (Fatal ''The low threshold must be within the range ]0.0, 1.0['')
        else if high_threshold \<le> 0 \<or> high_threshold \<ge> 1
        then Inl (Fatal ''The high threshold must be within the range ]0.0, 1.0['')
        else if low_threshold > high_threshold
        then Inl (Fatal ''The low threshold must be below the high threshold'')
        else let sel = sc32_shr 1 (sc32_saturate sel)
             in Inr (\<lparr>dm_id = scast (push_bit numInstances 1 :: cint), constituencySize = constituency_size,
                      teamSize = team_size, lowThreshold = low_threshold, highThreshold = high_threshold,
                      selector = sel, regionCounter = 0, winner = \<not> saturation32_less sel low_threshold\<rparr>,
                    numInstances + 1)))"

definition monitor_sample :: "'a Dueler_scheme \<Rightarrow> DuelingMonitor \<Rightarrow> DuelingMonitor" where
  "monitor_sample d m =
     (let (sample, team) = isSample (dm_id m) d
      in if \<not> sample then m
         else if team then
           let m = m\<lparr>selector := sc32_incr (selector m)\<rparr>
           in if saturation32_geq (selector m) (highThreshold m) then m\<lparr>winner := True\<rparr> else m
         else
           let m = m\<lparr>selector := sc32_decr (selector m)\<rparr>
           in if saturation32_less (selector m) (lowThreshold m) then m\<lparr>winner := False\<rparr> else m)"

text \<open>The \<open>int\<close> counter is widened with its sign for the comparisons.\<close>

definition initEntry :: "'a Dueler_scheme \<Rightarrow> DuelingMonitor \<Rightarrow> ('a Dueler_scheme \<times> DuelingMonitor) result" where
  "initEntry d m =
     bindR (if scast (regionCounter m) < teamSize m then setSample (dm_id m) False d
            else if scast (regionCounter m) \<ge> constituencySize m - teamSize m then setSample (dm_id m) True d
            else Inr d) (\<lambda>d.
       let r = regionCounter m + 1
       in Inr (d, m\<lparr>regionCounter := (if scast r \<ge> constituencySize m then 0 else r)\<rparr>))"

section \<open>The dueling replacement policy\<close>

record ('a, 'b) DuelerReplData = Dueler +
  replDataA :: 'a
  replDataB :: 'b

record ('ga, 'gb) DuelingState =
  stateA :: 'ga
  stateB :: 'gb
  duelingMonitor :: DuelingMonitor
  selectedA :: nat
  selectedB :: nat

text \<open>Both sub-policies may draw from the random generator: the two halves of the draw.\<close>

definition input_a :: "RpInput \<Rightarrow> RpInput" where
  "input_a inp = inp\<lparr>rp_draw := rp_draw inp mod 2 ^ 64\<rparr>"

definition input_b :: "RpInput \<Rightarrow> RpInput" where
  "input_b inp = inp\<lparr>rp_draw := rp_draw inp div 2 ^ 64\<rparr>"

text \<open>An operation of both sub-policies on the data of one entry.\<close>

definition on_both ::
  "('a \<Rightarrow> 'ga \<Rightarrow> ('a \<times> 'ga) result) \<Rightarrow> ('b \<Rightarrow> 'gb \<Rightarrow> ('b \<times> 'gb) result) \<Rightarrow>
   ('a, 'b) DuelerReplData \<Rightarrow> ('ga, 'gb) DuelingState \<Rightarrow> (('a, 'b) DuelerReplData \<times> ('ga, 'gb) DuelingState) result" where
  "on_both fa fb d g =
     bindR (fa (replDataA d) (stateA g)) (\<lambda>(da, ga).
     bindR (fb (replDataB d) (stateB g)) (\<lambda>(db, gb).
       Inr (d\<lparr>replDataA := da, replDataB := db\<rparr>, g\<lparr>stateA := ga, stateB := gb\<rparr>)))"

definition select_team :: "bool \<Rightarrow> bool \<Rightarrow> bool \<Rightarrow> bool" where
  "select_team is_sample team win \<longleftrightarrow> (is_sample \<and> \<not> team) \<or> (\<not> is_sample \<and> \<not> win)"

definition same_team :: "u64 \<Rightarrow> bool \<Rightarrow> ('a, 'b) DuelerReplData \<Rightarrow> bool" where
  "same_team i team d \<longleftrightarrow> \<not> (fst (isSample i d) \<and> team \<noteq> snd (isSample i d))"

text \<open>The candidates with the data of the chosen sub-policy in place of their own.\<close>

definition victim_a ::
  "('ga, 'a) ReplPolicy \<Rightarrow> RpInput \<Rightarrow> ('a, 'b) DuelerReplData list \<Rightarrow> ('ga, 'gb) DuelingState \<Rightarrow>
   (nat \<times> ('a, 'b) DuelerReplData list \<times> ('ga, 'gb) DuelingState) result" where
  "victim_a rpA inp ds g =
     bindR (getVictim rpA (input_a inp) (map replDataA ds) (stateA g)) (\<lambda>(v, das, ga).
       Inr (v, map2 (\<lambda>d da. d\<lparr>replDataA := da\<rparr>) ds das, g\<lparr>stateA := ga, selectedA := selectedA g + 1\<rparr>))"

definition victim_b ::
  "('gb, 'b) ReplPolicy \<Rightarrow> RpInput \<Rightarrow> ('a, 'b) DuelerReplData list \<Rightarrow> ('ga, 'gb) DuelingState \<Rightarrow>
   (nat \<times> ('a, 'b) DuelerReplData list \<times> ('ga, 'gb) DuelingState) result" where
  "victim_b rpB inp ds g =
     bindR (getVictim rpB (input_b inp) (map replDataB ds) (stateB g)) (\<lambda>(v, dbs, gb).
       Inr (v, map2 (\<lambda>d db. d\<lparr>replDataB := db\<rparr>) ds dbs, g\<lparr>stateB := gb, selectedB := selectedB g + 1\<rparr>))"

definition getVictim_Dueling ::
  "('ga, 'a) ReplPolicy \<Rightarrow> ('gb, 'b) ReplPolicy \<Rightarrow> nat \<Rightarrow> RpInput \<Rightarrow> ('a, 'b) DuelerReplData list \<Rightarrow>
   ('ga, 'gb) DuelingState \<Rightarrow> (nat \<times> ('a, 'b) DuelerReplData list \<times> ('ga, 'gb) DuelingState) result" where
  "getVictim_Dueling rpA rpB team_size inp ds g =
     (if length ds \<noteq> team_size
      then Inl (Panic ''We currently only support team sizes that match the number of replacement candidates'')
      else if ds = [] then Inl (OutOfRange ''candidates[0]'')
      else
        let win = (\<not> winner (duelingMonitor g));
            i = dm_id (duelingMonitor g);
            (is_sample, team) = isSample i (hd ds);
            team_a = select_team is_sample team win
        in if \<not> list_all (same_team i team) ds
           then Inl (Panic ''Not all sampled candidates belong to the same team'')
           else if team_a then victim_a rpA inp ds g else victim_b rpB inp ds g)"

definition dueling ::
  "('ga, 'a) ReplPolicy \<Rightarrow> ('gb, 'b) ReplPolicy \<Rightarrow> nat \<Rightarrow> (('ga, 'gb) DuelingState, ('a, 'b) DuelerReplData) ReplPolicy" where
  "dueling rpA rpB team_size =
     \<lparr>instantiateEntry = (\<lambda>g.
        bindR (instantiateEntry rpA (stateA g)) (\<lambda>(da, ga).
        bindR (instantiateEntry rpB (stateB g)) (\<lambda>(db, gb).
        bindR (initEntry (Dueler.extend newDueler \<lparr>replDataA = da, replDataB = db\<rparr>) (duelingMonitor g)) (\<lambda>(d, m).
          Inr (d, g\<lparr>stateA := ga, stateB := gb, duelingMonitor := m\<rparr>))))),
      rp_touch = (\<lambda>inp. on_both (rp_touch rpA (input_a inp)) (rp_touch rpB (input_b inp))),
      rp_reset = (\<lambda>inp d g.
        bindR (on_both (rp_reset rpA (input_a inp)) (rp_reset rpB (input_b inp)) d g) (\<lambda>(d, g).
          Inr (d, g\<lparr>duelingMonitor := monitor_sample d (duelingMonitor g)\<rparr>))),
      rp_invalidate = on_both (rp_invalidate rpA) (rp_invalidate rpB),
      getVictim = getVictim_Dueling rpA rpB team_size\<rparr>"

text \<open>The constructor, with the default width and thresholds of the monitor.\<close>

definition newDueling :: "u32 \<Rightarrow> u32 \<Rightarrow> 'ga \<Rightarrow> 'gb \<Rightarrow> nat \<Rightarrow> (('ga, 'gb) DuelingState \<times> nat) result" where
  "newDueling constituency_size team_size ga gb numInstances =
     bindR (newDuelingMonitor (ucast constituency_size) (ucast team_size) 10 (1 / 2) (1 / 2) numInstances) (\<lambda>(m, n).
       Inr (\<lparr>stateA = ga, stateB = gb, duelingMonitor = m, selectedA = 0, selectedB = 0\<rparr>, n))"

section \<open>The counter\<close>

definition sc32_wf :: "SatCounter32 \<Rightarrow> bool" where
  "sc32_wf c \<longleftrightarrow> counter32 c \<le> maxVal32 c"

definition sc32_val :: "SatCounter32 \<Rightarrow> nat" where
  "sc32_val c = unat (counter32 c)"

definition sc32_max :: "SatCounter32 \<Rightarrow> nat" where
  "sc32_max c = unat (maxVal32 c)"

lemma unat_incr32: "(x :: u32) < y \<Longrightarrow> unat (x + 1) = Suc (unat x)"
  using unat_less32 [of y] by (simp add: word_less_nat_alt unat_word_ariths)

lemma unat_decr32: "(0 :: u32) < x \<Longrightarrow> unat (x - 1) = unat x - 1"
  by (subst unat_sub) (simp_all add: word_less_nat_alt word_le_nat_alt)

interpretation sat32: saturating sc32_wf sc32_val sc32_max sc32_incr sc32_decr
proof unfold_locales
  fix c :: SatCounter32
  show "sc32_max (sc32_incr c) = sc32_max c" "sc32_max (sc32_decr c) = sc32_max c"
    by (simp_all add: sc32_max_def sc32_incr_def sc32_decr_def)
  assume wf: "sc32_wf c"
  then show "sc32_val c \<le> sc32_max c" by (simp add: sc32_wf_def sc32_val_def sc32_max_def word_le_nat_alt)
  show "sc32_wf (sc32_incr c)" "sc32_wf (sc32_decr c)"
    using wf by (auto simp: sc32_wf_def sc32_incr_def sc32_decr_def word_le_nat_alt unat_incr32 unat_decr32)
      (simp_all add: word_less_nat_alt unat_incr32)
  show "sc32_val (sc32_incr c) = min (sc32_max c) (sc32_val c + 1)"
    using wf by (auto simp: sc32_wf_def sc32_incr_def sc32_val_def sc32_max_def word_le_nat_alt unat_incr32)
      (simp_all add: word_less_nat_alt)
  show "sc32_val (sc32_decr c) = sc32_val c - 1"
    by (auto simp: sc32_decr_def sc32_val_def unat_decr32) (simp add: word_less_nat_alt)
qed

lemma double_of_u32: "double_of (x :: u32) = of_nat (unat x)"
proof -
  have "rnd64 (of_int (int (unat x))) = of_int (int (unat x))"
    using unat_less32 [of x] by (intro rnd64_int) (simp del: of_nat_unat)
  then show ?thesis by (simp add: double_of_def del: of_nat_unat)
qed

text \<open>The default threshold of one half is exact.\<close>

lemma saturation32_half:
  assumes "0 < sc32_max c"
  shows "saturation32_less c (1 / 2) \<longleftrightarrow> 2 * sc32_val c < sc32_max c"
    "saturation32_geq c (1 / 2) \<longleftrightarrow> sc32_max c \<le> 2 * sc32_val c"
proof -
  let ?q = "rat_of_nat (sc32_val c) / rat_of_nat (sc32_max c)" and ?b = "4294967295 / 8589934592 :: rat"
  have m: "maxVal32 c \<noteq> 0" using assms by (auto simp: sc32_max_def)
  have s: "calcSaturation32 c = Some (rnd64 ?q)"
    using m by (simp add: calcSaturation32_def fdiv_def double_of_u32 sc32_val_def sc32_max_def)
  have r: "rnd64 ?b = ?b"
    by (rule rnd64_exact [where m = 4294967295 and e = "- 33"]) (auto simp: power_int_minus)
  have "rnd64 ?q < 1 / 2 \<longleftrightarrow> 2 * sc32_val c < sc32_max c"
  proof (cases "2 * sc32_val c < sc32_max c")
    case True
    moreover have "sc32_max c < 4294967296" using unat_less32 [of "maxVal32 c"] by (simp add: sc32_max_def)
    ultimately have "8589934592 * sc32_val c \<le> 4294967295 * sc32_max c" by linarith
    then have "rat_of_nat (8589934592 * sc32_val c) \<le> rat_of_nat (4294967295 * sc32_max c)" by (simp only: of_nat_le_iff)
    then have "?q \<le> ?b" using assms by (simp add: divide_simps)
    then have "rnd64 ?q \<le> ?b" using rnd64_mono [of ?q ?b] r by simp
    then show ?thesis using True by simp
  next
    case False
    then have "rat_of_nat (sc32_max c) \<le> rat_of_nat (2 * sc32_val c)" by (simp only: of_nat_le_iff)
    then have "1 / 2 \<le> ?q" using assms by (simp add: divide_simps)
    then have "1 / 2 \<le> rnd64 ?q" using rnd64_mono [of "1 / 2" ?q] rnd64_half by simp
    then show ?thesis using False by simp
  qed
  then show "saturation32_less c (1 / 2) \<longleftrightarrow> 2 * sc32_val c < sc32_max c"
    "saturation32_geq c (1 / 2) \<longleftrightarrow> sc32_max c \<le> 2 * sc32_val c"
    by (auto simp: saturation32_less_def saturation32_geq_def s)
qed

section \<open>Which entries are samples\<close>

lemma popCount_exp: "k < 64 \<Longrightarrow> popCount (2 ^ k) = 1"
proof -
  assume k: "k < 64"
  have "{i. i < 64 \<and> bit (2 ^ k :: u64) ([0..<64] ! i)} = {k}" using k by (auto simp: bit_exp_iff)
  then show ?thesis by (simp add: popCount_def length_filter_conv_card)
qed

lemma scast_nonneg:
  assumes "unat (r :: cint) < 2 ^ 31"
  shows "unat (scast r :: u64) = unat r"
proof -
  have "int (unat r) < int (2 ^ 31)" using assms by (simp only: of_nat_less_iff)
  then have "uint r < 2 ^ 31" by simp
  moreover have "- (2 ^ 31) \<le> uint r" by (rule order_trans [OF _ uint_ge_0]) simp
  ultimately have "signed_take_bit 31 (uint r) = uint r" by (intro signed_take_bit_int_eq_self)
  then have "sint r = uint r" by (simp add: sint_uint)
  then have "scast r = (word_of_int (int (unat r)) :: u64)" by (simp add: scast_eq)
  then have "scast r = (of_nat (unat r) :: u64)" by simp
  then show ?thesis using assms by (simp add: unat_of_nat)
qed

definition monitor_ok :: "DuelingMonitor \<Rightarrow> bool" where
  "monitor_ok m \<longleftrightarrow> (\<exists>k < 64. dm_id m = 2 ^ k) \<and> 2 * unat (teamSize m) \<le> unat (constituencySize m) \<and>
     unat (constituencySize m) < 2 ^ 31 \<and> unat (regionCounter m) < unat (constituencySize m)"

text \<open>What a monitor makes of an entry it initialises, by its position in the constituency.\<close>

definition sample_at :: "DuelingMonitor \<Rightarrow> nat \<Rightarrow> bool \<times> bool" where
  "sample_at m r = (r < unat (teamSize m) \<or> unat (constituencySize m) - unat (teamSize m) \<le> r,
     unat (constituencySize m) - unat (teamSize m) \<le> r)"

lemma exp_and_self: "k < 64 \<Longrightarrow> (x OR 2 ^ k) AND 2 ^ k \<noteq> (0 :: u64)"
  using bit_eq_iff [of "(x OR 2 ^ k) AND 2 ^ k" 0] by (auto simp: bit_simps)

lemma setSample_ok:
  assumes "k < 64" "dl_isSample d AND 2 ^ k = 0" "dl_team d AND 2 ^ k = 0"
  shows "\<exists>d'. setSample (2 ^ k) team d = Inr d' \<and> isSample (2 ^ k) d' = (True, team) \<and> Dueler.more d' = Dueler.more d"
  using assms exp_and_self [OF assms(1)] by (auto simp: setSample_def isSample_def popCount_exp Let_def)

lemma initEntry_ok:
  assumes "monitor_ok m" "dl_isSample d AND dm_id m = 0" "dl_team d AND dm_id m = 0"
  shows "\<exists>d'. initEntry d m = Inr (d', m\<lparr>regionCounter := of_nat (Suc (unat (regionCounter m)) mod unat (constituencySize m))\<rparr>) \<and>
    isSample (dm_id m) d' = sample_at m (unat (regionCounter m)) \<and> Dueler.more d' = Dueler.more d"
proof -
  let ?r = "regionCounter m" and ?c = "constituencySize m" and ?t = "teamSize m"
  obtain k where k: "k < 64" "dm_id m = 2 ^ k" using assms(1) by (auto simp: monitor_ok_def)
  have b: "2 * unat ?t \<le> unat ?c" "unat ?c < 2 ^ 31" "unat ?r < unat ?c" using assms(1) by (auto simp: monitor_ok_def)
  then have r: "unat (scast ?r :: u64) = unat ?r" by (intro scast_nonneg) simp
  have ct: "unat (?c - ?t) = unat ?c - unat ?t" using b by (intro unat_sub) (simp add: word_le_nat_alt)
  have "unat (?r + 1) = Suc (unat ?r)" using b by (simp add: unat_word_ariths)
  then have r1: "unat (scast (?r + 1) :: u64) = Suc (unat ?r)" using b scast_nonneg [of "?r + 1"] by simp
  have nxt: "(if scast (?r + 1) \<ge> ?c then 0 else ?r + 1) = of_nat (Suc (unat ?r) mod unat ?c)"
  proof (cases "Suc (unat ?r) = unat ?c")
    case True
    then show ?thesis using r1 by (simp add: word_le_nat_alt)
  next
    case False
    then have "Suc (unat ?r) < unat ?c" using b by simp
    then show ?thesis using r1 by (simp add: word_le_nat_alt)
  qed
  have low: "scast ?r < ?t \<longleftrightarrow> unat ?r < unat ?t" using r by (simp add: word_less_nat_alt)
  have high: "scast ?r \<ge> ?c - ?t \<longleftrightarrow> unat ?c - unat ?t \<le> unat ?r" using r ct by (simp add: word_le_nat_alt)
  have "\<exists>d'. (if scast ?r < ?t then setSample (dm_id m) False d else if scast ?r \<ge> ?c - ?t then setSample (dm_id m) True d
        else Inr d) = Inr d' \<and> isSample (dm_id m) d' = sample_at m (unat ?r) \<and> Dueler.more d' = Dueler.more d"
    using setSample_ok [OF k(1), of d] assms(2,3) b unfolding low high k(2)
    by (auto simp: sample_at_def isSample_def k(2))
  then show ?thesis unfolding initEntry_def Let_def nxt by auto
qed

text \<open>A table that initialises its entries one after the other.\<close>

fun init_many :: "nat \<Rightarrow> DuelingMonitor \<Rightarrow> (Dueler list \<times> DuelingMonitor) result" where
  "init_many 0 m = Inr ([], m)"
| "init_many (Suc n) m =
     bindR (initEntry newDueler m) (\<lambda>(d, m). bindR (init_many n m) (\<lambda>(ds, m). Inr (d # ds, m)))"

lemma init_many_layout:
  assumes "monitor_ok m"
  shows "\<exists>ds m'. init_many n m = Inr (ds, m') \<and> length ds = n \<and>
    (\<forall>i < n. isSample (dm_id m) (ds ! i) = sample_at m ((unat (regionCounter m) + i) mod unat (constituencySize m)))"
  using assms
proof (induction n arbitrary: m)
  case (Suc n)
  let ?c = "unat (constituencySize m)" and ?r = "unat (regionCounter m)"
  let ?m = "m\<lparr>regionCounter := of_nat (Suc ?r mod ?c)\<rparr>"
  have c: "0 < ?c" "?c < 2 ^ 31" "?r < ?c" using Suc.prems by (auto simp: monitor_ok_def)
  then have lt: "Suc ?r mod ?c < ?c" by simp
  moreover have "?c < 2 ^ 32" by (rule less_trans [OF c(2)]) simp
  ultimately have "Suc ?r mod ?c < 2 ^ 32" by (rule less_trans)
  then have r: "unat (of_nat (Suc ?r mod ?c) :: cint) = Suc ?r mod ?c" by (rule unat_of_nat32)
  then have "monitor_ok ?m" using Suc.prems lt by (simp add: monitor_ok_def)
  from Suc.IH [OF this] obtain ds m' where ds: "init_many n ?m = Inr (ds, m')" "length ds = n"
    "\<forall>i < n. isSample (dm_id m) (ds ! i) = sample_at m ((Suc ?r mod ?c + i) mod ?c)"
    unfolding r by (auto simp: sample_at_def r)
  obtain d where d: "initEntry newDueler m = Inr (d, ?m)" "isSample (dm_id m) d = sample_at m ?r"
    using initEntry_ok [OF Suc.prems, of newDueler] by (auto simp: newDueler_def)
  have "isSample (dm_id m) ((d # ds) ! i) = sample_at m ((?r + i) mod ?c)" if "i < Suc n" for i
    using that d(2) ds(3) c(3) by (cases i) (simp_all add: mod_add_left_eq)
  then show ?case using d(1) ds(1,2) by simp
qed simp

lemma unat_exp32:
  assumes "k < 32"
  shows "unat (2 ^ k :: u32) = 2 ^ k"
proof -
  have "(2 :: nat) ^ k < 2 ^ 32" using assms by (rule power_strict_increasing) simp
  from unat_of_nat32 [OF this] show ?thesis by simp
qed

text \<open>C18: The monitor divides a table into constituencies of \<open>constituencySize\<close> entries each, numbered in
  the order of their initialisation: the first \<open>teamSize\<close> entries of every constituency are samples
  of team false, the last \<open>teamSize\<close> of team true, and all others follow the winner. This holds for
  the first 31 monitors of a simulation and for sizes below 2^31. The comment of the class has
  it the other way round, with a constituency of a \<open>constituencySize\<close>-th of the table, and the
  parameters of the DRRIP policy are documented as if it counted sets.\<close>

theorem dueling_layout:
  assumes "newDuelingMonitor cons team nbits lo hi k = Inr (m, k')" "k < 31" "0 < cons" "cons < 2 ^ 31" "team < 2 ^ 31"
  shows "\<exists>ds m'. init_many n m = Inr (ds, m') \<and> length ds = n \<and>
    (\<forall>i < n. isSample (dm_id m) (ds ! i) =
      (let r = i mod unat cons in (r < unat team \<or> unat cons - unat team \<le> r, unat cons - unat team \<le> r)))"
proof -
  have m: "constituencySize m = cons" "teamSize m = team" "regionCounter m = 0"
    "dm_id m = scast (push_bit k 1 :: cint)" "\<not> cons < 2 * team"
    using assms(1) by (auto simp: newDuelingMonitor_def NUM_DUELERS_def Let_def split: if_splits)
  have b: "unat cons < 2 ^ 31" "unat team < 2 ^ 31" using assms(4,5) by (simp_all add: word_less_nat_alt)
  then have "unat (2 * team) = 2 * unat team" by (simp add: unat_word_ariths)
  then have "2 * unat team \<le> unat cons" using m(5) by (simp add: word_less_nat_alt)
  moreover have "dm_id m = 2 ^ k"
  proof -
    have "unat (push_bit k 1 :: cint) = 2 ^ k" using assms(2) by (simp add: push_bit_eq_mult unat_exp32 [of k])
    moreover have "(2 :: nat) ^ k < 2 ^ 31" using assms(2) by (rule power_strict_increasing) simp
    ultimately have "unat (dm_id m) = 2 ^ k" unfolding m(4) using scast_nonneg [of "push_bit k 1"] by metis
    then show ?thesis using assms(2) by (simp add: word_unat_eq_iff unat_exp)
  qed
  moreover have "0 < unat cons" using assms(3) by (simp add: word_less_nat_alt)
  ultimately have "monitor_ok m" using b m assms(2) by (auto simp: monitor_ok_def intro!: exI [of _ k])
  then show ?thesis using init_many_layout [of m n] m by (simp add: sample_at_def Let_def)
qed

theorem dueling_layout_witness:
  "\<exists>m ds m'. newDuelingMonitor 4 1 10 (1 / 2) (1 / 2) 0 = Inr (m, 1) \<and> init_many 6 m = Inr (ds, m') \<and>
     map (isSample (dm_id m)) ds = [(True, False), (False, False), (False, False), (True, True), (True, False), (False, False)]"
proof -
  obtain m where m: "newDuelingMonitor 4 1 10 (1 / 2) (1 / 2) 0 = Inr (m, 1)"
    by (simp add: newDuelingMonitor_def newSatCounter32_def NUM_DUELERS_def Let_def)
  from dueling_layout [OF m, of 6] obtain ds m' where ds: "init_many 6 m = Inr (ds, m')" "length ds = 6"
    "\<forall>i < 6. isSample (dm_id m) (ds ! i) = (i mod 4 < 1 \<or> 3 \<le> i mod 4, 3 \<le> i mod 4)"
    by (auto simp: Let_def)
  have "map (isSample (dm_id m)) ds = map (\<lambda>i. (i mod 4 < 1 \<or> 3 \<le> i mod 4, 3 \<le> i mod 4)) [0..<6]"
    using ds(2,3) by (intro nth_equalityI) simp_all
  also have "\<dots> = [(True, False), (False, False), (False, False), (True, True), (True, False), (False, False)]"
    by (simp add: upt_rec)
  finally show ?thesis using m ds(1) by - (intro exI conjI, assumption+)
qed

text \<open>C39: The identifier of a monitor is a shifted signed 32-bit one. The 32nd monitor of a simulation
  is still constructed (the code means to allow 64), but its identifier has 33 bits set and, with a
  team of at least one entry, the first entry it initialises stops the simulation.\<close>

theorem dueling_32nd_monitor:
  assumes "newDuelingMonitor cons team nbits lo hi 31 = Inr (m, k')" "0 < team"
  shows "k' = 32 \<and> popCount (dm_id m) = 33 \<and> initEntry d m = Inl (Panic ''The id must have a single bit set.'')"
proof -
  have m: "dm_id m = scast (push_bit 31 1 :: cint)" "regionCounter m = 0" "teamSize m = team" "k' = 32"
    using assms(1) by (auto simp: newDuelingMonitor_def Let_def split: if_splits)
  have "popCount (scast (push_bit 31 1 :: cint)) = 33" by code_simp
  then show ?thesis using m assms(2) by (simp add: initEntry_def setSample_def)
qed

theorem dueling_32nd_monitor_witness:
  "\<exists>m. newDuelingMonitor 4 1 10 (1 / 2) (1 / 2) 31 = Inr (m, 32) \<and> popCount (dm_id m) = 33 \<and>
     initEntry newDueler m = Inl (Panic ''The id must have a single bit set.'')"
proof -
  obtain m where "newDuelingMonitor 4 1 10 (1 / 2) (1 / 2) 31 = Inr (m, 32)"
    by (simp add: newDuelingMonitor_def newSatCounter32_def NUM_DUELERS_def Let_def)
  then show ?thesis using dueling_32nd_monitor [of 4 1 10 "1 / 2" "1 / 2" m 32 newDueler] by simp
qed

section \<open>Which policy wins\<close>

definition fair :: "DuelingMonitor \<Rightarrow> bool" where
  "fair m \<longleftrightarrow> sc32_wf (selector m) \<and> 0 < sc32_max (selector m) \<and> lowThreshold m = 1 / 2 \<and> highThreshold m = 1 / 2 \<and>
     (winner m \<longleftrightarrow> sc32_max (selector m) \<le> 2 * sc32_val (selector m))"

lemma monitor_sample_cases:
  "monitor_sample d m =
    (if \<not> fst (isSample (dm_id m) d) then m
     else if snd (isSample (dm_id m) d) then m\<lparr>selector := sc32_incr (selector m),
       winner := winner m \<or> saturation32_geq (sc32_incr (selector m)) (highThreshold m)\<rparr>
     else m\<lparr>selector := sc32_decr (selector m),
       winner := winner m \<and> \<not> saturation32_less (sc32_decr (selector m)) (lowThreshold m)\<rparr>)"
  by (auto simp: monitor_sample_def Let_def split_beta)

lemma monitor_sample_fair:
  assumes "fair m"
  shows "fair (monitor_sample d m)"
proof -
  have m: "sc32_wf (selector m)" "0 < sc32_max (selector m)" "lowThreshold m = 1 / 2" "highThreshold m = 1 / 2"
    "winner m \<longleftrightarrow> sc32_max (selector m) \<le> 2 * sc32_val (selector m)" using assms by (simp_all add: fair_def)
  show ?thesis
    using m(1,2,5) saturation32_half [of "sc32_incr (selector m)"] saturation32_half [of "sc32_decr (selector m)"]
    by (auto simp: fair_def monitor_sample_cases m(3,4) sat32.wf_up sat32.wf_down sat32.limit_up sat32.limit_down
        sat32.val_up sat32.val_down min_def)
qed

lemma monitor_sample_keeps [simp]:
  "dm_id (monitor_sample d m) = dm_id m" "sc32_max (selector (monitor_sample d m)) = sc32_max (selector m)"
  by (simp_all add: monitor_sample_cases sat32.limit_up sat32.limit_down)

definition misses_of :: "u64 \<Rightarrow> bool \<Rightarrow> 'a Dueler_scheme list \<Rightarrow> nat" where
  "misses_of i team ds = length (filter (\<lambda>d. isSample i d = (True, team)) ds)"

text \<open>While the counter cannot reach an end, it is the difference of the misses of the two teams.\<close>

lemma selector_counts:
  assumes "fair m" "misses_of (dm_id m) False ds \<le> sc32_val (selector m)"
    "sc32_val (selector m) + misses_of (dm_id m) True ds \<le> sc32_max (selector m)"
  shows "fair (fold monitor_sample ds m) \<and> dm_id (fold monitor_sample ds m) = dm_id m \<and>
    sc32_max (selector (fold monitor_sample ds m)) = sc32_max (selector m) \<and>
    sc32_val (selector (fold monitor_sample ds m)) + misses_of (dm_id m) False ds
      = sc32_val (selector m) + misses_of (dm_id m) True ds"
  using assms
proof (induction ds arbitrary: m)
  case (Cons d ds)
  let ?m = "monitor_sample d m"
  have wf: "sc32_wf (selector m)" using Cons.prems(1) by (simp add: fair_def)
  have v: "sc32_val (selector ?m) + (if isSample (dm_id m) d = (True, False) then 1 else 0)
      = sc32_val (selector m) + (if isSample (dm_id m) d = (True, True) then 1 else 0)"
    using Cons.prems(2,3) wf
    by (cases "isSample (dm_id m) d") (auto simp: monitor_sample_cases sat32.val_up sat32.val_down misses_of_def)
  have "fair ?m" using monitor_sample_fair [OF Cons.prems(1)] .
  moreover have "misses_of (dm_id ?m) False ds \<le> sc32_val (selector ?m)"
    "sc32_val (selector ?m) + misses_of (dm_id ?m) True ds \<le> sc32_max (selector ?m)"
    using Cons.prems(2,3) v by (auto simp: misses_of_def split: if_splits)
  ultimately show ?case using Cons.IH [of ?m] v by (auto simp: misses_of_def split: if_splits)
qed (simp add: misses_of_def)

lemma newDueling_fair:
  assumes "newDueling cs ts ga gb k = Inr (g, k')"
  shows "fair (duelingMonitor g)" "sc32_val (selector (duelingMonitor g)) = 511" "sc32_max (selector (duelingMonitor g)) = 1023"
proof -
  let ?sel = "\<lparr>maxVal32 = 1023, counter32 = 511\<rparr>"
  have sat: "saturation32_less ?sel (1 / 2)" using saturation32_half(1) [of ?sel] by (simp add: sc32_max_def sc32_val_def)
  have "selector (duelingMonitor g) = ?sel \<and> lowThreshold (duelingMonitor g) = 1 / 2 \<and>
      highThreshold (duelingMonitor g) = 1 / 2 \<and> winner (duelingMonitor g) = (\<not> saturation32_less ?sel (1 / 2))"
    using assms by (auto simp: newDueling_def newDuelingMonitor_def newSatCounter32_def sc32_shr_def sc32_saturate_def
        Let_def split: if_splits)
  then show "fair (duelingMonitor g)" "sc32_val (selector (duelingMonitor g)) = 511"
    "sc32_max (selector (duelingMonitor g)) = 1023"
    using sat by (simp_all add: fair_def sc32_wf_def sc32_max_def sc32_val_def)
qed

text \<open>Replacements: the entries a table resets after a miss.\<close>

fun miss_all :: "('g, 'd) ReplPolicy \<Rightarrow> (RpInput \<times> 'd) list \<Rightarrow> 'g \<Rightarrow> 'g result" where
  "miss_all rp [] g = Inr g"
| "miss_all rp ((inp, d) # xs) g = bindR (rp_reset rp inp d g) (\<lambda>(d', g'). miss_all rp xs g')"

lemma on_both_frame:
  assumes "on_both fa fb d g = Inr (d', g')"
  shows "dl_isSample d' = dl_isSample d" "dl_team d' = dl_team d" "duelingMonitor g' = duelingMonitor g"
  using assms by (auto simp: on_both_def)

lemma miss_all_monitor:
  "miss_all (dueling rpA rpB n) xs g = Inr g' \<Longrightarrow>
    duelingMonitor g' = fold monitor_sample (map snd xs) (duelingMonitor g)"
proof (induction xs arbitrary: g)
  case (Cons x xs)
  obtain inp d where x: "x = (inp, d)" by force
  with Cons.prems obtain d1 g1 where o: "on_both (rp_reset rpA (input_a inp)) (rp_reset rpB (input_b inp)) d g = Inr (d1, g1)"
    and r: "miss_all (dueling rpA rpB n) xs (g1\<lparr>duelingMonitor := monitor_sample d1 (duelingMonitor g1)\<rparr>) = Inr g'"
    by (auto simp: dueling_def)
  have "monitor_sample d1 (duelingMonitor g1) = monitor_sample d (duelingMonitor g)"
    using on_both_frame [OF o] by (simp add: monitor_sample_def isSample_def)
  then show ?case using Cons.IH [OF r] x by simp
qed simp

lemma dueling_victim:
  assumes "length ds = n" "ds \<noteq> []"
    "\<forall>d \<in> set ds. isSample (dm_id (duelingMonitor g)) d = (sample, team) \<or> \<not> sample \<and> \<not> fst (isSample (dm_id (duelingMonitor g)) d)"
  shows "getVictim (dueling rpA rpB n) inp ds g =
    (if (if sample then \<not> team else winner (duelingMonitor g)) then victim_a rpA inp ds g else victim_b rpB inp ds g)"
proof -
  let ?i = "dm_id (duelingMonitor g)"
  have hd: "isSample ?i (hd ds) = (sample, team) \<or> \<not> sample \<and> \<not> fst (isSample ?i (hd ds))" using assms(2,3) by simp
  have "list_all (same_team ?i (snd (isSample ?i (hd ds)))) ds"
    using assms(3) hd by (fastforce simp: list_all_iff same_team_def)
  then show ?thesis using assms(1,2) hd
    by (cases "isSample ?i (hd ds)") (auto simp: dueling_def getVictim_Dueling_def select_team_def Let_def)
qed

text \<open>C12: Set dueling lets the better policy decide. Starting from a new policy, after any replacements
  that the counter can count, the victim among candidates that are not samples is chosen by the
  sub-policy whose samples were replaced less often, by B when there is no difference. Candidates
  that are samples stay with the policy of their team.\<close>

theorem dueling_fewer_misses:
  fixes rpA :: "('ga, 'a) ReplPolicy" and rpB :: "('gb, 'b) ReplPolicy"
  assumes "newDueling cs ts ga gb k = Inr (g0, k')" "miss_all (dueling rpA rpB n) xs g0 = Inr g"
    "i = dm_id (duelingMonitor g0)" "length ds = n" "ds \<noteq> []"
    "misses_of i False (map snd xs) \<le> 511" "misses_of i True (map snd xs) \<le> 512"
    "\<forall>d \<in> set ds. isSample i d = (sample, team) \<or> \<not> sample \<and> \<not> fst (isSample i d)"
  shows "getVictim (dueling rpA rpB n) inp ds g =
    (if (if sample then \<not> team else misses_of i False (map snd xs) < misses_of i True (map snd xs))
     then victim_a rpA inp ds g else victim_b rpB inp ds g)"
proof -
  note new = newDueling_fair [OF assms(1)]
  let ?m = "duelingMonitor g"
  have m: "?m = fold monitor_sample (map snd xs) (duelingMonitor g0)" by (rule miss_all_monitor [OF assms(2)])
  have s: "fair ?m \<and> dm_id ?m = i \<and> sc32_max (selector ?m) = 1023 \<and>
      sc32_val (selector ?m) + misses_of i False (map snd xs) = 511 + misses_of i True (map snd xs)"
    using selector_counts [OF new(1), of "map snd xs"] assms(6,7) new(2,3) unfolding m assms(3) by simp
  then have "winner ?m \<longleftrightarrow> misses_of i False (map snd xs) < misses_of i True (map snd xs)" by (auto simp: fair_def)
  then show ?thesis using dueling_victim [OF assms(4,5), of g sample team rpA rpB inp] assms(8) s by simp
qed

section \<open>The policy never stops the simulation\<close>

definition duel_ok :: "('a \<Rightarrow> bool) \<Rightarrow> ('b \<Rightarrow> bool) \<Rightarrow> ('a, 'b) DuelerReplData \<Rightarrow> bool" where
  "duel_ok dinvA dinvB d \<longleftrightarrow> dinvA (replDataA d) \<and> dinvB (replDataB d)"

locale dueling_policies = A: replacement_policy rpA dinvA + B: replacement_policy rpB dinvB
  for rpA :: "('ga, 'a) ReplPolicy" and dinvA :: "'a \<Rightarrow> bool" and rpB :: "('gb, 'b) ReplPolicy" and dinvB :: "'b \<Rightarrow> bool"
begin

lemma touch_total:
  assumes "duel_ok dinvA dinvB d"
  shows "\<exists>d' g'. rp_touch (dueling rpA rpB n) inp d g = Inr (d', g') \<and> duel_ok dinvA dinvB d'"
proof -
  obtain da ga db gb where "rp_touch rpA (input_a inp) (replDataA d) (stateA g) = Inr (da, ga)" "dinvA da"
    "rp_touch rpB (input_b inp) (replDataB d) (stateB g) = Inr (db, gb)" "dinvB db"
    using assms A.touch_ok B.touch_ok unfolding duel_ok_def by blast
  then show ?thesis by (simp add: dueling_def on_both_def duel_ok_def)
qed

lemma reset_total:
  assumes "duel_ok dinvA dinvB d"
  shows "\<exists>d' g'. rp_reset (dueling rpA rpB n) inp d g = Inr (d', g') \<and> duel_ok dinvA dinvB d'"
proof -
  obtain da ga db gb where "rp_reset rpA (input_a inp) (replDataA d) (stateA g) = Inr (da, ga)" "dinvA da"
    "rp_reset rpB (input_b inp) (replDataB d) (stateB g) = Inr (db, gb)" "dinvB db"
    using assms A.reset_ok B.reset_ok unfolding duel_ok_def by blast
  then show ?thesis by (simp add: dueling_def on_both_def duel_ok_def)
qed

lemma invalidate_total:
  assumes "duel_ok dinvA dinvB d"
  shows "\<exists>d' g'. rp_invalidate (dueling rpA rpB n) d g = Inr (d', g') \<and> duel_ok dinvA dinvB d'"
proof -
  obtain da ga db gb where "rp_invalidate rpA (replDataA d) (stateA g) = Inr (da, ga)" "dinvA da"
    "rp_invalidate rpB (replDataB d) (stateB g) = Inr (db, gb)" "dinvB db"
    using assms A.invalidate_ok B.invalidate_ok unfolding duel_ok_def by blast
  then show ?thesis by (simp add: dueling_def on_both_def duel_ok_def)
qed

lemma victim_total:
  assumes "ds \<noteq> []" "list_all (duel_ok dinvA dinvB) ds"
  shows "\<exists>v ds' g'. (if a then victim_a rpA inp ds g else victim_b rpB inp ds g) = Inr (v, ds', g') \<and> v < length ds \<and>
    length ds' = length ds \<and> list_all (duel_ok dinvA dinvB) ds'"
proof (cases a)
  case True
  have "list_all dinvA (map replDataA ds)" "map replDataA ds \<noteq> []" using assms by (simp_all add: list_all_iff duel_ok_def)
  then obtain v das ga where v: "getVictim rpA (input_a inp) (map replDataA ds) (stateA g) = Inr (v, das, ga)"
    "v < length ds" "length das = length ds" "list_all dinvA das" using A.victim_ok by (metis length_map)
  then have "list_all (duel_ok dinvA dinvB) (map2 (\<lambda>d da. d\<lparr>replDataA := da\<rparr>) ds das)"
    using assms(2) by (auto simp: list_all_length duel_ok_def)
  then show ?thesis using True v by (simp add: victim_a_def)
next
  case False
  have "list_all dinvB (map replDataB ds)" "map replDataB ds \<noteq> []" using assms by (simp_all add: list_all_iff duel_ok_def)
  then obtain v dbs gb where v: "getVictim rpB (input_b inp) (map replDataB ds) (stateB g) = Inr (v, dbs, gb)"
    "v < length ds" "length dbs = length ds" "list_all dinvB dbs" using B.victim_ok by (metis length_map)
  then have "list_all (duel_ok dinvA dinvB) (map2 (\<lambda>d db. d\<lparr>replDataB := db\<rparr>) ds dbs)"
    using assms(2) by (auto simp: list_all_length duel_ok_def)
  then show ?thesis using False v by (simp add: victim_b_def)
qed

lemma misses_total:
  "list_all (\<lambda>x. duel_ok dinvA dinvB (snd x)) xs \<Longrightarrow> \<exists>g'. miss_all (dueling rpA rpB n) xs g = Inr g'"
proof (induction xs arbitrary: g)
  case (Cons x xs)
  then obtain d' g' where "rp_reset (dueling rpA rpB n) (fst x) (snd x) g = Inr (d', g')" using reset_total by fastforce
  then show ?case using Cons by (cases x) auto
qed simp

end

text \<open>The dynamic insertion policy: LRU against BIP.\<close>

interpretation dip: dueling_policies lru "\<lambda>_. True" "bip btp" "\<lambda>_. True" for btp
  by unfold_locales

definition ex_duel :: "u64 \<Rightarrow> u64 \<Rightarrow> (Tick, Tick) DuelerReplData" where
  "ex_duel sample team = \<lparr>dl_isSample = sample, dl_team = team, replDataA = 0, replDataB = 0\<rparr>"

theorem dueling_fewer_misses_witness:
  "\<exists>g0 g. newDueling 4 1 () () 0 = Inr (g0, 1) \<and>
     miss_all (dueling lru (bip 3) 1) [(\<lparr>rp_tick = 9, rp_draw = 5\<rparr>, ex_duel 1 1)] g0 = Inr g \<and>
     getVictim (dueling lru (bip 3) 1) \<lparr>rp_tick = 10, rp_draw = 0\<rparr> [ex_duel 0 0] g
       = victim_a lru \<lparr>rp_tick = 10, rp_draw = 0\<rparr> [ex_duel 0 0] g"
proof -
  let ?xs = "[(\<lparr>rp_tick = 9, rp_draw = 5\<rparr>, ex_duel 1 1)]"
  obtain g0 where g0: "newDueling 4 1 () () 0 = Inr (g0, 1)" "dm_id (duelingMonitor g0) = 1"
    by (simp add: newDueling_def newDuelingMonitor_def newSatCounter32_def NUM_DUELERS_def Let_def)
  obtain g where g: "miss_all (dueling lru (bip 3) 1) ?xs g0 = Inr g"
    using dip.misses_total [of ?xs 3 1 g0] by (auto simp: duel_ok_def simp del: miss_all.simps)
  have "misses_of 1 False (map snd ?xs) = 0" "misses_of 1 True (map snd ?xs) = 1"
    by (simp_all add: misses_of_def isSample_def ex_duel_def)
  moreover have "\<not> fst (isSample 1 (ex_duel 0 0))" by (simp add: isSample_def ex_duel_def)
  ultimately have "getVictim (dueling lru (bip 3) 1) \<lparr>rp_tick = 10, rp_draw = 0\<rparr> [ex_duel 0 0] g
      = victim_a lru \<lparr>rp_tick = 10, rp_draw = 0\<rparr> [ex_duel 0 0] g"
    using dueling_fewer_misses [OF g0(1) g, of 1 "[ex_duel 0 0]" False False] g0(2) by simp
  then show ?thesis using g0(1) g by blast
qed

end
