(* ===== verification/SmsPf.thy ===== *)
theory SmsPf
  imports QueuedProps "HOL-Library.AList"
begin

text \<open>
  The spatial memory streaming prefetcher (\<open>mem/cache/prefetch/sms.cc\<close>). The offsets accessed in a
  region are collected from its second access until a block of it is evicted, first in the filter
  table \<open>FT\<close>, then in the active generation table \<open>AGT\<close>; the pattern is then filed in the pattern
  history table \<open>PHT\<close> under the program counter and offset of the first access, whose next
  occurrence prefetches it. A \<open>std::map\<close> is an association list without repeated keys, a \<open>std::set\<close>
  an ordered list, and the three queues that decide what is dropped are lists, front first.
\<close>

section \<open>State and operations\<close>

record SmsPf = QueuedPf +
  Max_Contexts :: cint
  MAX_PHTSize :: u64
  Region_Size :: Addr
  AGT :: "(Addr \<times> Addr list) list"
  AGTPC :: "(Addr \<times> Addr \<times> Addr) list"
  FT :: "(Addr \<times> Addr \<times> Addr) list"
  PHT :: "((Addr \<times> Addr) \<times> Addr list) list"
  fifoFT :: "Addr list"
  lruAGT :: "Addr list"
  lruPHT :: "(Addr \<times> Addr) list"

definition newSmsPf :: "u32 \<Rightarrow> u32 \<Rightarrow> Addr \<Rightarrow> QueuedPf \<Rightarrow> SmsPf" where
  "newSmsPf ft_size pht_size region_size q =
     QueuedPf.extend q \<lparr>Max_Contexts = ft_size, MAX_PHTSize = ucast pht_size, Region_Size = region_size,
       AGT = [], AGTPC = [], FT = [], PHT = [], fifoFT = [], lruAGT = [], lruPHT = []\<rparr>"

text \<open>The loops that drop the last of a queue from a map until the map is within its size; the queue
  is given from its back. The result has the keys that were dropped.\<close>

fun drop_back :: "nat \<Rightarrow> ('k \<times> 'v) list \<Rightarrow> 'k list \<Rightarrow> (('k \<times> 'v) list \<times> 'k list \<times> 'k list) result" where
  "drop_back mx m [] = (if length m > mx then Inl (OutOfRange ''back()'') else Inr (m, [], []))"
| "drop_back mx m (k # ks) =
     (if length m > mx
      then bindR (drop_back mx (AList.delete k m) ks) (\<lambda>(m', ks', ds). Inr (m', ks', k # ds))
      else Inr (m, k # ks, []))"

definition shrink :: "nat \<Rightarrow> ('k \<times> 'v) list \<Rightarrow> 'k list \<Rightarrow> (('k \<times> 'v) list \<times> 'k list \<times> 'k list) result" where
  "shrink mx m ks = bindR (drop_back mx m (rev ks)) (\<lambda>(m', ks', ds). Inr (m', rev ks', ds))"

text \<open>The loops that move the first occurrence of a key to the front of a queue.\<close>

definition to_front :: "'k \<Rightarrow> 'k list \<Rightarrow> 'k list" where
  "to_front k ks = (if k \<in> set ks then k # remove1 k ks else ks)"

text \<open>\<open>m[k].insert(x)\<close>.\<close>

definition insert_into :: "'k \<Rightarrow> Addr \<Rightarrow> ('k \<times> Addr list) list \<Rightarrow> ('k \<times> Addr list) list" where
  "insert_into k x m = AList.update k (insort_insert x (case map_of m k of None \<Rightarrow> [] | Some xs \<Rightarrow> xs)) m"

text \<open>The number of contexts is an \<open>int\<close>, widened with its sign for the comparison with a size.\<close>

definition contexts :: "'a SmsPf_scheme \<Rightarrow> nat" where
  "contexts s = unat (scast (Max_Contexts s) :: u64)"

definition notifyEvict_Sms :: "Addr \<Rightarrow> 'a SmsPf_scheme \<Rightarrow> 'a SmsPf_scheme result" where
  "notifyEvict_Sms addr s =
     bindR (roundDown addr (Region_Size s)) (\<lambda>region_base.
       let pc_offset = (case map_of (AGTPC s) region_base of None \<Rightarrow> (0, 0) | Some p \<Rightarrow> p);
           s = (case map_of (AGT s) region_base of
                  None \<Rightarrow> s
                | Some xs \<Rightarrow>
                    s\<lparr>PHT := fold (insert_into pc_offset) xs
                         (if map_of (PHT s) pc_offset \<noteq> None then AList.update pc_offset [] (PHT s) else PHT s),
                      lruPHT := pc_offset # lruPHT s\<rparr>)
       in bindR (shrink (unat (MAX_PHTSize s)) (PHT s) (lruPHT s)) (\<lambda>(pht, lru, ds).
            Inr (s\<lparr>PHT := pht, lruPHT := lru, AGTPC := AList.delete region_base (AGTPC s),
                   AGT := AList.delete region_base (AGT s)\<rparr>)))"

definition sms_train :: "Addr \<Rightarrow> Addr \<Rightarrow> Addr \<Rightarrow> 'a SmsPf_scheme \<Rightarrow> 'a SmsPf_scheme result" where
  "sms_train pc region_base offset s =
     (if map_of (AGT s) region_base \<noteq> None then
        if map_of (FT s) region_base \<noteq> None then Inl (AssertFailed ''FT.find(region_base) == FT.end()'')
        else Inr (s\<lparr>AGT := insert_into region_base offset (AGT s), lruAGT := to_front region_base (lruAGT s)\<rparr>)
      else case map_of (FT s) region_base of
        Some p \<Rightarrow>
          let agt = insert_into region_base offset (insert_into region_base (snd p) (AGT s))
          in bindR (shrink (contexts s) agt (region_base # lruAGT s)) (\<lambda>(agt', lru, ds).
               Inr (s\<lparr>AGT := agt', AGTPC := fold AList.delete ds (AList.update region_base p (AGTPC s)),
                      lruAGT := lru, FT := AList.delete region_base (FT s)\<rparr>))
      | None \<Rightarrow>
          bindR (shrink (contexts s) (AList.update region_base (pc, offset) (FT s)) (region_base # fifoFT s)) (\<lambda>(ft, fifo, ds).
            Inr (s\<lparr>FT := ft, fifoFT := fifo\<rparr>)))"

definition sms_predict :: "Addr \<Rightarrow> Addr \<Rightarrow> Addr \<Rightarrow> 'a SmsPf_scheme \<Rightarrow> AddrPriority list \<times> 'a SmsPf_scheme" where
  "sms_predict pc region_base offset s =
     (case map_of (PHT s) (pc, offset) of
        None \<Rightarrow> ([], s)
      | Some xs \<Rightarrow> (map (\<lambda>x. (blockAddress s (region_base + x), 0)) xs,
                     s\<lparr>lruPHT := to_front (pc, offset) (lruPHT s)\<rparr>))"

definition calculatePrefetch_Sms ::
  "PrefetchInfo \<Rightarrow> CacheAccessor \<Rightarrow> 'a SmsPf_scheme \<Rightarrow> (AddrPriority list \<times> 'a SmsPf_scheme) result" where
  "calculatePrefetch_Sms pfi cache s =
     (if \<not> pf_validPC pfi then Inr ([], s)
      else
        let blk_addr = blockAddress s (pf_address pfi);
            pc = pf_pc pfi
        in bindR (roundDown blk_addr (Region_Size s)) (\<lambda>region_base.
             let offset = blk_addr - region_base
             in bindR (sms_train pc region_base offset s) (\<lambda>s. Inr (sms_predict pc region_base offset s))))"

section \<open>The queues never run dry\<close>

definition keys_of :: "('k \<times> 'v) list \<Rightarrow> 'k set" where
  "keys_of m = fst ` set m"

lemma drop_back_ok:
  assumes "keys_of m \<subseteq> set ks" "distinct (map fst m)"
  shows "\<exists>m' ks' ds. drop_back mx m ks = Inr (m', ks', ds) \<and> keys_of m' \<subseteq> set ks' \<and> distinct (map fst m') \<and>
    length m' \<le> mx \<and> m' = filter (\<lambda>p. fst p \<notin> set ds) m"
  using assms
proof (induction ks arbitrary: m)
  case Nil
  then show ?case by (simp add: keys_of_def)
next
  case (Cons k ks)
  show ?case
  proof (cases "length m > mx")
    case True
    have "keys_of (AList.delete k m) \<subseteq> set ks" "distinct (map fst (AList.delete k m))"
      using Cons.prems by (auto simp: keys_of_def AList.delete_eq distinct_map_filter)
    from Cons.IH [OF this] obtain m' ks' ds where "drop_back mx (AList.delete k m) ks = Inr (m', ks', ds)"
      "keys_of m' \<subseteq> set ks'" "distinct (map fst m')" "length m' \<le> mx" "m' = filter (\<lambda>p. fst p \<notin> set ds) (AList.delete k m)"
      by blast
    moreover have "filter (\<lambda>p. fst p \<notin> set ds) (AList.delete k m) = filter (\<lambda>p. fst p \<notin> set (k # ds)) m"
      by (auto simp: AList.delete_eq intro: filter_cong)
    ultimately show ?thesis using True by auto
  next
    case False
    then show ?thesis using Cons.prems by simp
  qed
qed

lemma shrink_ok:
  assumes "keys_of m \<subseteq> set ks" "distinct (map fst m)"
  shows "\<exists>m' ks' ds. shrink mx m ks = Inr (m', ks', ds) \<and> keys_of m' \<subseteq> set ks' \<and> distinct (map fst m') \<and>
    length m' \<le> mx \<and> m' = filter (\<lambda>p. fst p \<notin> set ds) m"
  using drop_back_ok [of m "rev ks" mx] assms by (auto simp: shrink_def)

lemma shrink_small: "length m \<le> mx \<Longrightarrow> shrink mx m ks = Inr (m, ks, [])"
  by (cases "rev ks") (auto simp: shrink_def)

lemma to_front_set [simp]: "set (to_front k ks) = set ks"
  by (auto simp: to_front_def dest: in_set_remove1 notin_set_remove1) (metis in_set_remove1)

lemma keys_update: "keys_of (AList.update k v m) = insert k (keys_of m)"
  by (simp add: keys_of_def dom_map_of_conv_image_fst [symmetric] update_conv' dom_fun_upd)

lemma keys_insert_into [simp]: "keys_of (insert_into k x m) = insert k (keys_of m)"
  by (simp add: insert_into_def keys_update)

lemma distinct_insert_into: "distinct (map fst m) \<Longrightarrow> distinct (map fst (insert_into k x m))"
  by (simp add: insert_into_def distinct_update)

lemma keys_delete [simp]: "keys_of (AList.delete k m) = keys_of m - {k}"
  by (auto simp: keys_of_def AList.delete_eq)

lemma map_of_None: "map_of m k = None \<longleftrightarrow> k \<notin> keys_of m"
  by (simp add: keys_of_def map_of_eq_None_iff)

lemma keys_deletes [simp]: "keys_of (fold AList.delete ds m) = keys_of m - set ds"
  by (induction ds arbitrary: m) auto

lemma distinct_deletes: "distinct (map fst m) \<Longrightarrow> distinct (map fst (fold AList.delete ds m))"
  by (induction ds arbitrary: m) (auto simp: distinct_delete)

lemma keys_filter: "keys_of (filter (\<lambda>p. fst p \<notin> D) m) = keys_of m - D"
  by (auto simp: keys_of_def)

lemma insert_all_keys:
  "keys_of (fold (insert_into k) xs m) = (if xs = [] then keys_of m else insert k (keys_of m))"
  by (induction xs arbitrary: m) auto

lemma insert_all_distinct: "distinct (map fst m) \<Longrightarrow> distinct (map fst (fold (insert_into k) xs m))"
  by (induction xs arbitrary: m) (auto simp: distinct_insert_into)

definition sms_wf :: "'a SmsPf_scheme \<Rightarrow> bool" where
  "sms_wf s \<longleftrightarrow> isPowerOf2 (Region_Size s) \<and> distinct (map fst (AGT s)) \<and> distinct (map fst (AGTPC s)) \<and>
     distinct (map fst (FT s)) \<and> distinct (map fst (PHT s)) \<and> keys_of (AGTPC s) = keys_of (AGT s) \<and>
     keys_of (AGT s) \<inter> keys_of (FT s) = {} \<and> keys_of (AGT s) \<subseteq> set (lruAGT s) \<and>
     keys_of (FT s) \<subseteq> set (fifoFT s) \<and> keys_of (PHT s) \<subseteq> set (lruPHT s)"

lemma sms_more:
  assumes "QueuedPf.more (s' :: 'a SmsPf_scheme) = QueuedPf.more s"
  shows "sms_wf s' = sms_wf s"
  using assms by (cases s; cases s') (simp add: sms_wf_def)

text \<open>What training leaves alone.\<close>

definition sms_frame :: "'a SmsPf_scheme \<Rightarrow> 'a SmsPf_scheme \<Rightarrow> bool" where
  "sms_frame s s' \<longleftrightarrow> s' = s\<lparr>AGT := AGT s', AGTPC := AGTPC s', FT := FT s', fifoFT := fifoFT s', lruAGT := lruAGT s'\<rparr>"

lemma sms_frameD:
  assumes "sms_frame s s'"
  shows "QueuedPf.truncate s' = QueuedPf.truncate s" "PHT s' = PHT s" "lruPHT s' = lruPHT s" "Region_Size s' = Region_Size s"
    "Max_Contexts s' = Max_Contexts s" "MAX_PHTSize s' = MAX_PHTSize s" "blkSize s' = blkSize s"
  using assms unfolding sms_frame_def by (cases s; cases s'; simp add: QueuedPf.truncate_def)+

lemma sms_train_frame: "sms_train pc r off s = Inr s' \<Longrightarrow> sms_frame s s'"
  by (auto simp: sms_train_def sms_frame_def Let_def split: if_splits option.splits)

lemma sms_train_ok:
  assumes wf: "sms_wf s"
  shows "\<exists>s'. sms_train pc r off s = Inr s' \<and> sms_wf s'"
proof (cases "r \<in> keys_of (AGT s)")
  case True
  then have "map_of (AGT s) r \<noteq> None" "map_of (FT s) r = None"
    using wf by (auto simp: map_of_None sms_wf_def)
  then show ?thesis using True wf
    by (auto simp: sms_train_def sms_wf_def distinct_insert_into insert_absorb)
next
  case agt: False
  then have none: "map_of (AGT s) r = None" by (simp add: map_of_None)
  show ?thesis
  proof (cases "map_of (FT s) r")
    case (Some p)
    let ?agt = "insert_into r off (insert_into r (snd p) (AGT s))"
    have "keys_of ?agt \<subseteq> set (r # lruAGT s)" "distinct (map fst ?agt)"
      using wf by (auto simp: sms_wf_def distinct_insert_into)
    from shrink_ok [OF this] obtain m' ks' ds where m: "shrink (contexts s) ?agt (r # lruAGT s) = Inr (m', ks', ds)"
      "keys_of m' \<subseteq> set ks'" "distinct (map fst m')" "m' = filter (\<lambda>p. fst p \<notin> set ds) ?agt" by blast
    have "keys_of m' = insert r (keys_of (AGT s)) - set ds" unfolding m(4) keys_filter by simp
    moreover have "distinct (map fst (fold AList.delete ds (AList.update r p (AGTPC s))))"
      using wf by (intro distinct_deletes distinct_update) (simp add: sms_wf_def)
    ultimately show ?thesis using none Some m(1-3) wf
      by (auto simp: sms_train_def Let_def sms_wf_def keys_update distinct_delete)
  next
    case None
    let ?ft = "AList.update r (pc, off) (FT s)"
    have "keys_of ?ft \<subseteq> set (r # fifoFT s)" "distinct (map fst ?ft)"
      using wf by (auto simp: sms_wf_def keys_update distinct_update)
    from shrink_ok [OF this] obtain m' ks' ds where m: "shrink (contexts s) ?ft (r # fifoFT s) = Inr (m', ks', ds)"
      "keys_of m' \<subseteq> set ks'" "distinct (map fst m')" "m' = filter (\<lambda>p. fst p \<notin> set ds) ?ft" by blast
    have "keys_of m' \<subseteq> insert r (keys_of (FT s))" unfolding m(4) keys_filter keys_update by blast
    then have "keys_of (AGT s) \<inter> keys_of m' = {}" using wf agt unfolding sms_wf_def by blast
    then show ?thesis using none None m(1-3) wf agt by (auto simp: sms_train_def sms_wf_def)
  qed
qed

lemma sms_predict_wf: "sms_wf s \<Longrightarrow> sms_predict pc r off s = (as, s') \<Longrightarrow> sms_wf s'"
  by (auto simp: sms_predict_def sms_wf_def split: option.splits)

lemma sms_predict_truncate: "sms_predict pc r off s = (as, s') \<Longrightarrow> QueuedPf.truncate s' = QueuedPf.truncate s"
  by (auto simp: sms_predict_def QueuedPf.truncate_def split: option.splits)

lemma roundDown_ok: "isPowerOf2 n \<Longrightarrow> \<exists>r. roundDown a n = Inr r"
  by (simp add: roundDown_def Let_def)

lemma calculatePrefetch_Sms_ok:
  assumes "sms_wf s"
  shows "\<exists>as s'. calculatePrefetch_Sms pfi cache s = Inr (as, s') \<and> sms_wf s'"
proof (cases "pf_validPC pfi")
  case True
  let ?b = "blockAddress s (pf_address pfi)"
  have "isPowerOf2 (Region_Size s)" using assms by (simp add: sms_wf_def)
  then obtain r where r: "roundDown ?b (Region_Size s) = Inr r" using roundDown_ok by blast
  obtain s1 where s1: "sms_train (pf_pc pfi) r (?b - r) s = Inr s1" "sms_wf s1" using sms_train_ok [OF assms] by blast
  obtain as s' where "sms_predict (pf_pc pfi) r (?b - r) s1 = (as, s')" by fastforce
  then show ?thesis using True r s1 sms_predict_wf [OF s1(2)] by (simp add: calculatePrefetch_Sms_def Let_def)
qed (use assms in \<open>simp add: calculatePrefetch_Sms_def\<close>)

lemma calculatePrefetch_Sms_truncate:
  assumes "calculatePrefetch_Sms pfi cache s = Inr (as, s')"
  shows "QueuedPf.truncate s' = QueuedPf.truncate s"
  using assms
  by (auto simp: calculatePrefetch_Sms_def Let_def sms_predict_truncate
      dest!: sms_train_frame sms_frameD(1) split: if_splits)

interpretation sms: prefetch_generator calculatePrefetch_Sms sms_wf "\<lambda>_. True"
proof
  fix pfi c and s s' :: "'a SmsPf_scheme" and as
  show "calculatePrefetch_Sms pfi c s = Inr (as, s') \<Longrightarrow> QueuedPf.truncate s' = QueuedPf.truncate s"
    by (rule calculatePrefetch_Sms_truncate)
  show "sms_wf s \<Longrightarrow> calculatePrefetch_Sms pfi c s = Inr (as, s') \<Longrightarrow> sms_wf s'"
    using calculatePrefetch_Sms_ok [of s pfi c] by auto
  show "same_config s s' \<Longrightarrow> sms_wf s \<Longrightarrow> sms_wf s'" using sms_more same_configD(9) by blast
  show "sms_wf s \<Longrightarrow> True \<Longrightarrow> \<exists>r. calculatePrefetch_Sms pfi c s = Inr r"
    using calculatePrefetch_Sms_ok [of s pfi c] by auto
qed

lemma notifyEvict_Sms_ok:
  assumes wf: "sms_wf s"
  shows "\<exists>s'. notifyEvict_Sms addr s = Inr s' \<and> sms_wf s' \<and> QueuedPf.truncate s' = QueuedPf.truncate s"
proof -
  have "isPowerOf2 (Region_Size s)" using wf by (simp add: sms_wf_def)
  then obtain r where r: "roundDown addr (Region_Size s) = Inr r" using roundDown_ok by blast
  let ?po = "case map_of (AGTPC s) r of None \<Rightarrow> (0, 0) | Some p \<Rightarrow> p"
  let ?s = "case map_of (AGT s) r of None \<Rightarrow> s
    | Some xs \<Rightarrow> s\<lparr>PHT := fold (insert_into ?po) xs
        (if map_of (PHT s) ?po \<noteq> None then AList.update ?po [] (PHT s) else PHT s), lruPHT := ?po # lruPHT s\<rparr>"
  have k: "keys_of (PHT ?s) \<subseteq> set (lruPHT ?s) \<and> distinct (map fst (PHT ?s))"
    using wf by (auto simp: sms_wf_def insert_all_keys keys_update insert_all_distinct distinct_update split: option.splits)
  then obtain m' ks' ds where m: "shrink (unat (MAX_PHTSize ?s)) (PHT ?s) (lruPHT ?s) = Inr (m', ks', ds)"
    "keys_of m' \<subseteq> set ks'" "distinct (map fst m')" using shrink_ok by blast
  let ?s' = "?s\<lparr>PHT := m', lruPHT := ks', AGTPC := AList.delete r (AGTPC ?s), AGT := AList.delete r (AGT ?s)\<rparr>"
  have "notifyEvict_Sms addr s = Inr ?s'" using r m(1) by (simp add: notifyEvict_Sms_def Let_def)
  moreover have "sms_wf ?s'" using wf m(2,3) by (auto simp: sms_wf_def distinct_delete split: option.splits)
  moreover have "QueuedPf.truncate ?s' = QueuedPf.truncate s" by (auto simp: QueuedPf.truncate_def split: option.splits)
  ultimately show ?thesis by blast
qed

section \<open>Patterns\<close>

lemma map_of_insert_into:
  "map_of (insert_into k x m) = (map_of m)(k \<mapsto> insort_insert x (case map_of m k of None \<Rightarrow> [] | Some xs \<Rightarrow> xs))"
  by (simp add: insert_into_def update_conv')

lemma insort_insert_sorted_set:
  "finite A \<Longrightarrow> insort_insert x (sorted_list_of_set A) = sorted_list_of_set (insert x A)"
  by (cases "x \<in> A") (simp_all add: insort_insert_key_def insert_absorb sorted_list_of_set_insert_remove)

lemma insert_all_pattern:
  assumes "finite A" "map_of m k = None \<or> map_of m k = Some []" "A \<noteq> {}"
  shows "map_of (fold (insert_into k) (sorted_list_of_set A) m) k = Some (sorted_list_of_set A)"
proof -
  have "map_of (fold (insert_into k) xs m) k = Some (sorted_list_of_set (set xs \<union> B))"
    if "xs \<noteq> []" "finite B" "(case map_of m k of None \<Rightarrow> [] | Some ys \<Rightarrow> ys) = sorted_list_of_set B" for xs B and m :: "('a \<times> Addr list) list"
    using that
  proof (induction xs arbitrary: m B)
    case (Cons x xs)
    have v: "map_of (insert_into k x m) k = Some (sorted_list_of_set (insert x B))"
      using Cons.prems by (simp add: map_of_insert_into insort_insert_sorted_set)
    show ?case
    proof (cases xs)
      case Nil
      then show ?thesis using v by simp
    next
      case (Cons y ys)
      then show ?thesis using Cons.IH [of "insert x B" "insert_into k x m"] v Cons.prems(2) by simp
    qed
  qed simp
  from this [of "sorted_list_of_set A" "{}" m] assms show ?thesis by auto
qed

fun sms_accesses :: "CacheAccessor \<Rightarrow> PrefetchInfo list \<Rightarrow> 'a SmsPf_scheme \<Rightarrow> 'a SmsPf_scheme result" where
  "sms_accesses cache [] s = Inr s"
| "sms_accesses cache (p # ps) s = bindR (calculatePrefetch_Sms p cache s) (\<lambda>(as, s'). sms_accesses cache ps s')"

text \<open>A generation under way: what has been recorded of it, in a state that otherwise has the patterns
  and the parameters of an earlier one.\<close>

definition same_setup :: "'a SmsPf_scheme \<Rightarrow> 'a SmsPf_scheme \<Rightarrow> bool" where
  "same_setup s s' \<longleftrightarrow> PHT s' = PHT s \<and> Region_Size s' = Region_Size s \<and> MAX_PHTSize s' = MAX_PHTSize s \<and>
     Max_Contexts s' = Max_Contexts s \<and> blkSize s' = blkSize s"

definition recording :: "Addr \<Rightarrow> Addr \<times> Addr \<Rightarrow> Addr set \<Rightarrow> 'a SmsPf_scheme \<Rightarrow> bool" where
  "recording r po ofs s \<longleftrightarrow> sms_wf s \<and> finite ofs \<and> map_of (AGT s) r = Some (sorted_list_of_set ofs) \<and> map_of (AGTPC s) r = Some po"

lemma same_setup_trans: "same_setup s s' \<Longrightarrow> same_setup s' s'' \<Longrightarrow> same_setup s s''"
  by (simp add: same_setup_def)

lemma same_setup_address: "same_setup s s' \<Longrightarrow> blockAddress s' a = blockAddress s a"
  by (simp add: same_setup_def blockAddress_def)

lemma calculate_split:
  assumes "pf_validPC p" "roundDown (blockAddress s (pf_address p)) (Region_Size s) = Inr r"
    "sms_train (pf_pc p) r (blockAddress s (pf_address p) - r) s = Inr s1" "sms_wf s1"
  shows "\<exists>as s'. calculatePrefetch_Sms p cache s = Inr (as, s') \<and> sms_wf s' \<and> same_setup s s' \<and>
    AGT s' = AGT s1 \<and> AGTPC s' = AGTPC s1 \<and> FT s' = FT s1"
proof -
  obtain as s' where p: "sms_predict (pf_pc p) r (blockAddress s (pf_address p) - r) s1 = (as, s')" by fastforce
  have "same_setup s s1" using sms_frameD [OF sms_train_frame [OF assms(3)]] by (simp add: same_setup_def)
  moreover have "same_setup s1 s'" "AGT s' = AGT s1 \<and> AGTPC s' = AGTPC s1 \<and> FT s' = FT s1"
    using p by (auto simp: sms_predict_def same_setup_def split: option.splits)
  ultimately show ?thesis using assms p sms_predict_wf [OF assms(4) p] same_setup_trans [of s s1 s']
    by (simp add: calculatePrefetch_Sms_def Let_def)
qed

lemma length_update_new: "k \<notin> keys_of m \<Longrightarrow> length (AList.update k v m) = Suc (length m)"
  by (induction m) (auto simp: keys_of_def)

lemma length_update_old: "k \<in> keys_of m \<Longrightarrow> length (AList.update k v m) = length m"
  by (induction m) (auto simp: keys_of_def)

abbreviation off_in :: "'a SmsPf_scheme \<Rightarrow> Addr \<Rightarrow> PrefetchInfo \<Rightarrow> Addr" where
  "off_in s r p \<equiv> blockAddress s (pf_address p) - r"

definition access_in :: "'a SmsPf_scheme \<Rightarrow> Addr \<Rightarrow> PrefetchInfo \<Rightarrow> bool" where
  "access_in s r p \<longleftrightarrow> pf_validPC p \<and> roundDown (blockAddress s (pf_address p)) (Region_Size s) = Inr r"

lemma same_setup_access: "same_setup s s' \<Longrightarrow> access_in s' r p = access_in s r p \<and> off_in s' r p = off_in s r p"
  using same_setup_address [of s s'] by (simp add: access_in_def same_setup_def)

lemma first_access:
  assumes "sms_wf s" "access_in s r p" "r \<notin> keys_of (AGT s)" "r \<notin> keys_of (FT s)" "length (FT s) < contexts s"
  shows "\<exists>as s'. calculatePrefetch_Sms p cache s = Inr (as, s') \<and> sms_wf s' \<and> same_setup s s' \<and>
    AGT s' = AGT s \<and> map_of (FT s') r = Some (pf_pc p, off_in s r p)"
proof -
  let ?ft = "AList.update r (pf_pc p, off_in s r p) (FT s)"
  let ?s = "s\<lparr>FT := ?ft, fifoFT := r # fifoFT s\<rparr>"
  have "shrink (contexts s) ?ft (r # fifoFT s) = Inr (?ft, r # fifoFT s, [])"
    using assms(4,5) by (intro shrink_small) (simp add: length_update_new)
  moreover have "map_of (AGT s) r = None" "map_of (FT s) r = None" using assms(3,4) by (simp_all add: map_of_None)
  ultimately have t: "sms_train (pf_pc p) r (off_in s r p) s = Inr ?s" by (simp add: sms_train_def)
  moreover have "sms_wf ?s" using sms_train_ok [OF assms(1), of "pf_pc p" r "off_in s r p"] t by simp
  moreover have "map_of ?ft r = Some (pf_pc p, off_in s r p)" by (simp add: update_conv')
  ultimately show ?thesis using calculate_split [of p s r ?s cache] assms(2) by (auto simp: access_in_def)
qed

lemma second_access:
  assumes "sms_wf s" "access_in s r p" "map_of (FT s) r = Some po" "length (AGT s) < contexts s"
  shows "\<exists>as s'. calculatePrefetch_Sms p cache s = Inr (as, s') \<and> same_setup s s' \<and> recording r po {snd po, off_in s r p} s'"
proof -
  let ?o = "off_in s r p"
  let ?agt = "insert_into r ?o (insert_into r (snd po) (AGT s))"
  let ?s = "s\<lparr>AGT := ?agt, AGTPC := AList.update r po (AGTPC s), lruAGT := r # lruAGT s, FT := AList.delete r (FT s)\<rparr>"
  have "r \<in> keys_of (FT s)" using assms(3) map_of_None [of "FT s" r] by simp
  then have agt: "r \<notin> keys_of (AGT s)" using assms(1) unfolding sms_wf_def by blast
  then have none: "map_of (AGT s) r = None" by (simp add: map_of_None)
  have "length ?agt = Suc (length (AGT s))"
    using agt unfolding insert_into_def by (simp add: length_update_new length_update_old keys_update)
  then have "shrink (contexts s) ?agt (r # lruAGT s) = Inr (?agt, r # lruAGT s, [])"
    using assms(4) by (intro shrink_small) simp
  then have t: "sms_train (pf_pc p) r ?o s = Inr ?s" using none assms(3) by (simp add: sms_train_def Let_def)
  have wf: "sms_wf ?s" using sms_train_ok [OF assms(1), of "pf_pc p" r ?o] t by simp
  have "map_of ?agt r = Some (sorted_list_of_set {snd po, ?o})"
    using none insort_insert_sorted_set [of "{snd po}" ?o]
    by (simp add: map_of_insert_into insort_insert_key_def insert_commute)
  moreover have "map_of (AList.update r po (AGTPC s)) r = Some po" by (simp add: update_conv')
  ultimately show ?thesis using calculate_split [of p s r ?s cache] assms(2) t wf
    by (auto simp: access_in_def recording_def)
qed

lemma later_access:
  assumes "recording r po ofs s" "access_in s r p"
  shows "\<exists>as s'. calculatePrefetch_Sms p cache s = Inr (as, s') \<and> same_setup s s' \<and> recording r po (insert (off_in s r p) ofs) s'"
proof -
  let ?o = "off_in s r p"
  let ?s = "s\<lparr>AGT := insert_into r ?o (AGT s), lruAGT := to_front r (lruAGT s)\<rparr>"
  have rec: "sms_wf s" "finite ofs" "map_of (AGT s) r = Some (sorted_list_of_set ofs)" "map_of (AGTPC s) r = Some po"
    using assms(1) by (simp_all add: recording_def)
  have "r \<in> keys_of (AGT s)" using rec(3) map_of_None [of "AGT s" r] by simp
  then have "r \<notin> keys_of (FT s)" using rec(1) unfolding sms_wf_def by blast
  then have t: "sms_train (pf_pc p) r ?o s = Inr ?s" using rec(3) by (simp add: sms_train_def map_of_None)
  have wf: "sms_wf ?s" using sms_train_ok [OF rec(1), of "pf_pc p" r ?o] t by simp
  have "map_of (insert_into r ?o (AGT s)) r = Some (sorted_list_of_set (insert ?o ofs))"
    using rec(2,3) by (simp add: map_of_insert_into insort_insert_sorted_set)
  then show ?thesis using calculate_split [of p s r ?s cache] assms(2) t wf rec(2,4)
    by (auto simp: access_in_def recording_def)
qed

lemma later_accesses:
  assumes "recording r po ofs s" "\<forall>p \<in> set ps. access_in s r p"
  shows "\<exists>s'. sms_accesses cache ps s = Inr s' \<and> same_setup s s' \<and> recording r po (off_in s r ` set ps \<union> ofs) s'"
  using assms
proof (induction ps arbitrary: s ofs)
  case Nil
  then show ?case by (simp add: same_setup_def)
next
  case (Cons p ps)
  then obtain as s1 where s1: "calculatePrefetch_Sms p cache s = Inr (as, s1)" "same_setup s s1"
    "recording r po (insert (off_in s r p) ofs) s1" using later_access by (metis list.set_intros(1))
  have "\<forall>q \<in> set ps. access_in s1 r q" using Cons.prems(2) same_setup_access [OF s1(2)] by simp
  from Cons.IH [OF s1(3) this] obtain s' where s': "sms_accesses cache ps s1 = Inr s'" "same_setup s1 s'"
    "recording r po (off_in s1 r ` set ps \<union> insert (off_in s r p) ofs) s'" by blast
  have "off_in s1 r ` set ps \<union> insert (off_in s r p) ofs = off_in s r ` set (p # ps) \<union> ofs"
    using same_setup_address [OF s1(2)] by auto
  then show ?case using s1(1) s' same_setup_trans [OF s1(2) s'(2)] by auto
qed

lemma length_insert_all: "length (fold (insert_into k) xs m) \<le> (if k \<in> keys_of m then length m else Suc (length m))"
proof (induction xs arbitrary: m)
  case (Cons x xs)
  have "length (insert_into k x m) = (if k \<in> keys_of m then length m else Suc (length m))"
    unfolding insert_into_def by (simp add: length_update_new length_update_old)
  then show ?case using Cons [of "insert_into k x m"] by (auto split: if_splits)
qed simp

lemma eviction_files:
  assumes rec: "recording r po ofs s" and ne: "ofs \<noteq> {}" and r: "roundDown a (Region_Size s) = Inr r"
    and room: "length (PHT s) < unat (MAX_PHTSize s)"
  shows "\<exists>s'. notifyEvict_Sms a s = Inr s' \<and> sms_wf s' \<and> map_of (PHT s') po = Some (sorted_list_of_set ofs) \<and>
    Region_Size s' = Region_Size s \<and> blkSize s' = blkSize s"
proof -
  have rc: "sms_wf s" "finite ofs" "map_of (AGT s) r = Some (sorted_list_of_set ofs)" "map_of (AGTPC s) r = Some po"
    using rec by (simp_all add: recording_def)
  let ?m = "if map_of (PHT s) po \<noteq> None then AList.update po [] (PHT s) else PHT s"
  let ?pht = "fold (insert_into po) (sorted_list_of_set ofs) ?m"
  have "map_of ?m po = None \<or> map_of ?m po = Some []" by (auto simp: update_conv')
  then have val: "map_of ?pht po = Some (sorted_list_of_set ofs)" by (rule insert_all_pattern [OF rc(2) _ ne])
  have "length ?pht \<le> Suc (length (PHT s))"
    using length_insert_all [of po "sorted_list_of_set ofs" ?m] length_update_old [of po "PHT s" "[]"]
    by (auto simp: map_of_None split: if_splits)
  then have "shrink (unat (MAX_PHTSize s)) ?pht (po # lruPHT s) = Inr (?pht, po # lruPHT s, [])"
    using room by (intro shrink_small) simp
  then have ev: "notifyEvict_Sms a s = Inr (s\<lparr>PHT := ?pht, lruPHT := po # lruPHT s,
      AGTPC := AList.delete r (AGTPC s), AGT := AList.delete r (AGT s)\<rparr>)"
    using r rc(3,4) by (cases "map_of (PHT s) po") (simp_all add: notifyEvict_Sms_def Let_def)
  then have "sms_wf (s\<lparr>PHT := ?pht, lruPHT := po # lruPHT s,
      AGTPC := AList.delete r (AGTPC s), AGT := AList.delete r (AGT s)\<rparr>)"
    using notifyEvict_Sms_ok [OF rc(1), of a] by simp
  then show ?thesis using ev val by simp
qed

lemma replay:
  assumes "sms_wf s" "access_in s r q" "map_of (PHT s) (pf_pc q, off_in s r q) = Some xs"
  shows "\<exists>s'. calculatePrefetch_Sms q cache s = Inr (map (\<lambda>x. (blockAddress s (r + x), 0)) xs, s')"
proof -
  obtain s1 where t: "sms_train (pf_pc q) r (off_in s r q) s = Inr s1" using sms_train_ok [OF assms(1)] by blast
  have "PHT s1 = PHT s" "blkSize s1 = blkSize s" using sms_frameD [OF sms_train_frame [OF t]] by simp_all
  then show ?thesis using assms(2,3) t
    by (simp add: access_in_def calculatePrefetch_Sms_def sms_predict_def blockAddress_def Let_def)
qed

section \<open>Properties\<close>

text \<open>C15: The spatial memory streaming prefetcher never stops the simulation: from every well-formed
  state an access and an eviction are processed, no queue is asked for its last element when it
  is empty, no region is in both tables, and the state is well-formed afterwards. The access is
  one the cache passes to \<open>notify\<close>, with the addresses it reads and a program counter if it has a
  context and a virtual address, or any access reported to the probe that has a physical address
  and a request with a program counter if it has a virtual address, as the constructors see to.\<close>

theorem sms_notify_safe:
  assumes "good sms_wf s"
  shows "(usable s pkt pfi \<longrightarrow> (\<exists>s'. notify_queued calculatePrefetch_Sms env pkt pfi s = Inr s' \<and> good sms_wf s')) \<and>
    (pkt_addr pkt \<noteq> None \<and> req_paddr (req pkt) \<noteq> None \<and> request_wf (req pkt) \<longrightarrow>
      (\<exists>s'. probeNotify (\<lambda>pkt cache pfi. notify_queued calculatePrefetch_Sms env pkt pfi) pkt cache miss s = Inr s' \<and>
         good sms_wf s')) \<and>
    (\<exists>s'. notifyEvict_Sms addr s = Inr s' \<and> good sms_wf s')"
proof (intro conjI impI)
  assume "usable s pkt pfi"
  then show "\<exists>s'. notify_queued calculatePrefetch_Sms env pkt pfi s = Inr s' \<and> good sms_wf s'"
    using sms.notify_total [OF assms] sms.notify_good [OF assms(1)] by blast
next
  assume "pkt_addr pkt \<noteq> None \<and> req_paddr (req pkt) \<noteq> None \<and> request_wf (req pkt)"
  then show "\<exists>s'. probeNotify (\<lambda>pkt cache pfi. notify_queued calculatePrefetch_Sms env pkt pfi) pkt cache miss s = Inr s' \<and>
      good sms_wf s'"
    using sms.probe_total [OF assms] by blast
next
  obtain s' where s': "notifyEvict_Sms addr s = Inr s'" "sms_wf s'" "QueuedPf.truncate s' = QueuedPf.truncate s"
    using notifyEvict_Sms_ok [of s addr] assms(1) by (auto simp: good_def)
  then have "good sms_wf s'" using assms(1) truncate_frame(1-3) [OF s'(3)] by (simp add: good_def)
  then show "\<exists>s'. notifyEvict_Sms addr s = Inr s' \<and> good sms_wf s'" using s'(1) by blast
qed

definition ex_sms :: SmsPf where
  "ex_sms = newSmsPf 64 16 4096 (ex_queued [] [])"

lemmas ex_sms_simps = ex_sms_def newSmsPf_def QueuedPf.defs ex_queued_def

lemma ex_sms_wf: "sms_wf ex_sms"
  by (simp add: ex_sms_simps sms_wf_def keys_of_def isPowerOf2_def)

theorem sms_notify_safe_witness:
  "(\<exists>s'. notify_queued calculatePrefetch_Sms ex_env ex_packet (ex_info 0x1040) ex_sms = Inr s' \<and> good sms_wf s') \<and>
   (\<exists>s'. notifyEvict_Sms 0x1040 ex_sms = Inr s' \<and> good sms_wf s')"
proof -
  have t: "QueuedPf.truncate ex_sms = ex_queued [] []" by (simp add: ex_sms_simps)
  have "queued_wf (ex_queued [] [])" "roomy (ex_queued [] [])"
    using ex_base_wf [of "[]" "[]"] by (simp_all add: queued_wf_def roomy_def ex_queued_def)
  then have g: "good sms_wf ex_sms" using truncate_wf [of ex_sms] ex_sms_wf by (simp add: good_def t)
  have "usable ex_sms ex_packet (ex_info 0x1040)"
    by (simp add: usable_def ex_packet_def ex_info_def physRequest_def ex_sms_simps)
  with sms_notify_safe [OF g, of ex_packet "ex_info 0x1040" ex_env _ _ "0x1040"] show ?thesis by blast
qed

text \<open>C10: A pattern is learnt in one generation and replayed exactly. After two or more accesses to a
  region with no entry yet, and the eviction of a block of it, an access by the same program
  counter to the same offset of any region prefetches exactly the offsets of the recorded
  accesses, in ascending order, in that region. (While the tables have room.)\<close>

theorem sms_replays_pattern:
  assumes "sms_wf s" "\<forall>p \<in> set (p1 # p2 # ps). access_in s r p" "r \<notin> keys_of (AGT s)" "r \<notin> keys_of (FT s)"
    "length (AGT s) < contexts s" "length (FT s) < contexts s" "length (PHT s) < unat (MAX_PHTSize s)"
    "roundDown a (Region_Size s) = Inr r" "access_in s r' q" "pf_pc q = pf_pc p1" "off_in s r' q = off_in s r p1"
  shows "\<exists>s1 s2 s3. sms_accesses cache (p1 # p2 # ps) s = Inr s1 \<and> notifyEvict_Sms a s1 = Inr s2 \<and>
    calculatePrefetch_Sms q cache s2 = Inr (map (\<lambda>x. (blockAddress s (r' + x), 0))
      (sorted_list_of_set (off_in s r ` set (p1 # p2 # ps))), s3)"
proof -
  obtain as1 t1 where t1: "calculatePrefetch_Sms p1 cache s = Inr (as1, t1)" "sms_wf t1" "same_setup s t1" "AGT t1 = AGT s"
    "map_of (FT t1) r = Some (pf_pc p1, off_in s r p1)" using first_access [of s r p1 cache] assms by auto
  have "access_in t1 r p2" "length (AGT t1) < contexts t1"
    using same_setup_access [OF t1(3)] assms(2,5) t1(3,4) by (simp_all add: contexts_def same_setup_def)
  from second_access [OF t1(2) this(1) t1(5) this(2), of cache] obtain as2 t2 where
    t2: "calculatePrefetch_Sms p2 cache t1 = Inr (as2, t2)" "same_setup t1 t2"
      "recording r (pf_pc p1, off_in s r p1) {off_in s r p1, off_in s r p2} t2"
    using same_setup_access [OF t1(3), of r p2] by auto
  have set2: "same_setup s t2" by (rule same_setup_trans [OF t1(3) t2(2)])
  have "\<forall>p \<in> set ps. access_in t2 r p" using assms(2) same_setup_access [OF set2] by simp
  from later_accesses [OF t2(3) this] obtain s1 where s1: "sms_accesses cache ps t2 = Inr s1" "same_setup t2 s1"
    "recording r (pf_pc p1, off_in s r p1) (off_in t2 r ` set ps \<union> {off_in s r p1, off_in s r p2}) s1" by blast
  have set1: "same_setup s s1" by (rule same_setup_trans [OF set2 s1(2)])
  have ofs: "off_in t2 r ` set ps \<union> {off_in s r p1, off_in s r p2} = off_in s r ` set (p1 # p2 # ps)"
    using same_setup_address [OF set2] by auto
  obtain s2 where s2: "notifyEvict_Sms a s1 = Inr s2" "sms_wf s2" "Region_Size s2 = Region_Size s1" "blkSize s2 = blkSize s1"
    "map_of (PHT s2) (pf_pc p1, off_in s r p1) = Some (sorted_list_of_set (off_in s r ` set (p1 # p2 # ps)))"
    using eviction_files [OF s1(3), of a] assms(7,8) set1 unfolding ofs by (auto simp: same_setup_def)
  have blk: "blockAddress s2 x = blockAddress s x" for x using s2(4) set1 by (simp add: blockAddress_def same_setup_def)
  have "access_in s2 r' q" using assms(9) s2(3) set1 blk by (simp add: access_in_def same_setup_def)
  from replay [OF s2(2) this, of _ cache] s2(5) assms(10,11) blk show ?thesis using t1(1) t2(1) s1(1) s2(1) by simp
qed

theorem sms_replays_pattern_witness:
  "\<exists>s1 s2 s3. sms_accesses (env_cache ex_env) [ex_info 0x1040, ex_info 0x1200] ex_sms = Inr s1 \<and>
     notifyEvict_Sms 0x1040 s1 = Inr s2 \<and>
     calculatePrefetch_Sms (ex_info 0x8040) (env_cache ex_env) s2 = Inr ([(0x8040, 0), (0x8200, 0)], s3)"
proof -
  let ?p = "ex_info 0x1040" and ?p' = "ex_info 0x1200" and ?q = "ex_info 0x8040"
  have acc: "access_in ex_sms 0x1000 ?p" "access_in ex_sms 0x1000 ?p'" "access_in ex_sms 0x8000 ?q"
    by (simp_all add: access_in_def ex_sms_simps ex_info_def blockAddress_def roundDown_def isPowerOf2_def)
  have off: "off_in ex_sms 0x1000 ?p = 0x40" "off_in ex_sms 0x1000 ?p' = 0x200" "off_in ex_sms 0x8000 ?q = 0x40"
    "blockAddress ex_sms 0x8040 = 0x8040" "blockAddress ex_sms 0x8200 = 0x8200"
    by (simp_all add: ex_sms_simps ex_info_def blockAddress_def)
  have ex: "keys_of (AGT ex_sms) = {}" "keys_of (FT ex_sms) = {}" "length (AGT ex_sms) < contexts ex_sms"
    "length (FT ex_sms) < contexts ex_sms" "length (PHT ex_sms) < unat (MAX_PHTSize ex_sms)"
    "roundDown 0x1040 (Region_Size ex_sms) = Inr 0x1000"
    by (simp_all add: ex_sms_simps keys_of_def contexts_def roundDown_def isPowerOf2_def)
  have pc: "pf_pc ?q = pf_pc ?p" by (simp add: ex_info_def)
  have "sorted_list_of_set {0x40, 0x200 :: Addr} = [0x40, 0x200]" by simp
  then show ?thesis
    using sms_replays_pattern [OF ex_sms_wf, of ?p ?p' "[]" "0x1000" "0x1040" "0x8000" ?q "env_cache ex_env"] acc off ex pc
    by simp
qed






end
