(* ===== verification/Spec2Isabelle.thy ===== *)
theory Spec2Isabelle
  imports Prelude Doubles SatCounter BaseUtil MemPacket CacheCounters PrefetchBase QueuedProps TaggedPf MLProps Rrip TreePLRU StridePf BopProps MultiPf SetDueling SmsPf
begin

text \<open>
  Verification of the learning prefetch controller of this repository, a fork of the gem5
  simulator, and of the parts of the memory system it stands on. All paths below are under
  \<open>src/\<close>.

  \<^bold>\<open>The program.\<close> A cache tells its prefetcher about accesses (\<open>mem/cache/prefetch/base.cc\<close>). A
  queued prefetcher (\<open>queued.cc\<close>) asks its derived class for candidate addresses, filters them,
  translates them and keeps them in two queues until the cache takes a packet. The derived
  classes modelled here are the tagged, stride, best offset and spatial memory streaming
  prefetchers (\<open>tagged.cc\<close>, \<open>stride.cc\<close>, \<open>bop.cc\<close>, \<open>sms.cc\<close>) and the learning controller
  (\<open>ml_prefetch_controller.cc\<close>); the multi prefetcher (\<open>multi.cc\<close>) takes the packets of several
  prefetchers in turn. The controller is a
  queued prefetcher with child prefetchers: it trains all of them on every access, issues the
  candidates of the active one, and at the end of every epoch chooses the next active child, or
  OFF, from a table of Q-values that it saves to a file. The stride prefetcher keeps its history
  in associative tables (\<open>base/cache/associative_cache.hh\<close>) over an indexing policy
  (\<open>mem/cache/tags\<close>) and a replacement policy (\<open>mem/cache/replacement_policies\<close>).

  \<^bold>\<open>Conventions.\<close> Machine integers are words of their width and wrap; statistics are natural
  numbers; a double is a rational number rounded to 53 bits after every operation. A class is a
  record, a derived class extends the record of its base, and a virtual function is an argument of
  the functions that call it. A function that can assert, panic, throw or dereference a null
  pointer returns \<open>result\<close>, whose left side names the failure. The current tick, random draws,
  replies of the MMU, contents of files and the state of the cache are inputs.

  \<^bold>\<open>Theories.\<close>
  \<^item> \<open>Prelude\<close>: types, the result monad, searches over lists, facts on words.
  \<^item> \<open>Doubles\<close>, \<open>DoubleBits\<close>: rounding to binary64 (\<open>rnd64\<close>), its laws as the locale
    \<open>correct_rounding\<close>, and the eight bytes of a double.
  \<^item> \<open>SatCounter\<close> (\<open>base/sat_counter.hh\<close>), \<open>BaseUtil\<close> (\<open>base/bitfield.hh\<close>, \<open>base/intmath.hh\<close>): every
    operation with its exact arithmetic meaning.
  \<^item> \<open>MemPacket\<close> (\<open>mem/packet.hh\<close>, \<open>mem/packet.cc\<close>, \<open>mem/request.hh\<close>): the command table, requests and
    packets as far as prefetchers use them.
  \<^item> \<open>PrefetchBase\<close>, \<open>QueuedPrefetcher\<close>: the base classes. \<open>QueuedInvariants\<close> proves the queue
    invariant \<open>queued_wf\<close> for every operation and states what a derived class must offer as the
    locale \<open>prefetch_generator\<close>, in which an access is shown never to fail, from \<open>notify\<close> (for
    what \<open>usable\<close> says of it) and from \<open>probeNotify\<close>, where any access with a physical address will
    do whose request has a program counter if it has a virtual address (\<open>request_wf\<close>: only
    \<open>setVirt\<close> sets a virtual address, and it sets both); \<open>QueuedProps\<close> holds the properties: asking for
    a packet never fails, the bounds of the throttle, and what the queue does in the wrong place.
  \<^item> \<open>TaggedPf\<close>, \<open>StridePf\<close>: two generators, with the exact addresses they propose and, for the
    stride prefetcher, the number of accesses in which a stride is learnt.
  \<^item> \<open>Replacement\<close>, \<open>Rrip\<close>, \<open>TreePLRU\<close>: the replacement policies. The locale \<open>replacement_policy\<close>
    is the contract of a policy, \<open>invalid_first\<close> adds that invalid entries are evicted first;
    LRU, BIP, MRU, FIFO, LFU, random, second chance and BRRIP are instances, weighted LRU only of
    the first. The properties are that searches end, return a candidate and protect what was just
    used.
  \<^item> \<open>BopPf\<close>, \<open>BopProps\<close>: the best offset prefetcher with its delay queue: the list of offsets, the
    choice at the end of a learning phase, the bound on the length of a phase, and in every run the
    order of the delay queue and what its event writes to the table. \<open>SmsPf\<close>: spatial memory streaming, which replays the pattern of a
    region. \<open>MultiPf\<close>: the rotation among prefetchers, over the locale \<open>sub_prefetcher\<close>, interpreted
    for tagged, stride and best offset prefetchers.
  \<^item> \<open>SetDueling\<close>: monitors and the policy that lets two others duel, over the locale
    \<open>dueling_policies\<close>, interpreted for LRU against BIP; again a \<open>replacement_policy\<close>.
  \<^item> \<open>Indexing\<close>, \<open>AssocCache\<close>: sets, tags and tables. The locale \<open>associative_table\<close> builds on
    \<open>replacement_policy\<close>; inside it a table is shown to refine a map from blocks to entries, and
    creating a table to take over the index. Pointers are positions in a store, because several
    tables may share one index, as they do in the stride prefetcher.
  \<^item> \<open>MLController\<close>: every operation of the controller in the order of its source; \<open>QTableFile\<close>: the
    bytes of the file. \<open>MLInvariants\<close> proves the invariant of an epoch, \<open>MLRuns\<close> defines the runs of a
    controller as an inductive relation (boot, accesses, packets, replies, epochs, restarts) over children
    that meet the locale \<open>child_prefetchers\<close>, which makes the controller a \<open>prefetch_generator\<close>
    again. \<open>MLChildren\<close> instantiates it with tagged and stride children, and \<open>MLProps\<close> has the
    properties of runs, of learning (what a credit does to a value, the greedy choice, the rate that
    exploration settles at), of the file and of the attribution of prefetches.
  \<^item> \<open>CacheCounters\<close> (\<open>mem/cache/base.hh\<close>): the counters the controller samples. This theory connects
    them with the miss rate of an epoch.

  \<^bold>\<open>Termination and bounds.\<close> No definition uses fuel. Recursion is structural, except for the
  second-chance search (the number of second chances decreases), the loops that build the list of
  offsets (the number to divide decreases, the offset increases to a bound), the loop from a leaf of a
  pseudo-LRU tree to its root (the node number decreases) and the walk to a leaf (it
  increases), which have termination proofs. Numbers of sets, ways and tree nodes are those the
  constructors accept. Node numbers of trees are natural numbers; the one index that wraps around
  is written out. A double outside the rationals (an infinity read from a file) is an error value.

  \<^bold>\<open>Not modelled.\<close> The other prefetchers of \<open>mem/cache/prefetch\<close>, skewed indexing and
  entries keyed by an address alone; the caches themselves (tags, MSHRs, timing, coherence),
  which the prefetchers see through an accessor that is a parameter here; memory controllers,
  interconnect, processors, devices and the simulation kernel, which this repository takes over
  from gem5 unchanged; the Python configuration, from which the build generates parameter
  structs; debug output and the registration of statistics, which do not change the state. The
  lifetime of C++ objects is not modelled beyond null and stale pointers.
\<close>

section \<open>The controller and its cache\<close>

text \<open>C22: The miss rate the controller computes at the end of an epoch is the fraction of the
  cache's accesses in the epoch that missed, a number between 0 and 1, also when the counters
  of the cache wrap around in between.\<close>

theorem epoch_miss_rate_is_fraction:
  assumes "count_accesses es c = Inr c'" "length es < 2 ^ 64" "cachePtr s"
    "lastAccesses s = runtimeAccesses c" "lastMisses s = runtimeMisses c"
    "ei_accesses inp = runtimeAccesses c'" "ei_misses inp = runtimeMisses c'"
  shows "fst (miss_sample inp s) = (if es = [] then 0
      else fdiv (rnd64 (of_nat (length (filter snd es)))) (rnd64 (of_nat (length es)))) \<and>
    0 \<le> fst (miss_sample inp s) \<and> fst (miss_sample inp s) \<le> 1"
proof -
  let ?a = "runtimeAccesses c' - runtimeAccesses c" and ?m = "runtimeMisses c' - runtimeMisses c"
  have n: "unat ?a = length es" "unat ?m = length (filter snd es)"
    using runtime_counters_unat [OF assms(1,2)] by simp_all
  have z: "0 < ?a \<longleftrightarrow> es \<noteq> []" using n(1) by (simp add: word_less_nat_alt)
  have r: "fst (miss_sample inp s) = (if es = [] then 0
      else fdiv (rnd64 (of_nat (length (filter snd es)))) (rnd64 (of_nat (length es))))"
    using assms(3-7) z by (simp add: miss_sample_def Let_def double_of_def n)
  have "0 \<le> rnd64 (of_nat (length (filter snd es)))" "rnd64 (of_nat (length (filter snd es))) \<le> rnd64 (of_nat (length es))"
    by (simp_all add: rnd64_nonneg rnd64_mono)
  from binary64.unit_quotient [OF this] show ?thesis unfolding r by (simp add: fdiv_def)
qed

theorem epoch_miss_rate_is_fraction_witness:
  "0 \<le> fst (miss_sample (ex_input\<lparr>ei_accesses := 1, ei_misses := 8\<rparr>)
     (ex_ml\<lparr>cachePtr := True, lastAccesses := - 1, lastMisses := 7\<rparr>))"
proof -
  obtain c' where c: "count_accesses [(ex_access, True), (ex_access, False)] ex_counters = Inr c'"
    and a: "runtimeAccesses c' = 1" "runtimeMisses c' = 8"
    by (simp add: incMissCount_def incHitCount_def ex_counters_def ex_access_def physRequest_def)
  show ?thesis
    using epoch_miss_rate_is_fraction [OF c, of "ex_ml\<lparr>cachePtr := True, lastAccesses := - 1, lastMisses := 7\<rparr>"
        "ex_input\<lparr>ei_accesses := 1, ei_misses := 8\<rparr>"] a
    by (simp add: ex_counters_def)
qed

end
